(* ===== verification/Prelude.thy ===== *)
theory Prelude
  imports Main "HOL-Library.Word" "HOL-Library.Monad_Syntax"
begin

unbundle bit_operations_syntax

text \<open>
  Shared vocabulary of the development.

  Machine integers keep their Go width: a \<^verbatim>\<open>byte\<close> is an \<open>8 word\<close>, \<^verbatim>\<open>uint16\<close>,
  \<^verbatim>\<open>uint32\<close> and \<^verbatim>\<open>uint64\<close> are words of 16, 32 and 64 bits. Slice lengths and
  offsets are \<open>nat\<close>: a Go slice index never exceeds the length of a slice that exists, so
  the 64-bit \<^verbatim>\<open>int\<close> that holds it does not wrap.

  A Go run-time panic (an index or a slice expression out of range) is the value \<open>None\<close> of
  the option monad: a definition that indexes a slice has a result of type \<open>'a option\<close> and
  a theorem that it always returns \<open>Some\<close> says the code never panics there.
\<close>

type_synonym byte = "8 word"
type_synonym u16 = "16 word"
type_synonym u32 = "32 word"
type_synonym u64 = "64 word"
type_synonym bytes = "byte list"

named_theorems go_safe
  \<comment> \<open>no-panic facts: a definition returns \<open>Some\<close> under its guards\<close>

declare Option.bind_cong [fundef_cong]

section \<open>Slices\<close>

text \<open>\<open>s[i]\<close>, panicking out of range.\<close>

definition idx :: "'a list \<Rightarrow> nat \<Rightarrow> 'a option" where
  "idx s i = (if i < length s then Some (s ! i) else None)"

text \<open>\<open>s[a:b]\<close>, panicking unless \<open>a \<le> b \<le> len(s)\<close>.\<close>

definition subslice :: "'a list \<Rightarrow> nat \<Rightarrow> nat \<Rightarrow> 'a list option" where
  "subslice s a b = (if a \<le> b \<and> b \<le> length s then Some (take (b - a) (drop a s)) else None)"

text \<open>\<open>s[a:]\<close>.\<close>

definition slice_from :: "'a list \<Rightarrow> nat \<Rightarrow> 'a list option" where
  "slice_from s a = (if a \<le> length s then Some (drop a s) else None)"

text \<open>\<open>s[i] = v\<close>, panicking out of range.\<close>

definition upd :: "'a list \<Rightarrow> nat \<Rightarrow> 'a \<Rightarrow> 'a list option" where
  "upd s i v = (if i < length s then Some (s[i := v]) else None)"

text \<open>
  \<open>||\<close> and \<open>&&\<close>, whose right operand is evaluated only when the left one does not decide; and a
  test of \<open>s[i]\<close>.
\<close>

definition go_or :: "bool option \<Rightarrow> bool option \<Rightarrow> bool option" where
  "go_or a b = do { x \<leftarrow> a; if x then Some True else b }"

definition go_and :: "bool option \<Rightarrow> bool option \<Rightarrow> bool option" where
  "go_and a b = do { x \<leftarrow> a; if x then b else Some False }"

definition test :: "'a list \<Rightarrow> nat \<Rightarrow> ('a \<Rightarrow> bool) \<Rightarrow> bool option" where
  "test s i P = do { x \<leftarrow> idx s i; Some (P x) }"

text \<open>\<open>copy(dst[at:], src)\<close> for a source that fits.\<close>

definition copy_at :: "'a list \<Rightarrow> nat \<Rightarrow> 'a list \<Rightarrow> 'a list" where
  "copy_at dst at src = take at dst @ take (length dst - at) src @ drop (at + length src) dst"

lemma idx_Some [simp, go_safe]: "i < length s \<Longrightarrow> idx s i = Some (s ! i)"
  by (simp add: idx_def)

lemma idx_eq_Some_iff: "idx s i = Some x \<longleftrightarrow> i < length s \<and> s ! i = x"
  by (auto simp: idx_def)

lemma subslice_Some [simp, go_safe]:
  "a \<le> b \<Longrightarrow> b \<le> length s \<Longrightarrow> subslice s a b = Some (take (b - a) (drop a s))"
  by (simp add: subslice_def)

lemma subslice_eq_Some_iff:
  "subslice s a b = Some t \<longleftrightarrow> a \<le> b \<and> b \<le> length s \<and> t = take (b - a) (drop a s)"
  by (auto simp: subslice_def)

lemma length_subslice: "subslice s a b = Some t \<Longrightarrow> length t = b - a"
  by (auto simp: subslice_eq_Some_iff)

lemma slice_from_Some [simp, go_safe]: "a \<le> length s \<Longrightarrow> slice_from s a = Some (drop a s)"
  by (simp add: slice_from_def)

lemma upd_Some [simp, go_safe]: "i < length s \<Longrightarrow> upd s i v = Some (s[i := v])"
  by (simp add: upd_def)

lemma test_Some [simp, go_safe]: "i < length s \<Longrightarrow> test s i P = Some (P (s ! i))"
  by (simp add: test_def)

lemma go_or_simps [simp]:
  "go_or (Some True) b = Some True" "go_or (Some False) b = b" "go_or (Some p) (Some q) = Some (p \<or> q)"
  by (simp_all add: go_or_def)

lemma go_and_simps [simp]:
  "go_and (Some True) b = b" "go_and (Some False) b = Some False" "go_and (Some p) (Some q) = Some (p \<and> q)"
  by (simp_all add: go_and_def)

text \<open>A length guard in front of reads that it keeps in range.\<close>

lemma go_or_guard: "(\<not> p \<Longrightarrow> b = Some q) \<Longrightarrow> go_or (Some p) b = Some (p \<or> q)"
  by (cases p) simp_all

lemma go_and_guard: "(p \<Longrightarrow> b = Some q) \<Longrightarrow> go_and (Some p) b = Some (p \<and> q)"
  by (cases p) simp_all

lemma length_copy_at [simp]:
  "at + length src \<le> length dst \<Longrightarrow> length (copy_at dst at src) = length dst"
  by (simp add: copy_at_def)

section \<open>Computations that return\<close>

text \<open>A computation that does not panic, with a rule per construct of the option monad.\<close>

definition returns :: "'a option \<Rightarrow> bool" where
  "returns m \<longleftrightarrow> m \<noteq> None"

named_theorems returns_intros
  \<comment> \<open>when a computation of the option monad returns\<close>

lemma returns_iff: "returns m \<longleftrightarrow> (\<exists>x. m = Some x)"
  by (auto simp: returns_def)

lemma returns_Some [returns_intros]: "returns (Some x)"
  by (simp add: returns_def)

lemma returns_bind [returns_intros]:
  "returns m \<Longrightarrow> (\<And>x. m = Some x \<Longrightarrow> returns (f x)) \<Longrightarrow> returns (m \<bind> f)"
  by (auto simp: returns_def)

lemma returns_if [returns_intros]:
  "(c \<Longrightarrow> returns a) \<Longrightarrow> (\<not> c \<Longrightarrow> returns b) \<Longrightarrow> returns (if c then a else b)"
  by simp

lemma returns_Let [returns_intros]: "(\<And>y. y = x \<Longrightarrow> returns (f y)) \<Longrightarrow> returns (Let x f)"
  by simp

lemma returns_prod [returns_intros]:
  "(\<And>a b. p = (a, b) \<Longrightarrow> returns (f a b)) \<Longrightarrow> returns (case p of (a, b) \<Rightarrow> f a b)"
  by (cases p) simp

lemma returns_prod_app [returns_intros]:
  "(\<And>a b. p = (a, b) \<Longrightarrow> returns (f a b y)) \<Longrightarrow> returns ((case p of (a, b) \<Rightarrow> f a b) y)"
  by (cases p) simp

lemma returns_option [returns_intros]:
  "(v = None \<Longrightarrow> returns a) \<Longrightarrow> (\<And>x. v = Some x \<Longrightarrow> returns (f x)) \<Longrightarrow>
     returns (case v of None \<Rightarrow> a | Some x \<Rightarrow> f x)"
  by (cases v) simp_all

lemma returns_go_or [returns_intros]:
  "returns a \<Longrightarrow> (a = Some False \<Longrightarrow> returns b) \<Longrightarrow> returns (go_or a b)"
  by (auto simp: returns_def go_or_def)

lemma returns_go_and [returns_intros]:
  "returns a \<Longrightarrow> (a = Some True \<Longrightarrow> returns b) \<Longrightarrow> returns (go_and a b)"
  by (auto simp: returns_def go_and_def)

lemma returns_test [returns_intros]: "i < length s \<Longrightarrow> returns (test s i P)"
  by (simp add: returns_def)

lemma returns_upd [returns_intros]: "i < length s \<Longrightarrow> returns (upd s i v)"
  by (simp add: returns_def)

lemma returns_idx [returns_intros]: "i < length s \<Longrightarrow> returns (idx s i)"
  by (simp add: returns_def)

lemma returns_subslice [returns_intros]: "a \<le> b \<Longrightarrow> b \<le> length s \<Longrightarrow> returns (subslice s a b)"
  by (simp add: returns_def)

lemma returns_slice_from [returns_intros]: "a \<le> length s \<Longrightarrow> returns (slice_from s a)"
  by (simp add: returns_def)

section \<open>Words\<close>

abbreviation byte_of :: "'a::len word \<Rightarrow> byte" where
  "byte_of x \<equiv> ucast x"

text \<open>\<open>int(hi&0x0F)<<8 | int(lo)\<close>: the 12-bit length fields of MPEG sections.\<close>

definition len12 :: "byte \<Rightarrow> byte \<Rightarrow> nat" where
  "len12 hi lo = push_bit 8 (unat (hi AND 0x0F)) OR unat lo"

text \<open>\<open>uint16(hi&0x1F)<<8 | uint16(lo)\<close>: a 13-bit PID.\<close>

definition pid13 :: "byte \<Rightarrow> byte \<Rightarrow> u16" where
  "pid13 hi lo = push_bit 8 (ucast (hi AND 0x1F)) OR ucast lo"

lemma unat_byte_less [simp]: "unat (x :: byte) < 256"
  using unsigned_less [of x, where ?'a = nat] by simp

lemma and_low_le: "unat ((x :: 'a::len word) AND m) \<le> unat m"
  by (rule word_and_le1 [THEN word_le_nat_alt [THEN iffD1]])

lemma take_bit_word_small:
  fixes w :: "'a::len word"
  assumes "unat w < 2 ^ n"
  shows "take_bit n w = w"
proof -
  have "unat (take_bit n w) = unat w"
    using assms by (simp add: unsigned_take_bit_eq take_bit_nat_eq_self)
  then show ?thesis by (simp only: word_unat_eq_iff)
qed

lemma xor_cancel_right: "(a :: 'a::len word) XOR c = b XOR c \<longleftrightarrow> a = b"
proof
  assume "a XOR c = b XOR c"
  then have "(a XOR c) XOR c = (b XOR c) XOR c" by simp
  then show "a = b" by (simp add: xor.assoc)
qed simp

lemma xor_cancel_left: "(c :: 'a::len word) XOR a = c XOR b \<longleftrightarrow> a = b"
  using xor_cancel_right [of a c b] by (simp add: xor.commute)

lemma or_disjoint_nat:
  fixes a b :: nat
  assumes "b < 2 ^ n"
  shows "push_bit n a OR b = a * 2 ^ n + b"
proof -
  have "push_bit n a AND b = 0"
  proof (rule bit_eqI)
    fix k
    show "bit (push_bit n a AND b) k = bit 0 k"
    proof (cases "k < n")
      case True
      then show ?thesis by (simp add: bit_simps)
    next
      case False
      with assms have "b < 2 ^ k"
        by (meson less_le_trans linorder_not_less one_le_numeral power_increasing)
      then have "\<not> bit b k" by (simp add: bit_iff_odd)
      then show ?thesis by (simp add: bit_simps)
    qed
  qed
  then show ?thesis
    by (simp add: disjunctive_add_eq_or [symmetric] push_bit_eq_mult)
qed

lemma len12_eq: "len12 hi lo = unat (hi AND 0x0F) * 256 + unat lo"
  using or_disjoint_nat [of "unat lo" 8 "unat (hi AND 0x0F)"] unat_byte_less [of lo]
  by (simp add: len12_def)

lemma len12_bound: "len12 hi lo < 4096"
proof -
  have "unat (hi AND 0x0F) \<le> 15" using and_low_le [of hi "0x0F"] by simp
  with unat_byte_less [of lo] show ?thesis unfolding len12_eq by linarith
qed

text \<open>A product of two \<^verbatim>\<open>int64\<close> values, as a signed number of 64 bits.\<close>

definition mul64 :: "int \<Rightarrow> int \<Rightarrow> int" where
  "mul64 x y = (x * y + 2 ^ 63) mod 2 ^ 64 - 2 ^ 63"

lemma mul64_small: "0 \<le> x * y \<Longrightarrow> x * y < 2 ^ 63 \<Longrightarrow> mul64 x y = x * y"
  by (simp add: mul64_def)

end
