(* ===== verification/Scte35_Crc.thy ===== *)
theory Scte35_Crc
  imports Prelude
begin

text \<open>
  CRC-32/MPEG-2, \<^verbatim>\<open>streamhub-encoder/internal/scte35/crc.go\<close>: the lookup table, the
  byte-wise checksum and \<^verbatim>\<open>appendCRC\<close>. The lemmas give the residue property every PSI
  parser of the encoder relies on, the agreement of the table-driven loop with bit-serial
  polynomial division, and the detection of errors confined to one byte.
\<close>

section \<open>The code\<close>

text \<open>One round of the inner loop of \<^verbatim>\<open>crcTable\<close>.\<close>

definition crc_bit :: "u32 \<Rightarrow> u32" where
  "crc_bit c = (if c AND 0x80000000 \<noteq> 0 then push_bit 1 c XOR 0x04C11DB7 else push_bit 1 c)"

definition crc_entry :: "nat \<Rightarrow> u32" where
  "crc_entry i = (crc_bit ^^ 8) (push_bit 24 (of_nat i))"

definition crcTable :: "u32 list" where
  "crcTable = map crc_entry [0..<256]"

definition crc_step :: "u32 \<Rightarrow> byte \<Rightarrow> u32" where
  "crc_step c x = push_bit 8 c XOR crcTable ! unat (byte_of (drop_bit 24 c) XOR x)"

definition CRC32 :: "bytes \<Rightarrow> u32" where
  "CRC32 b = foldl crc_step 0xFFFFFFFF b"

definition be32 :: "u32 \<Rightarrow> bytes" where
  "be32 c = [byte_of (drop_bit 24 c), byte_of (drop_bit 16 c), byte_of (drop_bit 8 c), byte_of c]"

definition appendCRC :: "bytes \<Rightarrow> bytes" where
  "appendCRC b = b @ be32 (CRC32 b)"

section \<open>Properties\<close>

lemma crcTable_nth: "crcTable ! unat (x :: byte) = crc_entry (unat x)"
  by (simp add: crcTable_def)

lemma crc_bit_0: "crc_bit 0 = 0"
  by (simp add: crc_bit_def)

lemma crc_step_eq: "crc_step c x = push_bit 8 c XOR crc_entry (unat (byte_of (drop_bit 24 c) XOR x))"
  by (simp add: crc_step_def crcTable_nth)

lemma funpow_crc_bit_0: "(crc_bit ^^ n) 0 = 0"
  by (induction n) (simp_all add: crc_bit_0)

lemma crc_entry_0: "crc_entry 0 = 0"
  by (simp add: crc_entry_def funpow_crc_bit_0)

lemma msb_test: "(c :: u32) AND 0x80000000 \<noteq> 0 \<longleftrightarrow> bit c 31"
  using and_exp_eq_0_iff_not_bit [of c 31] by simp

text \<open>The shift register is linear, and one round is injective: the generator is odd, so the
  bit shifted out can be read off the result.\<close>

lemma crc_bit_bit:
  "bit (crc_bit c) n \<longleftrightarrow> n < 32 \<and> ((0 < n \<and> bit c (n - 1)) \<noteq> (bit c 31 \<and> bit (0x04C11DB7 :: u32) n))"
proof -
  have "bit (push_bit 1 c) n \<longleftrightarrow> n < 32 \<and> 0 < n \<and> bit c (n - 1)"
    unfolding bit_push_bit_iff by auto
  moreover have "bit (0x04C11DB7 :: u32) n \<Longrightarrow> n < 32"
    by (auto dest: bit_imp_le_length)
  ultimately show ?thesis
    by (auto simp only: crc_bit_def msb_test bit_xor_iff split: if_splits)
qed

lemma crc_bit_xor: "crc_bit (a XOR b) = crc_bit a XOR crc_bit b"
  by (rule bit_word_eqI) (auto simp: crc_bit_bit bit_xor_iff)

lemma crc_bit_inj: "crc_bit a = crc_bit b \<Longrightarrow> a = b"
proof -
  assume eq: "crc_bit a = crc_bit b"
  have b0: "bit (0x04C11DB7 :: u32) 0" by simp
  have msb: "bit a 31 = bit b 31"
    using arg_cong [OF eq, of "\<lambda>w. bit w 0"] b0 by (simp add: crc_bit_bit)
  show "a = b"
  proof (rule bit_word_eqI)
    fix n assume "n < LENGTH(32)"
    show "bit a n = bit b n"
    proof (cases "n = 31")
      case True
      with msb show ?thesis by simp
    next
      case False
      with \<open>n < LENGTH(32)\<close> have "Suc n < 32" by simp
      with msb arg_cong [OF eq, of "\<lambda>w. bit w (Suc n)"] show ?thesis
        by (auto simp: crc_bit_bit)
    qed
  qed
qed

lemma crc_bits_xor: "(crc_bit ^^ n) (a XOR b) = (crc_bit ^^ n) a XOR (crc_bit ^^ n) b"
  by (induction n) (simp_all add: crc_bit_xor)

lemma crc_bits_inj: "(crc_bit ^^ n) a = (crc_bit ^^ n) b \<Longrightarrow> a = b"
  by (induction n) (auto dest: crc_bit_inj)


text \<open>While the register's top bits are clear, rounds only shift.\<close>

lemma crc_bits_shift:
  "(\<And>k. 32 - n \<le> k \<Longrightarrow> \<not> bit c k) \<Longrightarrow> n \<le> 32 \<Longrightarrow> (crc_bit ^^ n) c = push_bit n c"
proof (induction n)
  case 0
  then show ?case by simp
next
  case (Suc n)
  have "(crc_bit ^^ n) c = push_bit n c"
    using Suc.prems by (intro Suc.IH) (auto simp: Suc_diff_le)
  moreover have "\<not> bit (push_bit n c) 31"
    using Suc.prems(1) [of "31 - n"] Suc.prems(2) unfolding bit_push_bit_iff by auto
  ultimately have "(crc_bit ^^ Suc n) c = push_bit 1 (push_bit n c)"
    by (simp only: funpow.simps comp_apply crc_bit_def msb_test if_False)
  then show ?case by (simp only: push_bit_push_bit) simp
qed

lemma crc_step_shift_register:
  "crc_step c x = (crc_bit ^^ 8) (c XOR push_bit 24 (ucast x))"
proof -
  let ?top = "push_bit 24 (ucast (byte_of (drop_bit 24 c) XOR x)) :: u32"
  have split: "c XOR push_bit 24 (ucast x) = ?top XOR take_bit 24 c"
    by (rule bit_word_eqI) (auto simp: bit_simps)
  have low: "(crc_bit ^^ 8) (take_bit 24 c) = push_bit 8 (take_bit 24 c)"
    by (rule crc_bits_shift) (auto simp: bit_simps)
  have "push_bit 8 (take_bit 24 c) = push_bit 8 c"
    by (rule bit_word_eqI) (auto simp: bit_simps)
  then show ?thesis
    by (simp add: crc_step_eq crc_entry_def split crc_bits_xor low xor.commute)
qed

subsection \<open>Residue\<close>

lemma crc_step_own_top: "crc_step c (byte_of (drop_bit 24 c)) = push_bit 8 c"
  by (simp add: crc_step_eq crc_entry_0)

lemma byte_of_shifted:
  "k \<le> 24 \<Longrightarrow> byte_of (drop_bit 24 (push_bit k (c :: u32))) = byte_of (drop_bit (24 - k) c)"
  by (rule bit_word_eqI) (auto simp: bit_simps)

lemma crc_feed_own: "foldl crc_step c (be32 c) = 0"
proof -
  have step: "crc_step (push_bit k c) (byte_of (drop_bit (24 - k) c)) = push_bit (8 + k) c" if "k \<le> 24" for k
    using crc_step_own_top [of "push_bit k c"] that by (simp add: byte_of_shifted)
  have "foldl crc_step c (be32 c) = push_bit 32 c"
    using step [of 0] step [of 8] step [of 16] step [of 24] by (simp add: be32_def)
  also have "\<dots> = 0" by (rule bit_word_eqI) (simp add: bit_simps)
  finally show ?thesis .
qed

lemma CRC32_append: "CRC32 (a @ b) = foldl crc_step (CRC32 a) b"
  by (simp add: CRC32_def)

lemma CRC32_appendCRC [simp]: "CRC32 (appendCRC b) = 0"
  by (simp add: appendCRC_def CRC32_append crc_feed_own)

lemma length_appendCRC [simp]: "length (appendCRC b) = length b + 4"
  by (simp add: appendCRC_def be32_def)

subsection \<open>Bit-serial reference\<close>

text \<open>The generator's shift register fed one message bit at a time, most significant bit of each
  byte first.\<close>

definition serial_step :: "u32 \<Rightarrow> bool \<Rightarrow> u32" where
  "serial_step c b = (if bit c 31 \<noteq> b then push_bit 1 c XOR 0x04C11DB7 else push_bit 1 c)"

definition byte_bits :: "byte \<Rightarrow> bool list" where
  "byte_bits x = map (bit x) [7, 6, 5, 4, 3, 2, 1, 0]"

definition crc_serial :: "bool list \<Rightarrow> u32" where
  "crc_serial bs = foldl serial_step 0xFFFFFFFF bs"

lemma serial_step_eq: "serial_step c b = crc_bit (c XOR (if b then 0x80000000 else 0))"
proof -
  have "push_bit 1 (c XOR 0x80000000) = push_bit 1 c"
  proof -
    have "push_bit 1 (0x80000000 :: u32) = 0" by code_simp
    then show ?thesis by (simp only: push_bit_xor) simp
  qed
  moreover have "bit (c XOR 0x80000000) 31 = (\<not> bit c 31)"
    by (simp add: bit_xor_iff)
  ultimately show ?thesis
    by (simp only: serial_step_def crc_bit_def msb_test split: if_split) simp
qed

text \<open>The bits still to be fed, packed below the register's top bit.\<close>

fun pack_bits :: "bool list \<Rightarrow> u32" where
  "pack_bits [] = 0"
| "pack_bits (b # bs) = (if b then 0x80000000 else 0) XOR drop_bit 1 (pack_bits bs)"

lemma bit_msb_mask: "bit (0x80000000 :: u32) n \<longleftrightarrow> n = 31"
  using bit_exp_iff [of 31 n, where ?'a = u32] by auto

lemma bit_pack_bits:
  "length bs \<le> 32 \<Longrightarrow> bit (pack_bits bs) n \<longleftrightarrow> n < 32 \<and> 31 - n < length bs \<and> bs ! (31 - n)"
proof (induction bs arbitrary: n)
  case Nil
  then show ?case by simp
next
  case (Cons b bs)
  consider "n = 31" | "n < 31" | "31 < n" by linarith
  then show ?case
  proof cases
    case 1
    have "\<not> bit (pack_bits bs) 32"
      using bit_imp_le_length [of "pack_bits bs" 32] by auto
    with 1 show ?thesis by (simp add: bit_xor_iff bit_msb_mask bit_drop_bit_eq)
  next
    case 2
    then have "31 - n < length (b # bs) \<longleftrightarrow> 31 - Suc n < length bs"
      and "(b # bs) ! (31 - n) = bs ! (31 - Suc n)"
      by (auto simp: nth_Cons')
    moreover have "bit (pack_bits (b # bs)) n = bit (pack_bits bs) (Suc n)"
      using 2 bit_msb_mask [of n] by (simp add: bit_xor_iff bit_drop_bit_eq)
    ultimately show ?thesis
      using Cons.IH [of "Suc n"] Cons.prems 2 by (simp del: pack_bits.simps)
  next
    case 3
    then have "\<not> bit (pack_bits (b # bs)) n"
      using bit_imp_le_length [of "pack_bits (b # bs)" n] by (auto simp del: pack_bits.simps)
    with 3 show ?thesis by (simp del: pack_bits.simps)
  qed
qed

lemma crc_bit_drop: "\<not> bit w 0 \<Longrightarrow> crc_bit (drop_bit 1 w) = w"
proof (rule bit_word_eqI)
  fix n assume "\<not> bit w 0" and "n < LENGTH(32)"
  then show "bit (crc_bit (drop_bit 1 w)) n = bit w n"
    by (cases n) (auto simp: crc_bit_bit bit_drop_bit_eq dest: bit_imp_le_length)
qed

lemma serial_feed:
  "length bs < 32 \<Longrightarrow> foldl serial_step c bs = (crc_bit ^^ length bs) (c XOR pack_bits bs)"
proof (induction bs arbitrary: c)
  case Nil
  then show ?case by simp
next
  case (Cons b bs)
  let ?m = "if b then 0x80000000 else 0 :: u32"
  have "crc_bit (drop_bit 1 (pack_bits bs)) = pack_bits bs"
    using Cons.prems by (intro crc_bit_drop) (simp add: bit_pack_bits)
  then have "crc_bit (c XOR pack_bits (b # bs)) = serial_step c b XOR pack_bits bs"
    by (simp only: pack_bits.simps serial_step_eq crc_bit_xor) (simp add: xor.assoc)
  with Cons show ?case by (simp add: funpow_swap1)
qed

lemma pack_byte_bits: "pack_bits (byte_bits x) = push_bit 24 (ucast x)"
proof (rule bit_word_eqI)
  fix n assume n: "n < LENGTH(32)"
  have nth: "byte_bits x ! i = bit x (7 - i)" if "i < 8" for i
  proof -
    from that have "i \<in> {0, 1, 2, 3, 4, 5, 6, 7}" by auto
    then show ?thesis by (auto simp: byte_bits_def)
  qed
  have len: "length (byte_bits x) = 8" by (simp add: byte_bits_def)
  show "bit (pack_bits (byte_bits x)) n = bit (push_bit 24 (ucast x) :: u32) n"
  proof (cases "24 \<le> n")
    case True
    with n have "31 - n < 8" and "7 - (31 - n) = n - 24" by simp_all
    moreover from True n have "n - 24 < 32" by simp
    ultimately show ?thesis
      using True n by (simp add: bit_pack_bits len nth bit_push_bit_iff bit_ucast_iff)
  next
    case False
    then have "\<not> 31 - n < 8" by simp
    with False show ?thesis by (simp add: bit_pack_bits len bit_push_bit_iff)
  qed
qed

lemma crc_step_serial: "crc_step c x = foldl serial_step c (byte_bits x)"
proof -
  have len: "length (byte_bits x) = 8" by (simp add: byte_bits_def)
  show ?thesis
    using serial_feed [of "byte_bits x" c] unfolding len pack_byte_bits crc_step_shift_register by simp
qed

lemma CRC32_serial: "CRC32 b = crc_serial (concat (map byte_bits b))"
proof -
  have "foldl crc_step c b = foldl serial_step c (concat (map byte_bits b))" for c
    by (induction b arbitrary: c) (simp_all add: crc_step_serial)
  then show ?thesis by (simp add: CRC32_def crc_serial_def)
qed

subsection \<open>Burst errors\<close>

text \<open>A run of bytes packed at the top of the register.\<close>

fun pack_bytes :: "bytes \<Rightarrow> u32" where
  "pack_bytes [] = 0"
| "pack_bytes (x # xs) = push_bit 24 (ucast x) XOR drop_bit 8 (pack_bytes xs)"

lemma pack_bytes_low: "8 * length xs + k < 32 \<Longrightarrow> \<not> bit (pack_bytes xs) k"
proof (induction xs arbitrary: k)
  case Nil
  then show ?case by simp
next
  case (Cons x xs)
  then have "k < 24" and "\<not> bit (pack_bytes xs) (8 + k)" by simp_all
  then show ?case by (simp add: bit_xor_iff bit_drop_bit_eq bit_push_bit_iff)
qed

lemma crc_bits_drop:
  assumes "\<And>k. k < 8 \<Longrightarrow> \<not> bit w k"
  shows "(crc_bit ^^ 8) (drop_bit 8 w) = w"
proof -
  have "(crc_bit ^^ 8) (drop_bit 8 w) = push_bit 8 (drop_bit 8 w)"
    by (rule crc_bits_shift) (auto simp: bit_drop_bit_eq dest: bit_imp_le_length)
  also have "\<dots> = w"
  proof (rule bit_word_eqI)
    fix n assume "n < LENGTH(32)"
    with assms [of n] show "bit (push_bit 8 (drop_bit 8 w)) n = bit w n"
      by (cases "n < 8") (simp_all add: bit_push_bit_iff bit_drop_bit_eq)
  qed
  finally show ?thesis .
qed

lemma crc_feed_bytes:
  "length xs \<le> 4 \<Longrightarrow> foldl crc_step c xs = (crc_bit ^^ (8 * length xs)) (c XOR pack_bytes xs)"
proof (induction xs arbitrary: c)
  case Nil
  then show ?case by simp
next
  case (Cons x xs)
  have "(crc_bit ^^ 8) (drop_bit 8 (pack_bytes xs)) = pack_bytes xs"
    using Cons.prems by (intro crc_bits_drop pack_bytes_low) simp
  then have "(crc_bit ^^ 8) (c XOR pack_bytes (x # xs)) = crc_step c x XOR pack_bytes xs"
    by (simp only: pack_bytes.simps crc_step_shift_register crc_bits_xor) (simp add: xor.assoc)
  moreover have "foldl crc_step c (x # xs) = (crc_bit ^^ (8 * length xs)) (crc_step c x XOR pack_bytes xs)"
    using Cons by simp
  moreover have "(crc_bit ^^ (8 * length (x # xs))) w = (crc_bit ^^ (8 * length xs)) ((crc_bit ^^ 8) w)" for w
    using funpow_add [of "8 * length xs" 8 crc_bit] by (simp add: add.commute)
  ultimately show ?case by simp
qed

lemma pack_bytes_inj:
  "length xs = length ys \<Longrightarrow> length xs \<le> 4 \<Longrightarrow> pack_bytes xs = pack_bytes ys \<Longrightarrow> xs = ys"
proof (induction xs ys rule: list_induct2)
  case Nil
  then show ?case by simp
next
  case (Cons x xs y ys)
  have hd: "x = y"
  proof (rule bit_word_eqI)
    fix n assume n: "n < LENGTH(8)"
    have top: "bit (pack_bytes (z # zs)) (24 + n) = bit z n" for z zs
    proof -
      have "\<not> bit (pack_bytes zs) (8 + (24 + n))"
        using bit_imp_le_length [of "pack_bytes zs" "8 + (24 + n)"] by auto
      with n show ?thesis
        by (simp add: bit_xor_iff bit_push_bit_iff bit_ucast_iff bit_drop_bit_eq)
    qed
    show "bit x n = bit y n"
      using arg_cong [OF Cons.prems(2), of "\<lambda>w. bit w (24 + n)"] unfolding top .
  qed
  have "pack_bytes xs = pack_bytes ys"
  proof (rule bit_word_eqI)
    fix n assume n: "n < LENGTH(32)"
    show "bit (pack_bytes xs) n = bit (pack_bytes ys) n"
    proof (cases "n < 8")
      case True
      with Cons show ?thesis by (simp add: pack_bytes_low)
    next
      case False
      then have up: "bit (pack_bytes (z # zs)) (n - 8) = (bit (push_bit 24 (ucast z) :: u32) (n - 8) \<noteq> bit (pack_bytes zs) n)" for z zs
        by (simp add: bit_xor_iff bit_drop_bit_eq)
      show ?thesis
        using arg_cong [OF Cons.prems(2), of "\<lambda>w. bit w (n - 8)"] unfolding up hd by blast
    qed
  qed
  with Cons.IH Cons.prems(1) hd show ?case by simp
qed

lemma crc_feed_inj: "foldl crc_step a xs = foldl crc_step b xs \<Longrightarrow> a = b"
proof (induction xs arbitrary: a b)
  case Nil
  then show ?case by simp
next
  case (Cons x xs)
  then have "crc_step a x = crc_step b x" by simp
  then have "a XOR push_bit 24 (ucast x) = b XOR push_bit 24 (ucast x)"
    unfolding crc_step_shift_register by (rule crc_bits_inj)
  then show ?case by (simp add: xor_cancel_right)
qed

lemma CRC32_burst:
  assumes "length u = length v" and "length u \<le> 4" and "u \<noteq> v"
  shows "CRC32 (p @ u @ s) \<noteq> CRC32 (p @ v @ s)"
proof
  assume "CRC32 (p @ u @ s) = CRC32 (p @ v @ s)"
  then have "foldl crc_step (CRC32 p) u = foldl crc_step (CRC32 p) v"
    by (auto simp: CRC32_append dest: crc_feed_inj)
  with assms have "(crc_bit ^^ (8 * length v)) (CRC32 p XOR pack_bytes u) =
      (crc_bit ^^ (8 * length v)) (CRC32 p XOR pack_bytes v)"
    by (simp add: crc_feed_bytes)
  then have "CRC32 p XOR pack_bytes u = CRC32 p XOR pack_bytes v" by (rule crc_bits_inj)
  then have "pack_bytes u = pack_bytes v" by (simp add: xor_cancel_left)
  with assms pack_bytes_inj show False by blast
qed

section \<open>Correctness of the checksum\<close>

text \<open>
  C22. The table-driven \<^verbatim>\<open>CRC32\<close> equals the bit-serial definition of CRC-32/MPEG-2: shifting
  the bits of the message, most significant first, through the register with polynomial 04C11DB7
  from the initial value FFFFFFFF.
\<close>

theorem CRC32_is_bit_serial: "CRC32 b = crc_serial (concat (map byte_bits b))"
  by (rule CRC32_serial)

text \<open>
  A message followed by its own checksum has checksum 0, which is what the decoders test.
\<close>

theorem appendCRC_residue: "CRC32 (appendCRC b) = 0 \<and> length (appendCRC b) = length b + 4 \<and> take (length b) (appendCRC b) = b"
  by simp (simp add: appendCRC_def)

end
