(* ===== verification/Scte35_Section.thy ===== *)
theory Scte35_Section
  imports Scte35_Crc
begin

text \<open>
  \<^verbatim>\<open>streamhub-encoder/internal/scte35/section.go\<close>: building a splice_info_section from a
  cue (\<^verbatim>\<open>Encode\<close>) and decoding one (\<^verbatim>\<open>Parse\<close>), with the bounds-checked reader the
  decoder runs on. The lemmas show that decoding an encoded cue gives back the cue's fields,
  that the decoder never panics on any byte string, and that it refuses a section damaged by a
  burst of up to 32 bits.
\<close>

section \<open>Data\<close>

datatype place = SpliceCommand | DescriptorLoop | DescriptorTag byte | SegmentationDescriptor

text \<open>The sentinel errors, and the wrapped \<^verbatim>\<open>ErrShort\<close> with the place it happened.\<close>

datatype scte_error = ErrShort | ErrTableID | ErrCRC | ErrEncrypted | ErrShortIn place
  | ErrUnknownKind string

definition CmdSpliceNull :: byte where "CmdSpliceNull = 0x00"
definition CmdSpliceSchedule :: byte where "CmdSpliceSchedule = 0x04"
definition CmdSpliceInsert :: byte where "CmdSpliceInsert = 0x05"
definition CmdTimeSignal :: byte where "CmdTimeSignal = 0x06"
definition CmdBandwidthReservation :: byte where "CmdBandwidthReservation = 0x07"
definition CmdPrivate :: byte where "CmdPrivate = 0xFF"

definition KindSpliceInsert :: string where "KindSpliceInsert = ''splice_insert''"
definition KindTimeSignal :: string where "KindTimeSignal = ''time_signal''"
definition KindSpliceNull :: string where "KindSpliceNull = ''splice_null''"

definition tableID :: byte where "tableID = 0xFC"
definition mask33 :: u64 where "mask33 = push_bit 33 1 - 1"
definition cueiID :: u32 where "cueiID = 0x43554549"
definition DefaultPreRollMs :: int where "DefaultPreRollMs = 4000"

record cue =
  Kind :: string
  EventID :: u32
  OutOfNetwork :: bool
  Immediate :: bool
  PreRollMs :: int
  DurationMs :: int
  UniqueProgramID :: u16
  AvailNum :: byte
  AvailsExpected :: byte
  SegmentationTypeID :: byte

record segmentation =
  sg_EventID :: u32
  sg_Cancel :: bool
  sg_TypeID :: byte
  sg_HasDuration :: bool
  sg_Duration :: u64
  sg_UPIDType :: byte
  sg_UPID :: bytes
  sg_SegmentNum :: byte
  sg_SegmentsExpected :: byte
  sg_SubSegmentNum :: byte
  sg_SubSegmentsExpected :: byte

record descriptor =
  ds_Tag :: byte
  ds_Identifier :: u32
  ds_Length :: nat

record info =
  in_PID :: u16
  in_SAPType :: byte
  in_PTSAdjustment :: u64
  in_Tier :: u16
  in_CommandType :: byte
  in_Command :: string
  in_EventID :: u32
  in_Cancel :: bool
  in_OutOfNetwork :: bool
  in_ProgramSplice :: bool
  in_Immediate :: bool
  in_UniqueProgramID :: u16
  in_AvailNum :: byte
  in_AvailsExpected :: byte
  in_TimeSpecified :: bool
  in_PTS :: u64
  in_HasDuration :: bool
  in_Duration :: u64
  in_AutoReturn :: bool
  in_Descriptors :: "descriptor list"
  in_Segmentations :: "segmentation list"

text \<open>The zero values \<^verbatim>\<open>var s Segmentation\<close> and \<^verbatim>\<open>var in Info\<close>.\<close>

definition segmentation0 :: segmentation where
  "segmentation0 = \<lparr>sg_EventID = 0, sg_Cancel = False, sg_TypeID = 0, sg_HasDuration = False,
     sg_Duration = 0, sg_UPIDType = 0, sg_UPID = [], sg_SegmentNum = 0, sg_SegmentsExpected = 0,
     sg_SubSegmentNum = 0, sg_SubSegmentsExpected = 0\<rparr>"

definition info0 :: info where
  "info0 = \<lparr>in_PID = 0, in_SAPType = 0, in_PTSAdjustment = 0, in_Tier = 0, in_CommandType = 0,
     in_Command = '''', in_EventID = 0, in_Cancel = False, in_OutOfNetwork = False,
     in_ProgramSplice = False, in_Immediate = False, in_UniqueProgramID = 0, in_AvailNum = 0,
     in_AvailsExpected = 0, in_TimeSpecified = False, in_PTS = 0, in_HasDuration = False,
     in_Duration = 0, in_AutoReturn = False, in_Descriptors = [], in_Segmentations = []\<rparr>"

definition hex_digit :: "byte \<Rightarrow> char" where
  "hex_digit d = ''0123456789abcdef'' ! unat (d AND 0x0F)"

definition CommandName :: "byte \<Rightarrow> string" where
  "CommandName t =
     (if t = CmdSpliceNull then ''splice_null''
      else if t = CmdSpliceSchedule then ''splice_schedule''
      else if t = CmdSpliceInsert then ''splice_insert''
      else if t = CmdTimeSignal then ''time_signal''
      else if t = CmdBandwidthReservation then ''bandwidth_reservation''
      else if t = CmdPrivate then ''private_command''
      else ''reserved_0x'' @ [hex_digit (drop_bit 4 t), hex_digit t])"

section \<open>Encoding\<close>

definition msToTicks :: "int \<Rightarrow> u64" where
  "msToTicks ms = word_of_int ms * 90"

text \<open>\<^verbatim>\<open>append(b, ...)\<close>: the append functions return the extended slice.\<close>

definition appendSpliceTime :: "bytes \<Rightarrow> bool \<Rightarrow> u64 \<Rightarrow> bytes" where
  "appendSpliceTime b specified pts =
     (if \<not> specified then b @ [0x7F]
      else let pts = pts AND mask33 in
        b @ [0xFE OR byte_of (drop_bit 32 pts), byte_of (drop_bit 24 pts), byte_of (drop_bit 16 pts),
             byte_of (drop_bit 8 pts), byte_of pts])"

definition appendBreakDuration :: "bytes \<Rightarrow> bool \<Rightarrow> u64 \<Rightarrow> bytes" where
  "appendBreakDuration b autoReturn d =
     (let d = d AND mask33;
          first = 0x7E OR byte_of (drop_bit 32 d);
          first = (if autoReturn then first OR 0x80 else first)
      in b @ [first, byte_of (drop_bit 24 d), byte_of (drop_bit 16 d), byte_of (drop_bit 8 d), byte_of d])"

definition hasSubSegments :: "byte \<Rightarrow> bool" where
  "hasSubSegments t \<longleftrightarrow> t \<in> {0x30, 0x32, 0x34, 0x36, 0x38, 0x3A, 0x44, 0x46}"

definition appendSegmentationDescriptor :: "bytes \<Rightarrow> u32 \<Rightarrow> byte \<Rightarrow> u64 \<Rightarrow> bool \<Rightarrow> bytes" where
  "appendSegmentationDescriptor b eventID typeID dur hasDur =
     (let body = [0x43, 0x55, 0x45, 0x49,
            byte_of (drop_bit 24 eventID), byte_of (drop_bit 16 eventID), byte_of (drop_bit 8 eventID), byte_of eventID,
            0x7F];
          flags = 0xBF;
          flags = (if hasDur then flags OR 0x40 else flags);
          body = body @ [flags];
          d = dur AND (push_bit 40 1 - 1);
          body = (if hasDur then body @ [byte_of (drop_bit 32 d), byte_of (drop_bit 24 d),
                    byte_of (drop_bit 16 d), byte_of (drop_bit 8 d), byte_of d] else body);
          body = body @ [0x00, 0x00];
          body = body @ [typeID, 0, 0];
          body = (if hasSubSegments typeID then body @ [0, 0] else body)
      in (b @ [0x02, of_nat (length body)]) @ body)"

definition buildSection :: "byte \<Rightarrow> bytes \<Rightarrow> bytes \<Rightarrow> bytes" where
  "buildSection cmdType cmd desc =
     (let secLen = 11 + length cmd + 2 + length desc + 4;
          s = [tableID,
               0x30 OR (of_nat (drop_bit 8 secLen) AND 0x0F),
               of_nat secLen,
               0x00,
               0x00, 0x00, 0x00, 0x00, 0x00,
               0x00];
          cl = length cmd;
          s = s @ [0xFF, 0xF0 OR (of_nat (drop_bit 8 cl) AND 0x0F), of_nat cl, cmdType];
          s = s @ cmd;
          s = s @ [of_nat (drop_bit 8 (length desc)), of_nat (length desc)];
          s = s @ desc
      in appendCRC s)"

definition spliceInsertCmd :: "cue \<Rightarrow> u64 \<Rightarrow> bytes" where
  "spliceInsertCmd c pts =
     (let e = EventID c;
          cmd = [byte_of (drop_bit 24 e), byte_of (drop_bit 16 e), byte_of (drop_bit 8 e), byte_of e, 0x7F];
          f = 0x4F;
          f = (if OutOfNetwork c then f OR 0x80 else f);
          f = (if DurationMs c > 0 then f OR 0x20 else f);
          f = (if Immediate c then f OR 0x10 else f);
          cmd = cmd @ [f];
          cmd = (if \<not> Immediate c then appendSpliceTime cmd True pts else cmd);
          cmd = (if DurationMs c > 0 then appendBreakDuration cmd True (msToTicks (DurationMs c)) else cmd)
      in cmd @ [byte_of (drop_bit 8 (UniqueProgramID c)), byte_of (UniqueProgramID c), AvailNum c, AvailsExpected c])"

definition Encode :: "cue \<Rightarrow> u64 \<Rightarrow> scte_error + bytes" where
  "Encode c pts =
     (if Kind c = KindSpliceNull then Inr (buildSection CmdSpliceNull [] [])
      else if Kind c = KindSpliceInsert then Inr (buildSection CmdSpliceInsert (spliceInsertCmd c pts) [])
      else if Kind c = KindTimeSignal then
        (let cmd = appendSpliceTime [] (\<not> Immediate c) pts;
             desc = (if SegmentationTypeID c \<noteq> 0
                     then appendSegmentationDescriptor [] (EventID c) (SegmentationTypeID c)
                            (msToTicks (DurationMs c)) (DurationMs c > 0)
                     else [])
         in Inr (buildSection CmdTimeSignal cmd desc))
      else Inl (ErrUnknownKind (Kind c)))"

section \<open>Decoding\<close>

record reader =
  rb :: bytes
  rpos :: nat
  rerr :: bool

text \<open>
  \<^verbatim>\<open>take\<close>: the inner \<open>None\<close> is the nil slice of a short read, which latches the error;
  the outer \<open>None\<close> is the panic of the slice expression.
\<close>

definition rtake :: "nat \<Rightarrow> reader \<Rightarrow> (bytes option \<times> reader) option" where
  "rtake n r =
     (if rerr r \<or> rpos r + n > length (rb r) then Some (None, r\<lparr>rerr := True\<rparr>)
      else do { v \<leftarrow> subslice (rb r) (rpos r) (rpos r + n);
                Some (Some v, r\<lparr>rpos := rpos r + n\<rparr>) })"

definition ru8 :: "reader \<Rightarrow> (byte \<times> reader) option" where
  "ru8 r = do { (vo, r) \<leftarrow> rtake 1 r;
       (case vo of Some v \<Rightarrow> do { x \<leftarrow> idx v 0; Some (x, r) } | None \<Rightarrow> Some (0, r)) }"

definition ru16 :: "reader \<Rightarrow> (u16 \<times> reader) option" where
  "ru16 r = do { (vo, r) \<leftarrow> rtake 2 r;
       (case vo of
          Some v \<Rightarrow> do { x0 \<leftarrow> idx v 0; x1 \<leftarrow> idx v 1; Some (push_bit 8 (ucast x0) OR ucast x1, r) }
        | None \<Rightarrow> Some (0, r)) }"

definition be_u32 :: "byte \<Rightarrow> byte \<Rightarrow> byte \<Rightarrow> byte \<Rightarrow> u32" where
  "be_u32 a b c d = push_bit 24 (ucast a) OR push_bit 16 (ucast b) OR push_bit 8 (ucast c) OR ucast d"

definition be_u40 :: "byte \<Rightarrow> byte \<Rightarrow> byte \<Rightarrow> byte \<Rightarrow> byte \<Rightarrow> u64" where
  "be_u40 a b c d e = push_bit 32 (ucast a) OR push_bit 24 (ucast b) OR push_bit 16 (ucast c)
     OR push_bit 8 (ucast d) OR ucast e"

definition ru32 :: "reader \<Rightarrow> (u32 \<times> reader) option" where
  "ru32 r = do { (vo, r) \<leftarrow> rtake 4 r;
       (case vo of
          Some v \<Rightarrow> do { x0 \<leftarrow> idx v 0; x1 \<leftarrow> idx v 1; x2 \<leftarrow> idx v 2; x3 \<leftarrow> idx v 3;
                        Some (be_u32 x0 x1 x2 x3, r) }
        | None \<Rightarrow> Some (0, r)) }"

definition ru33 :: "reader \<Rightarrow> ((byte \<times> u64) \<times> reader) option" where
  "ru33 r = do { (vo, r) \<leftarrow> rtake 5 r;
       (case vo of
          None \<Rightarrow> Some ((0, 0), r)
        | Some v \<Rightarrow> do { x0 \<leftarrow> idx v 0; x1 \<leftarrow> idx v 1; x2 \<leftarrow> idx v 2; x3 \<leftarrow> idx v 3; x4 \<leftarrow> idx v 4;
                        Some ((x0, be_u40 (x0 AND 1) x1 x2 x3 x4), r) }) }"

definition rspliceTime :: "reader \<Rightarrow> ((bool \<times> u64) \<times> reader) option" where
  "rspliceTime r =
     (if rerr r \<or> rpos r \<ge> length (rb r) then Some ((False, 0), r\<lparr>rerr := True\<rparr>)
      else do { x \<leftarrow> idx (rb r) (rpos r);
                if x AND 0x80 = 0 then Some ((False, 0), r\<lparr>rpos := rpos r + 1\<rparr>)
                else do { ((_, pts), r) \<leftarrow> ru33 r; Some ((True, pts), r) } })"

text \<open>The component loop of a splice_insert that is not a program splice.\<close>

fun skip_components :: "nat \<Rightarrow> bool \<Rightarrow> reader \<Rightarrow> reader option" where
  "skip_components 0 imm r = Some r"
| "skip_components (Suc n) imm r =
     do { (_, r) \<leftarrow> ru8 r;
          r \<leftarrow> (if \<not> imm then do { (_, r) \<leftarrow> rspliceTime r; Some r } else Some r);
          skip_components n imm r }"

definition parseSegmentation :: "bytes \<Rightarrow> (segmentation \<times> scte_error option) option" where
  "parseSegmentation b =
     do { let r = \<lparr>rb = b, rpos = 0, rerr = False\<rparr>;
          let s = segmentation0;
          (ev, r) \<leftarrow> ru32 r; let s = s\<lparr>sg_EventID := ev\<rparr>;
          (x, r) \<leftarrow> ru8 r; let s = s\<lparr>sg_Cancel := (x AND 0x80 \<noteq> 0)\<rparr>;
          (s, r) \<leftarrow>
            (if \<not> sg_Cancel s then do {
               (f, r) \<leftarrow> ru8 r;
               let program = (f AND 0x80 \<noteq> 0);
               let s = s\<lparr>sg_HasDuration := (f AND 0x40 \<noteq> 0)\<rparr>;
               r \<leftarrow> (if \<not> program then do { (n, r) \<leftarrow> ru8 r; (_, r) \<leftarrow> rtake (6 * unat n) r; Some r }
                     else Some r);
               (s, r) \<leftarrow>
                 (if sg_HasDuration s then do {
                    (vo, r) \<leftarrow> rtake 5 r;
                    (case vo of
                       Some v \<Rightarrow> do { x0 \<leftarrow> idx v 0; x1 \<leftarrow> idx v 1; x2 \<leftarrow> idx v 2; x3 \<leftarrow> idx v 3;
                                     x4 \<leftarrow> idx v 4;
                                     Some (s\<lparr>sg_Duration := be_u40 x0 x1 x2 x3 x4\<rparr>, r) }
                     | None \<Rightarrow> Some (s, r)) }
                  else Some (s, r));
               (ut, r) \<leftarrow> ru8 r; let s = s\<lparr>sg_UPIDType := ut\<rparr>;
               (ul, r) \<leftarrow> ru8 r; (upid, r) \<leftarrow> rtake (unat ul) r;
               let s = (case upid of Some u \<Rightarrow> if length u > 0 then s\<lparr>sg_UPID := u\<rparr> else s | None \<Rightarrow> s);
               (ty, r) \<leftarrow> ru8 r; let s = s\<lparr>sg_TypeID := ty\<rparr>;
               (sn, r) \<leftarrow> ru8 r; let s = s\<lparr>sg_SegmentNum := sn\<rparr>;
               (se, r) \<leftarrow> ru8 r; let s = s\<lparr>sg_SegmentsExpected := se\<rparr>;
               if \<not> rerr r \<and> hasSubSegments (sg_TypeID s) \<and> length b - rpos r \<ge> 2 then do {
                 (ss, r) \<leftarrow> ru8 r; let s = s\<lparr>sg_SubSegmentNum := ss\<rparr>;
                 (sx, r) \<leftarrow> ru8 r; let s = s\<lparr>sg_SubSegmentsExpected := sx\<rparr>;
                 Some (s, r) }
               else Some (s, r) }
             else Some (s, r));
          Some (if rerr r then (s, Some (ErrShortIn SegmentationDescriptor)) else (s, None)) }"

text \<open>The descriptor loop of \<^verbatim>\<open>Parse\<close>.\<close>

function parse_descriptors :: "bytes \<Rightarrow> info \<Rightarrow> (info \<times> scte_error option) option" where
  "parse_descriptors loop inn =
     (if length loop \<ge> 2 then
        do { tag \<leftarrow> idx loop 0; lb \<leftarrow> idx loop 1; let l = unat lb;
             if 2 + l > length loop then Some (inn, Some (ErrShortIn (DescriptorTag tag)))
             else do {
               body \<leftarrow> subslice loop 2 (2 + l);
               rest \<leftarrow> slice_from loop (2 + l);
               ident \<leftarrow>
                 (if l \<ge> 4 then do { b0 \<leftarrow> idx body 0; b1 \<leftarrow> idx body 1; b2 \<leftarrow> idx body 2; b3 \<leftarrow> idx body 3;
                                   Some (be_u32 b0 b1 b2 b3) }
                  else Some 0);
               let d = \<lparr>ds_Tag = tag, ds_Identifier = ident, ds_Length = l\<rparr>;
               let inn = inn\<lparr>in_Descriptors := in_Descriptors inn @ [d]\<rparr>;
               if tag = 0x02 \<and> ident = cueiID then do {
                 b4 \<leftarrow> slice_from body 4;
                 (sd, err) \<leftarrow> parseSegmentation b4;
                 (case err of
                    Some e \<Rightarrow> Some (inn, Some e)
                  | None \<Rightarrow>
                      parse_descriptors rest (inn\<lparr>in_Segmentations := in_Segmentations inn @ [sd]\<rparr>)) }
               else parse_descriptors rest inn } }
      else Some (inn, None))"
  by pat_completeness auto
termination
  by (relation "measure (length \<circ> fst)") (auto simp: slice_from_def split: if_splits)

declare parse_descriptors.simps [simp del]

definition parse_splice_insert :: "info \<Rightarrow> reader \<Rightarrow> (info \<times> reader) option" where
  "parse_splice_insert inn r =
     do { (ev, r) \<leftarrow> ru32 r; let inn = inn\<lparr>in_EventID := ev\<rparr>;
          (x, r) \<leftarrow> ru8 r; let inn = inn\<lparr>in_Cancel := (x AND 0x80 \<noteq> 0)\<rparr>;
          if in_Cancel inn then Some (inn, r)
          else do {
            (f, r) \<leftarrow> ru8 r;
            let inn = inn\<lparr>in_OutOfNetwork := (f AND 0x80 \<noteq> 0), in_ProgramSplice := (f AND 0x40 \<noteq> 0)\<rparr>;
            let durFlag = (f AND 0x20 \<noteq> 0);
            let inn = inn\<lparr>in_Immediate := (f AND 0x10 \<noteq> 0)\<rparr>;
            (inn, r) \<leftarrow>
              (if in_ProgramSplice inn \<and> \<not> in_Immediate inn
               then do { ((t, p), r) \<leftarrow> rspliceTime r; Some (inn\<lparr>in_TimeSpecified := t, in_PTS := p\<rparr>, r) }
               else Some (inn, r));
            r \<leftarrow> (if \<not> in_ProgramSplice inn
                  then do { (n, r) \<leftarrow> ru8 r; skip_components (unat n) (in_Immediate inn) r }
                  else Some r);
            (inn, r) \<leftarrow>
              (if durFlag
               then do { ((first, d), r) \<leftarrow> ru33 r;
                         Some (inn\<lparr>in_Duration := d, in_HasDuration := True,
                                   in_AutoReturn := (first AND 0x80 \<noteq> 0)\<rparr>, r) }
               else Some (inn, r));
            (up, r) \<leftarrow> ru16 r; let inn = inn\<lparr>in_UniqueProgramID := up\<rparr>;
            (an, r) \<leftarrow> ru8 r; let inn = inn\<lparr>in_AvailNum := an\<rparr>;
            (ax, r) \<leftarrow> ru8 r; let inn = inn\<lparr>in_AvailsExpected := ax\<rparr>;
            Some (inn, r) } }"

text \<open>
  The rest of \<^verbatim>\<open>Parse\<close> once the checksum is verified; \<open>b\<close> is \<open>sec[:total-4]\<close>. Indexing the
  slice of \<^verbatim>\<open>take(3)\<close> panics when that is nil.
\<close>

definition parse_body :: "bytes \<Rightarrow> (info \<times> scte_error option) option" where
  "parse_body b =
     do { x1 \<leftarrow> idx b 1;
          let inn = info0\<lparr>in_SAPType := drop_bit 4 x1 AND 0x03\<rparr>;
          let r = \<lparr>rb = b, rpos = 4, rerr = False\<rparr>;
          ((encFirst, adj), r) \<leftarrow> ru33 r;
          let inn = inn\<lparr>in_PTSAdjustment := adj\<rparr>;
          (_, r) \<leftarrow> ru8 r;
          (tco, r) \<leftarrow> rtake 3 r;
          tc \<leftarrow> tco;
          tc0 \<leftarrow> idx tc 0; tc1 \<leftarrow> idx tc 1; tc2 \<leftarrow> idx tc 2;
          let inn = inn\<lparr>in_Tier := push_bit 4 (ucast tc0) OR ucast (drop_bit 4 tc1)\<rparr>;
          let cmdLen = len12 tc1 tc2;
          (ct, r) \<leftarrow> ru8 r;
          let inn = inn\<lparr>in_CommandType := ct, in_Command := CommandName ct\<rparr>;
          if encFirst AND 0x80 \<noteq> 0 then Some (inn, Some ErrEncrypted)
          else do {
            let cmdStart = rpos r;
            (inn, r) \<leftarrow>
              (if ct = CmdSpliceInsert then parse_splice_insert inn r
               else if ct = CmdTimeSignal
                 then do { ((t, p), r) \<leftarrow> rspliceTime r; Some (inn\<lparr>in_TimeSpecified := t, in_PTS := p\<rparr>, r) }
               else Some (inn, r));
            if rerr r then Some (inn, Some (ErrShortIn SpliceCommand))
            else do {
              let inn = (if in_TimeSpecified inn
                         then inn\<lparr>in_PTS := (in_PTS inn + in_PTSAdjustment inn) AND mask33\<rparr> else inn);
              r \<leftarrow> (if cmdLen \<noteq> 0xFFF
                    then do { (_, r) \<leftarrow> rtake cmdLen (r\<lparr>rpos := cmdStart\<rparr>); Some r }
                    else Some r);
              (loopLen, r) \<leftarrow> ru16 r;
              (loop, r) \<leftarrow> rtake (unat loopLen) r;
              if rerr r then Some (inn, Some (ErrShortIn DescriptorLoop))
              else parse_descriptors (case loop of Some lp \<Rightarrow> lp | None \<Rightarrow> []) inn
            }
          }
     }"

definition Parse :: "bytes \<Rightarrow> (info \<times> scte_error option) option" where
  "Parse sect =
     (if length sect < 3 then Some (info0, Some ErrShort)
      else do {
        s0 \<leftarrow> idx sect 0;
        if s0 \<noteq> tableID then Some (info0, Some ErrTableID)
        else do {
          s1 \<leftarrow> idx sect 1; s2 \<leftarrow> idx sect 2;
          let total = 3 + len12 s1 s2;
          if total < 20 \<or> length sect < total then Some (info0, Some ErrShort)
          else do {
            sec \<leftarrow> subslice sect 0 total;
            if CRC32 sec \<noteq> 0 then Some (info0, Some ErrCRC)
            else do { b \<leftarrow> subslice sec 0 (total - 4); parse_body b } } } })"

section \<open>Reader lemmas\<close>

text \<open>Reads inside the buffer.\<close>

lemma rtake_ok:
  "\<not> rerr r \<Longrightarrow> rpos r + n \<le> length (rb r) \<Longrightarrow>
     rtake n r = Some (Some (take n (drop (rpos r) (rb r))), r\<lparr>rpos := rpos r + n\<rparr>)"
  by (simp add: rtake_def)

lemma ru8_ok:
  "\<not> rerr r \<Longrightarrow> rpos r + 1 \<le> length (rb r) \<Longrightarrow> ru8 r = Some (rb r ! rpos r, r\<lparr>rpos := rpos r + 1\<rparr>)"
  by (simp add: ru8_def rtake_ok)

lemma ru16_ok:
  "\<not> rerr r \<Longrightarrow> rpos r + 2 \<le> length (rb r) \<Longrightarrow>
     ru16 r = Some (push_bit 8 (ucast (rb r ! rpos r)) OR ucast (rb r ! (rpos r + 1)), r\<lparr>rpos := rpos r + 2\<rparr>)"
  by (simp add: ru16_def rtake_ok)

lemma ru32_ok:
  "\<not> rerr r \<Longrightarrow> rpos r + 4 \<le> length (rb r) \<Longrightarrow>
     ru32 r = Some (be_u32 (rb r ! rpos r) (rb r ! (rpos r + 1)) (rb r ! (rpos r + 2)) (rb r ! (rpos r + 3)),
       r\<lparr>rpos := rpos r + 4\<rparr>)"
  by (simp add: ru32_def rtake_ok)

lemma ru33_ok:
  "\<not> rerr r \<Longrightarrow> rpos r + 5 \<le> length (rb r) \<Longrightarrow>
     ru33 r = Some ((rb r ! rpos r, be_u40 (rb r ! rpos r AND 1) (rb r ! (rpos r + 1)) (rb r ! (rpos r + 2))
         (rb r ! (rpos r + 3)) (rb r ! (rpos r + 4))), r\<lparr>rpos := rpos r + 5\<rparr>)"
  by (simp add: ru33_def rtake_ok)

lemma rspliceTime_ok:
  "\<not> rerr r \<Longrightarrow> rpos r < length (rb r) \<Longrightarrow>
     rspliceTime r = (if rb r ! rpos r AND 0x80 = 0 then Some ((False, 0), r\<lparr>rpos := rpos r + 1\<rparr>)
       else do { ((_, pts), r) \<leftarrow> ru33 r; Some ((True, pts), r) })"
  by (simp add: rspliceTime_def)

lemmas reader_ok = rtake_ok ru8_ok ru16_ok ru32_ok ru33_ok rspliceTime_ok

text \<open>
  Every read of a reader returns, whatever its state: the guard of \<^verbatim>\<open>take\<close> keeps its slice
  expression inside the buffer, and the slice it returns has the length the caller indexes.
\<close>

lemma rtake_returns [returns_intros]: "returns (rtake n r)"
  unfolding rtake_def by (intro returns_intros) simp_all

lemma rtake_length: "rtake n r = Some (Some v, r') \<Longrightarrow> length v = n"
  by (auto simp: rtake_def split: if_splits)

lemma ru8_returns [returns_intros]: "returns (ru8 r)"
  unfolding ru8_def by (intro returns_intros) (auto dest: rtake_length)

lemma ru16_returns [returns_intros]: "returns (ru16 r)"
  unfolding ru16_def by (intro returns_intros) (auto dest: rtake_length)

lemma ru32_returns [returns_intros]: "returns (ru32 r)"
  unfolding ru32_def by (intro returns_intros) (auto dest: rtake_length)

lemma ru33_returns [returns_intros]: "returns (ru33 r)"
  unfolding ru33_def by (intro returns_intros) (auto dest: rtake_length)

lemma rspliceTime_returns [returns_intros]: "returns (rspliceTime r)"
  unfolding rspliceTime_def by (intro returns_intros) simp_all

lemma skip_components_returns [returns_intros]: "returns (skip_components n imm r)"
  by (induction n arbitrary: r) (auto intro!: returns_intros)

lemma parseSegmentation_returns [returns_intros]: "returns (parseSegmentation b)"
  unfolding parseSegmentation_def by (intro returns_intros) (auto dest: rtake_length)

lemma parse_splice_insert_returns [returns_intros]: "returns (parse_splice_insert inn r)"
  unfolding parse_splice_insert_def by (intro returns_intros)

text \<open>One turn of the descriptor loop: the guards keep its reads inside the loop bytes.\<close>

lemma parse_descriptors_step:
  fixes inn :: info
  assumes "\<not> length loop < 2" "\<not> 2 + unat (loop ! 1) > length loop"
  defines "l \<equiv> unat (loop ! 1)"
  defines "body \<equiv> take l (drop 2 loop)"
  defines "ident \<equiv> (if l \<ge> 4 then be_u32 (body ! 0) (body ! 1) (body ! 2) (body ! 3) else 0)"
  defines "inn1 \<equiv> inn\<lparr>in_Descriptors := in_Descriptors inn @
      [\<lparr>ds_Tag = loop ! 0, ds_Identifier = ident, ds_Length = l\<rparr>]\<rparr>"
  shows "parse_descriptors loop inn =
    (if loop ! 0 = 0x02 \<and> ident = cueiID then do {
       (sd, err) \<leftarrow> parseSegmentation (drop 4 body);
       (case err of
          Some e \<Rightarrow> Some (inn1, Some e)
        | None \<Rightarrow>
            parse_descriptors (drop (2 + l) loop) (inn1\<lparr>in_Segmentations := in_Segmentations inn1 @ [sd]\<rparr>)) }
     else parse_descriptors (drop (2 + l) loop) inn1)"
proof -
  have len: "length body = l" using assms(1,2) by (simp add: body_def l_def)
  have reads: "idx loop 0 = Some (loop ! 0)" "idx loop 1 = Some (loop ! 1)"
    "subslice loop 2 (2 + l) = Some body" "slice_from loop (2 + l) = Some (drop (2 + l) loop)"
    using assms(1,2) by (auto simp: body_def l_def idx_def)
  have id: "(if l \<ge> 4 then do { b0 \<leftarrow> idx body 0; b1 \<leftarrow> idx body 1; b2 \<leftarrow> idx body 2; b3 \<leftarrow> idx body 3;
                 Some (be_u32 b0 b1 b2 b3) } else Some 0) = Some ident"
    by (simp add: ident_def len)
  have b4: "slice_from body 4 = Some (drop 4 body)" if "ident = cueiID"
    using that by (auto simp: ident_def cueiID_def len split: if_splits)
  have g: "2 \<le> length loop" "(2 + l > length loop) = False"
    using assms(1,2) by (simp_all add: l_def)
  show ?thesis
    by (subst parse_descriptors.simps)
      (simp only: g reads id b4 Let_def if_True if_False bind.bind_lunit inn1_def flip: l_def cong: if_cong)
qed

lemma parse_descriptors_stop: "length loop < 2 \<Longrightarrow> parse_descriptors loop inn = Some (inn, None)"
  by (subst parse_descriptors.simps) simp

lemma parse_descriptors_short:
  "\<not> length loop < 2 \<Longrightarrow> 2 + unat (loop ! 1) > length loop \<Longrightarrow>
     parse_descriptors loop inn = Some (inn, Some (ErrShortIn (DescriptorTag (loop ! 0))))"
  by (subst parse_descriptors.simps) (auto simp: Let_def idx_def)

lemma parse_descriptors_returns [returns_intros]: "returns (parse_descriptors loop inn)"
proof (induction "length loop" arbitrary: loop inn rule: less_induct)
  case less
  consider "length loop < 2" | "\<not> length loop < 2" "2 + unat (loop ! 1) > length loop"
    | "\<not> length loop < 2" "\<not> 2 + unat (loop ! 1) > length loop" by blast
  then show ?case
  proof cases
    case 3
    then have "returns (parse_descriptors (drop (2 + unat (loop ! 1)) loop) inn')" for inn'
      by (intro less) auto
    then show ?thesis
      unfolding parse_descriptors_step [OF 3] by (intro returns_intros)
  qed (simp_all add: parse_descriptors_stop parse_descriptors_short returns_Some)
qed

text \<open>The tail of the decoder, from the reader after the splice command.\<close>

definition parse_tail :: "nat \<Rightarrow> nat \<Rightarrow> info \<times> reader \<Rightarrow> (info \<times> scte_error option) option" where
  "parse_tail cmdLen cmdStart = (\<lambda>(inn, r).
     if rerr r then Some (inn, Some (ErrShortIn SpliceCommand))
     else do {
       let inn = (if in_TimeSpecified inn
                  then inn\<lparr>in_PTS := (in_PTS inn + in_PTSAdjustment inn) AND mask33\<rparr> else inn);
       r \<leftarrow> (if cmdLen \<noteq> 0xFFF
             then do { (_, r) \<leftarrow> rtake cmdLen (r\<lparr>rpos := cmdStart\<rparr>); Some r }
             else Some r);
       (loopLen, r) \<leftarrow> ru16 r;
       (loop, r) \<leftarrow> rtake (unat loopLen) r;
       if rerr r then Some (inn, Some (ErrShortIn DescriptorLoop))
       else parse_descriptors (case loop of Some lp \<Rightarrow> lp | None \<Rightarrow> []) inn })"

lemma parse_tail_returns [returns_intros]: "returns (parse_tail cmdLen cmdStart x)"
  unfolding parse_tail_def by (intro returns_intros)

definition parse_command :: "byte \<Rightarrow> info \<Rightarrow> reader \<Rightarrow> (info \<times> reader) option" where
  "parse_command ct inn r =
     (if ct = CmdSpliceInsert then parse_splice_insert inn r
      else if ct = CmdTimeSignal
        then do { ((t, p), r) \<leftarrow> rspliceTime r; Some (inn\<lparr>in_TimeSpecified := t, in_PTS := p\<rparr>, r) }
      else Some (inn, r))"

lemma parse_command_returns [returns_intros]: "returns (parse_command ct inn r)"
  unfolding parse_command_def by (intro returns_intros)

definition header_info :: "bytes \<Rightarrow> info" where
  "header_info b = info0\<lparr>in_SAPType := drop_bit 4 (b ! 1) AND 0x03,
     in_PTSAdjustment := be_u40 (b ! 4 AND 1) (b ! 5) (b ! 6) (b ! 7) (b ! 8),
     in_Tier := push_bit 4 (ucast (b ! 10)) OR ucast (drop_bit 4 (b ! 11)),
     in_CommandType := b ! 13, in_Command := CommandName (b ! 13)\<rparr>"

lemma parse_body_eq:
  assumes "16 \<le> length b"
  shows "parse_body b = (if b ! 4 AND 0x80 \<noteq> 0 then Some (header_info b, Some ErrEncrypted)
     else parse_command (b ! 13) (header_info b) \<lparr>rb = b, rpos = 14, rerr = False\<rparr> \<bind>
            parse_tail (len12 (b ! 11) (b ! 12)) 14)"
proof -
  have "idx b 1 = Some (b ! 1)"
    and "ru33 \<lparr>rb = b, rpos = 4, rerr = False\<rparr> =
      Some ((b ! 4, be_u40 (b ! 4 AND 1) (b ! 5) (b ! 6) (b ! 7) (b ! 8)), \<lparr>rb = b, rpos = 9, rerr = False\<rparr>)"
    and "ru8 \<lparr>rb = b, rpos = 9, rerr = False\<rparr> = Some (b ! 9, \<lparr>rb = b, rpos = 10, rerr = False\<rparr>)"
    and "rtake 3 \<lparr>rb = b, rpos = 10, rerr = False\<rparr> =
      Some (Some (take 3 (drop 10 b)), \<lparr>rb = b, rpos = 13, rerr = False\<rparr>)"
    and "ru8 \<lparr>rb = b, rpos = 13, rerr = False\<rparr> = Some (b ! 13, \<lparr>rb = b, rpos = 14, rerr = False\<rparr>)"
    and "idx (take 3 (drop 10 b)) 0 = Some (b ! 10)" and "idx (take 3 (drop 10 b)) 1 = Some (b ! 11)"
    and "idx (take 3 (drop 10 b)) 2 = Some (b ! 12)"
    using assms by (simp_all add: reader_ok)
  note reads = this
  show ?thesis
    unfolding parse_body_def parse_tail_def parse_command_def header_info_def
    by (simp only: reads Let_def prod.case bind.bind_lunit reader.simps)
qed

lemma Parse_unfold:
  "Parse sect =
     (if length sect < 3 then Some (info0, Some ErrShort)
      else if sect ! 0 \<noteq> tableID then Some (info0, Some ErrTableID)
      else let total = 3 + len12 (sect ! 1) (sect ! 2) in
        if total < 20 \<or> length sect < total then Some (info0, Some ErrShort)
        else if CRC32 (take total sect) \<noteq> 0 then Some (info0, Some ErrCRC)
        else parse_body (take (total - 4) sect))"
proof (cases "length sect < 3")
  case False
  then have "idx sect 0 = Some (sect ! 0)" "idx sect 1 = Some (sect ! 1)" "idx sect 2 = Some (sect ! 2)"
    by (auto simp: idx_def)
  with False show ?thesis unfolding Parse_def by (simp add: Let_def)
qed (simp add: Parse_def)

lemma Parse_total: "\<exists>i e. Parse s = Some (i, e)"
proof -
  have "returns (parse_body b)" if "16 \<le> length b" for b
    unfolding parse_body_eq [OF that] by (intro returns_intros)
  then have "returns (Parse s)" by (auto simp: Parse_unfold Let_def intro: returns_Some)
  then show ?thesis by (simp add: returns_iff)
qed

lemma of_nat_len12: "n < 4096 \<Longrightarrow> h AND 0x0F = 0 \<Longrightarrow> len12 (h OR (of_nat (drop_bit 8 n) AND 0x0F)) (of_nat n) = n"
proof -
  assume n: "n < 4096" and h: "h AND 0x0F = 0"
  have "(h OR (of_nat (drop_bit 8 n) AND 0x0F)) AND 0x0F = (of_nat (drop_bit 8 n) :: byte) AND 0x0F"
    using h by (simp add: and.assoc bit.conj_disj_distrib2)
  moreover have "unat ((of_nat (drop_bit 8 n) :: byte) AND 0x0F) = n div 256"
  proof -
    have m: "(0x0F :: byte) = mask 4" by (simp add: mask_eq_exp_minus_1)
    have "unat (take_bit 4 (of_nat (drop_bit 8 n) :: byte)) = take_bit 4 (n div 256 mod 256)"
      by (simp add: unsigned_take_bit_eq unat_of_nat drop_bit_eq_div)
    with n show ?thesis unfolding m by (simp add: take_bit_eq_mask [symmetric] take_bit_eq_mod)
  qed
  moreover have "unat (of_nat n :: byte) = n mod 256" by (simp add: unat_of_nat)
  ultimately show ?thesis by (simp add: len12_eq)
qed

lemma be_u32_be32: "be_u32 (byte_of (drop_bit 24 e)) (byte_of (drop_bit 16 e)) (byte_of (drop_bit 8 e)) (byte_of e) = e"
proof (rule bit_word_eqI)
  fix n assume n: "n < LENGTH(32)"
  then consider "n < 8" | "8 \<le> n" "n < 16" | "16 \<le> n" "n < 24" | "24 \<le> n" by linarith
  then show "bit (be_u32 (byte_of (drop_bit 24 e)) (byte_of (drop_bit 16 e)) (byte_of (drop_bit 8 e)) (byte_of e)) n = bit e n"
    using n by cases (auto simp: be_u32_def bit_simps)
qed

lemma be_u40_bytes:
  "be_u40 (byte_of (drop_bit 32 d)) (byte_of (drop_bit 24 d)) (byte_of (drop_bit 16 d)) (byte_of (drop_bit 8 d)) (byte_of d)
     = take_bit 40 d"
proof (rule bit_word_eqI)
  fix n assume n: "n < LENGTH(64)"
  then consider "n < 8" | "8 \<le> n" "n < 16" | "16 \<le> n" "n < 24" | "24 \<le> n" "n < 32" | "32 \<le> n" "n < 40" | "40 \<le> n" by linarith
  then show "bit (be_u40 (byte_of (drop_bit 32 d)) (byte_of (drop_bit 24 d)) (byte_of (drop_bit 16 d)) (byte_of (drop_bit 8 d)) (byte_of d)) n = bit (take_bit 40 d) n"
    using n by cases (auto simp: be_u40_def bit_simps)
qed


lemma mask33_take: "x AND mask33 = take_bit 33 x"
  by (simp add: mask33_def take_bit_eq_mask mask_eq_exp_minus_1 push_bit_eq_mult)

lemma mask40_take: "(x :: u64) AND (push_bit 40 1 - 1) = take_bit 40 x"
  by (simp add: take_bit_eq_mask mask_eq_exp_minus_1 push_bit_eq_mult)

lemma be_u33_bytes:
  assumes "h AND 1 = 0"
  shows "be_u40 ((h OR byte_of (drop_bit 32 (take_bit 33 p))) AND 1) (byte_of (drop_bit 24 (take_bit 33 p)))
     (byte_of (drop_bit 16 (take_bit 33 p))) (byte_of (drop_bit 8 (take_bit 33 p))) (byte_of (take_bit 33 p)) = take_bit 33 p"
proof -
  have "byte_of (drop_bit 32 (take_bit 33 p)) AND 1 = byte_of (drop_bit 32 (take_bit 33 p))"
    by (rule bit_word_eqI) (auto simp: bit_simps)
  then have "(h OR byte_of (drop_bit 32 (take_bit 33 p))) AND 1 = byte_of (drop_bit 32 (take_bit 33 p))"
    using assms by (simp add: bit.conj_disj_distrib2)
  then show ?thesis by (simp add: be_u40_bytes)
qed

lemma first_flag: "(h OR byte_of (drop_bit 32 (take_bit 33 p))) AND 0x80 = h AND 0x80"
proof -
  have "byte_of (drop_bit 32 (take_bit 33 p)) AND 0x80 = 0"
    by (rule bit_word_eqI) (auto simp: bit_simps)
  then show ?thesis by (simp add: bit.conj_disj_distrib2)
qed

lemma u16_bytes: "push_bit 8 (ucast (byte_of (drop_bit 8 u))) OR ucast (byte_of u) = (u :: u16)"
proof (rule bit_word_eqI)
  fix n assume "n < LENGTH(16)"
  then show "bit (push_bit 8 (ucast (byte_of (drop_bit 8 u))) OR ucast (byte_of u) :: u16) n = bit u n"
    by (cases "n < 8") (auto simp: bit_simps)
qed

lemma u16_of_nat_bytes:
  "push_bit 8 (ucast (of_nat (drop_bit 8 n) :: byte)) OR ucast (of_nat n :: byte) = (of_nat n :: u16)"
proof (rule bit_word_eqI)
  fix k assume "k < LENGTH(16)"
  then show "bit (push_bit 8 (ucast (of_nat (drop_bit 8 n) :: byte)) OR ucast (of_nat n :: byte) :: u16) k = bit (of_nat n :: u16) k"
    by (cases "k < 8") (auto simp: bit_simps)
qed

text \<open>The bytes of a section before its checksum.\<close>

definition section_bytes :: "byte \<Rightarrow> bytes \<Rightarrow> bytes \<Rightarrow> bytes" where
  "section_bytes ct cmd desc =
     [tableID, 0x30 OR (of_nat (drop_bit 8 (17 + length cmd + length desc)) AND 0x0F),
      of_nat (17 + length cmd + length desc), 0, 0, 0, 0, 0, 0, 0,
      0xFF, 0xF0 OR (of_nat (drop_bit 8 (length cmd)) AND 0x0F), of_nat (length cmd), ct] @ cmd @
     [of_nat (drop_bit 8 (length desc)), of_nat (length desc)] @ desc"

lemma buildSection_eq: "buildSection ct cmd desc = appendCRC (section_bytes ct cmd desc)"
proof -
  have "11 + length cmd + 2 + length desc + 4 = 17 + length cmd + length desc" by simp
  then show ?thesis by (simp only: buildSection_def section_bytes_def Let_def append.simps append_assoc)
qed

lemma length_section_bytes: "length (section_bytes ct cmd desc) = 16 + length cmd + length desc"
  by (simp add: section_bytes_def)

lemma section_bytes_nth:
  "section_bytes ct cmd desc ! 0 = tableID"
  "section_bytes ct cmd desc ! 1 = 0x30 OR (of_nat (drop_bit 8 (17 + length cmd + length desc)) AND 0x0F)"
  "section_bytes ct cmd desc ! 2 = of_nat (17 + length cmd + length desc)"
  "section_bytes ct cmd desc ! 4 = 0"
  "section_bytes ct cmd desc ! 11 = 0xF0 OR (of_nat (drop_bit 8 (length cmd)) AND 0x0F)"
  "section_bytes ct cmd desc ! 12 = of_nat (length cmd)"
  "section_bytes ct cmd desc ! 13 = ct"
  by (simp_all add: section_bytes_def)

text \<open>A well-framed section: the length field covers it exactly and its checksum is right.\<close>

definition framed :: "bytes \<Rightarrow> bool" where
  "framed s \<longleftrightarrow> 20 \<le> length s \<and> s ! 0 = tableID \<and> length s = 3 + len12 (s ! 1) (s ! 2) \<and> CRC32 s = 0"

lemma framed_buildSection:
  assumes "17 + length cmd + length desc < 4096"
  shows "framed (buildSection ct cmd desc)"
proof -
  let ?b = "section_bytes ct cmd desc" and ?s = "buildSection ct cmd desc"
  have nth: "?s ! i = ?b ! i" if "i < 3" for i
    using that by (simp add: buildSection_eq appendCRC_def nth_append length_section_bytes)
  have "len12 (?s ! 1) (?s ! 2) = 17 + length cmd + length desc"
    using assms of_nat_len12 [of "17 + length cmd + length desc" "0x30"]
    by (simp only: nth section_bytes_nth) simp
  moreover have "?s ! 0 = tableID" using nth [of 0] by (simp add: section_bytes_nth)
  ultimately show ?thesis
    by (simp add: framed_def buildSection_eq length_section_bytes)
qed

lemma Parse_framed: "framed s \<Longrightarrow> Parse (s @ stuffing) = parse_body (take (length s - 4) s)"
  by (auto simp: framed_def Parse_unfold Let_def nth_append)

lemma Parse_buildSection:
  assumes "17 + length cmd + length desc < 4096"
  shows "Parse (buildSection ct cmd desc @ stuffing) = parse_body (section_bytes ct cmd desc)"
  using Parse_framed [OF framed_buildSection [OF assms]]
  by (simp add: buildSection_eq appendCRC_def be32_def)

definition command_info :: "byte \<Rightarrow> info" where
  "command_info ct = info0\<lparr>in_SAPType := 3, in_Tier := 0xFFF, in_CommandType := ct, in_Command := CommandName ct\<rparr>"

lemma header_info_section:
  assumes "17 + length cmd + length desc < 4096" and "length cmd < 4096"
  shows "header_info (section_bytes ct cmd desc) = command_info ct"
proof -
  have hi: "drop_bit 4 (0x30 OR (of_nat n AND 0x0F)) AND 0x03 = (3 :: byte)" for n
    by (simp add: drop_bit_or drop_bit_and)
  have tier: "push_bit 4 (ucast (0xFF :: byte)) OR ucast (drop_bit 4 (0xF0 OR (of_nat n AND 0x0F) :: byte)) = (0xFFF :: u16)" for n
    by (simp add: drop_bit_or drop_bit_and)
  show ?thesis
    using hi [of "drop_bit 8 (17 + length cmd + length desc)"] tier [of "drop_bit 8 (length cmd)"]
    by (simp add: header_info_def command_info_def section_bytes_def be_u40_def info0_def)
qed

lemma parse_tail_section:
  assumes "17 + length cmd + length desc < 4096" and "length cmd < 0xFFF"
    and r: "rb r = section_bytes ct cmd desc" "\<not> rerr r"
  shows "parse_tail (length cmd) 14 (inn, r) = parse_descriptors desc
     (if in_TimeSpecified inn then inn\<lparr>in_PTS := (in_PTS inn + in_PTSAdjustment inn) AND mask33\<rparr> else inn)"
proof -
  let ?b = "section_bytes ct cmd desc"
  let ?r1 = "r\<lparr>rpos := 14 + length cmd\<rparr>" and ?r2 = "r\<lparr>rpos := 16 + length cmd\<rparr>"
  have len: "length (rb r) = 16 + length cmd + length desc" by (simp add: r length_section_bytes)
  have t1: "rtake (length cmd) (r\<lparr>rpos := 14\<rparr>) = Some (Some (take (length cmd) (drop 14 ?b)), ?r1)"
    using r len by (simp add: rtake_ok)
  have at: "?b ! (14 + length cmd) = of_nat (drop_bit 8 (length desc))"
    "?b ! Suc (14 + length cmd) = of_nat (length desc)"
    by (simp_all add: section_bytes_def nth_append)
  have u: "push_bit 8 (ucast (of_nat (drop_bit 8 (length desc)) :: byte)) OR ucast (of_nat (length desc) :: byte)
      = (of_nat (length desc) :: u16)"
    by (rule u16_of_nat_bytes)
  have t2: "ru16 ?r1 = Some (of_nat (length desc), ?r2)"
    using r len at u by (simp add: ru16_ok)
  have "unat (of_nat (length desc) :: u16) = length desc"
    using assms(1) by (simp add: unat_of_nat)
  moreover have "drop (16 + length cmd) ?b = desc"
  proof -
    have "\<exists>pre. ?b = pre @ desc" unfolding section_bytes_def by (metis append_assoc)
    then obtain pre where "?b = pre @ desc" ..
    moreover from this have "length pre = 16 + length cmd"
      using length_section_bytes [of ct cmd desc] by simp
    ultimately show ?thesis by simp
  qed
  ultimately have t3: "rtake (unat (of_nat (length desc) :: u16)) ?r2 = Some (Some desc, r\<lparr>rpos := 16 + length cmd + length desc\<rparr>)"
    using r len by (simp add: rtake_ok)
  show ?thesis
    using assms(2) r by (simp add: parse_tail_def t1 t2 t3 Let_def)
qed


text \<open>What a decoder must read back from an encoded cue.\<close>

definition cue_info :: "cue \<Rightarrow> u64 \<Rightarrow> info" where
  "cue_info c pts =
     (if Kind c = KindSpliceInsert then
        (command_info CmdSpliceInsert)\<lparr>in_EventID := EventID c, in_OutOfNetwork := OutOfNetwork c,
           in_ProgramSplice := True, in_Immediate := Immediate c,
           in_UniqueProgramID := UniqueProgramID c, in_AvailNum := AvailNum c, in_AvailsExpected := AvailsExpected c,
           in_TimeSpecified := \<not> Immediate c, in_PTS := (if Immediate c then 0 else take_bit 33 pts),
           in_HasDuration := DurationMs c > 0, in_AutoReturn := DurationMs c > 0,
           in_Duration := (if DurationMs c > 0 then take_bit 33 (msToTicks (DurationMs c)) else 0)\<rparr>
      else if Kind c = KindTimeSignal then
        (command_info CmdTimeSignal)\<lparr>in_TimeSpecified := \<not> Immediate c,
           in_PTS := (if Immediate c then 0 else take_bit 33 pts),
           in_Descriptors := (if SegmentationTypeID c = 0 then []
             else [\<lparr>ds_Tag = 0x02, ds_Identifier = cueiID,
                     ds_Length = 15 + (if DurationMs c > 0 then 5 else 0) + (if hasSubSegments (SegmentationTypeID c) then 2 else 0)\<rparr>]),
           in_Segmentations := (if SegmentationTypeID c = 0 then []
             else [segmentation0\<lparr>sg_EventID := EventID c, sg_TypeID := SegmentationTypeID c,
                     sg_HasDuration := DurationMs c > 0,
                     sg_Duration := (if DurationMs c > 0 then take_bit 40 (msToTicks (DurationMs c)) else 0)\<rparr>])\<rparr>
      else command_info CmdSpliceNull)"

lemma length_spliceInsertCmd:
  "length (spliceInsertCmd c pts) = 10 + (if Immediate c then 0 else 5) + (if DurationMs c > 0 then 5 else 0)"
  by (simp add: spliceInsertCmd_def appendSpliceTime_def appendBreakDuration_def Let_def)



lemma auto_return_byte: "(0x7E OR x) OR 0x80 = 0xFE OR (x :: byte)"
proof -
  have "(0x7E OR x) OR 0x80 = (0x7E OR 0x80) OR x"
    by (simp only: or.assoc or.commute [of x "0x80"])
  then show ?thesis by simp
qed

lemmas byte33_flags = first_flag [of "0xFE", simplified]
lemmas byte33_value = be_u33_bytes [of "0xFE", simplified]

lemma parse_spliceInsertCmd:
  fixes c pts
  defines "cmd \<equiv> spliceInsertCmd c pts"
  assumes pre: "length pre = 14" and k: "Kind c = KindSpliceInsert"
  shows "parse_splice_insert (command_info CmdSpliceInsert) \<lparr>rb = pre @ cmd @ post, rpos = 14, rerr = False\<rparr> =
    Some (cue_info c pts, \<lparr>rb = pre @ cmd @ post, rpos = 14 + length cmd, rerr = False\<rparr>)"
proof -
  define b where "b = pre @ cmd @ post"
  define r where "r = (\<lambda>n. \<lparr>rb = b, rpos = n, rerr = False\<rparr>)"
  have at: "b ! (14 + k) = cmd ! k" if "k < length cmd" for k
    using pre that by (simp add: b_def nth_append)
  have len: "length b = 14 + length cmd + length post" using pre by (simp add: b_def)
  note bytes = at [of 0, simplified] at [of 1, simplified] at [of 2, simplified] at [of 3, simplified]
    at [of 4, simplified] at [of 5, simplified] at [of 6, simplified] at [of 7, simplified]
    at [of 8, simplified] at [of 9, simplified] at [of 10, simplified] at [of 11, simplified]
    at [of 12, simplified] at [of 13, simplified] at [of 14, simplified] at [of 15, simplified]
    at [of 16, simplified] at [of 17, simplified] at [of 18, simplified] at [of 19, simplified]
  note defs = cmd_def spliceInsertCmd_def appendSpliceTime_def appendBreakDuration_def Let_def mask33_take
  note ev = r_def reader_ok bytes defs be_u32_be32 u16_bytes auto_return_byte byte33_flags byte33_value
  let ?f = "(if Immediate c then (if DurationMs c > 0 then 0x7F else 0x5F) else (if DurationMs c > 0 then 0x6F else 0x4F))
     OR (if OutOfNetwork c then 0x80 else 0) :: byte"
  have lc: "length cmd = 10 + (if Immediate c then 0 else 5) + (if DurationMs c > 0 then 5 else 0)"
    by (simp add: cmd_def length_spliceInsertCmd)
  have r1: "ru32 (r 14) = Some (EventID c, r 18)" and r2: "ru8 (r 18) = Some (0x7F, r 19)"
    and r3: "ru8 (r 19) = Some (?f, r 20)"
    and r4: "\<not> Immediate c \<Longrightarrow> rspliceTime (r 20) = Some ((True, take_bit 33 pts), r 25)"
    using len by (simp_all add: ev)
  define q where "q = (if Immediate c then 20 else 25 :: nat)"
  define q2 where "q2 = q + (if DurationMs c > 0 then 5 else 0)"
  have r5: "DurationMs c > 0 \<Longrightarrow> ru33 (r q) = Some ((0xFE OR byte_of (drop_bit 32 (take_bit 33 (msToTicks (DurationMs c)))),
      take_bit 33 (msToTicks (DurationMs c))), r q2)"
    using len by (cases "Immediate c") (simp_all add: q_def q2_def ev)
  have r6: "ru16 (r q2) = Some (UniqueProgramID c, r (q2 + 2))"
    and r7: "ru8 (r (q2 + 2)) = Some (AvailNum c, r (q2 + 3))"
    and r8: "ru8 (r (q2 + 3)) = Some (AvailsExpected c, r (q2 + 4))"
    using len by (cases "Immediate c"; cases "DurationMs c > 0"; simp add: q_def q2_def ev)+
  have f: "?f AND 0x80 \<noteq> 0 \<longleftrightarrow> OutOfNetwork c" "?f AND 0x40 \<noteq> 0" "?f AND 0x20 \<noteq> 0 \<longleftrightarrow> DurationMs c > 0"
    "?f AND 0x10 \<noteq> 0 \<longleftrightarrow> Immediate c"
    by simp_all
  have "parse_splice_insert (command_info CmdSpliceInsert) (r 14) = Some (cue_info c pts, r (q2 + 4))"
    unfolding parse_splice_insert_def r1 Let_def bind.bind_lunit prod.case r2 r3 f
    using r4 r5 r6 r7 r8 k
    by (cases "Immediate c"; cases "DurationMs c > 0";
      simp add: q_def q2_def byte33_flags cue_info_def command_info_def info0_def)
  then show ?thesis
    using lc by (simp add: r_def b_def q_def q2_def)
qed
lemma parse_splice_time:
  fixes sp pts
  assumes pre: "length pre = 14"
  defines "cmd \<equiv> appendSpliceTime [] sp pts"
  shows "rspliceTime \<lparr>rb = pre @ cmd @ post, rpos = 14, rerr = False\<rparr> =
    Some ((sp, if sp then take_bit 33 pts else 0), \<lparr>rb = pre @ cmd @ post, rpos = 14 + length cmd, rerr = False\<rparr>)"
proof -
  define b where "b = pre @ cmd @ post"
  have at: "b ! (14 + k) = cmd ! k" if "k < length cmd" for k
    using pre that by (simp add: b_def nth_append)
  have len: "length b = 14 + length cmd + length post" using pre by (simp add: b_def)
  note bytes = at [of 0, simplified] at [of 1, simplified] at [of 2, simplified] at [of 3, simplified]
    at [of 4, simplified]
  have "rspliceTime \<lparr>rb = b, rpos = 14, rerr = False\<rparr> =
    Some ((sp, if sp then take_bit 33 pts else 0), \<lparr>rb = b, rpos = 14 + length cmd, rerr = False\<rparr>)"
    by (cases sp; use len in \<open>simp add: reader_ok bytes cmd_def appendSpliceTime_def Let_def mask33_take
        byte33_flags byte33_value\<close>)
  then show ?thesis by (simp add: b_def)
qed

definition seg_body :: "u32 \<Rightarrow> byte \<Rightarrow> u64 \<Rightarrow> bool \<Rightarrow> bytes" where
  "seg_body ev ty dur hasDur = [byte_of (drop_bit 24 ev), byte_of (drop_bit 16 ev), byte_of (drop_bit 8 ev), byte_of ev, 0x7F,
      if hasDur then 0xFF else 0xBF] @
     (if hasDur then [byte_of (drop_bit 32 (take_bit 40 dur)), byte_of (drop_bit 24 (take_bit 40 dur)),
        byte_of (drop_bit 16 (take_bit 40 dur)), byte_of (drop_bit 8 (take_bit 40 dur)), byte_of (take_bit 40 dur)] else []) @
     [0, 0, ty, 0, 0] @ (if hasSubSegments ty then [0, 0] else [])"

lemma parseSegmentation_body:
  "parseSegmentation (seg_body ev ty dur hasDur) = Some (segmentation0\<lparr>sg_EventID := ev, sg_TypeID := ty,
      sg_HasDuration := hasDur, sg_Duration := (if hasDur then take_bit 40 dur else 0)\<rparr>, None)"
  by (cases hasDur; cases "hasSubSegments ty")
    (simp_all add: parseSegmentation_def seg_body_def segmentation0_def reader_ok Let_def be_u32_be32 be_u40_bytes)

lemma parse_descriptors_encoded:
  "parse_descriptors (appendSegmentationDescriptor [] ev ty dur hasDur) inn = Some (inn\<lparr>
     in_Descriptors := in_Descriptors inn @ [\<lparr>ds_Tag = 0x02, ds_Identifier = cueiID,
        ds_Length = 15 + (if hasDur then 5 else 0) + (if hasSubSegments ty then 2 else 0)\<rparr>],
     in_Segmentations := in_Segmentations inn @ [segmentation0\<lparr>sg_EventID := ev, sg_TypeID := ty,
        sg_HasDuration := hasDur, sg_Duration := (if hasDur then take_bit 40 dur else 0)\<rparr>]\<rparr>, None)"
proof -
  define l :: nat where "l = 15 + (if hasDur then 5 else 0) + (if hasSubSegments ty then 2 else 0)"
  have eq: "appendSegmentationDescriptor [] ev ty dur hasDur = [0x02, of_nat l, 0x43, 0x55, 0x45, 0x49] @ seg_body ev ty dur hasDur"
    unfolding appendSegmentationDescriptor_def Let_def mask40_take by (simp add: seg_body_def l_def)
  have len: "length (seg_body ev ty dur hasDur) = l - 4" by (simp add: seg_body_def l_def)
  have l: "l \<le> 22" "4 \<le> l" by (simp_all add: l_def)
  then have ul: "unat (of_nat l :: byte) = l" by (simp add: unat_of_nat)
  have id: "be_u32 0x43 0x55 0x45 0x49 = cueiID" by (simp add: be_u32_def cueiID_def)
  have body: "take l ([0x43, 0x55, 0x45, 0x49] @ seg_body ev ty dur hasDur) = [0x43, 0x55, 0x45, 0x49] @ seg_body ev ty dur hasDur"
    using l by (simp add: len)
  show ?thesis
    unfolding eq l_def [symmetric]
    using l len ul id body
    by (subst parse_descriptors_step) (simp_all add: parse_descriptors_stop parseSegmentation_body)
qed

lemma parse_descriptors_Nil: "parse_descriptors [] i = Some (i, None)"
  by (simp add: parse_descriptors_stop)

lemma Parse_run:
  assumes len: "length cmd \<le> 20" "length desc \<le> 24"
    and cmd: "\<And>pre post. length pre = 14 \<Longrightarrow>
      parse_command ct (command_info ct) \<lparr>rb = pre @ cmd @ post, rpos = 14, rerr = False\<rparr> =
        Some (inn, \<lparr>rb = pre @ cmd @ post, rpos = 14 + length cmd, rerr = False\<rparr>)"
  shows "Parse (buildSection ct cmd desc @ stuffing) =
      parse_descriptors desc (if in_TimeSpecified inn
        then inn\<lparr>in_PTS := (in_PTS inn + in_PTSAdjustment inn) AND mask33\<rparr> else inn)"
proof -
  let ?b = "section_bytes ct cmd desc"
  have b: "?b = take 14 ?b @ cmd @ [of_nat (drop_bit 8 (length desc)), of_nat (length desc)] @ desc"
    and "length (take 14 ?b) = 14"
    by (simp_all add: section_bytes_def)
  then have "parse_command ct (command_info ct) \<lparr>rb = ?b, rpos = 14, rerr = False\<rparr> =
        Some (inn, \<lparr>rb = ?b, rpos = 14 + length cmd, rerr = False\<rparr>)"
    by (metis cmd)
  moreover have "len12 (?b ! 11) (?b ! 12) = length cmd"
    using len of_nat_len12 [of "length cmd" "0xF0"] by (simp add: section_bytes_nth)
  ultimately show ?thesis
    using len by (simp add: Parse_buildSection parse_body_eq length_section_bytes section_bytes_nth
        header_info_section parse_tail_section)
qed

lemma Parse_splice_null:
  "Parse (buildSection CmdSpliceNull [] [] @ stuffing) = Some (command_info CmdSpliceNull, None)"
  by (subst Parse_run [where inn = "command_info CmdSpliceNull"])
    (simp_all add: parse_command_def CmdSpliceNull_def CmdSpliceInsert_def CmdTimeSignal_def
      parse_descriptors_Nil command_info_def info0_def)

lemma Parse_splice_insert:
  assumes "Kind c = KindSpliceInsert"
  shows "Parse (buildSection CmdSpliceInsert (spliceInsertCmd c pts) [] @ stuffing) = Some (cue_info c pts, None)"
proof (subst Parse_run [where inn = "cue_info c pts"])
  show "length (spliceInsertCmd c pts) \<le> 20" by (simp add: length_spliceInsertCmd)
  show "parse_command CmdSpliceInsert (command_info CmdSpliceInsert)
      \<lparr>rb = pre @ spliceInsertCmd c pts @ post, rpos = 14, rerr = False\<rparr> =
    Some (cue_info c pts, \<lparr>rb = pre @ spliceInsertCmd c pts @ post,
        rpos = 14 + length (spliceInsertCmd c pts), rerr = False\<rparr>)" if "length pre = 14" for pre post
    using that assms by (simp add: parse_command_def parse_spliceInsertCmd)
qed (simp_all add: assms cue_info_def command_info_def info0_def mask33_take parse_descriptors_Nil)

lemma Parse_time_signal:
  assumes "length desc \<le> 24"
  shows "Parse (buildSection CmdTimeSignal (appendSpliceTime [] sp pts) desc @ stuffing) =
    parse_descriptors desc ((command_info CmdTimeSignal)\<lparr>in_TimeSpecified := sp,
       in_PTS := (if sp then take_bit 33 pts else 0)\<rparr>)"
    (is "_ = parse_descriptors desc ?inn")
proof (subst Parse_run [where inn = ?inn])
  show "length (appendSpliceTime [] sp pts) \<le> 20" by (simp add: appendSpliceTime_def Let_def)
  have "CmdTimeSignal \<noteq> CmdSpliceInsert" by (simp add: CmdTimeSignal_def CmdSpliceInsert_def)
  then show "parse_command CmdTimeSignal (command_info CmdTimeSignal)
      \<lparr>rb = pre @ appendSpliceTime [] sp pts @ post, rpos = 14, rerr = False\<rparr> =
    Some (?inn, \<lparr>rb = pre @ appendSpliceTime [] sp pts @ post,
        rpos = 14 + length (appendSpliceTime [] sp pts), rerr = False\<rparr>)" if "length pre = 14" for pre post
    using that by (simp add: parse_command_def parse_splice_time)
qed (simp_all add: assms command_info_def info0_def mask33_take)

lemma kinds_distinct:
  "KindSpliceNull \<noteq> KindSpliceInsert" "KindSpliceNull \<noteq> KindTimeSignal" "KindSpliceInsert \<noteq> KindTimeSignal"
  by (simp_all add: KindSpliceNull_def KindSpliceInsert_def KindTimeSignal_def)

text \<open>The three successful branches of \<^verbatim>\<open>Encode\<close>.\<close>

lemma Encode_cases:
  assumes "Encode c pts = Inr s"
  obtains (null) "Kind c = KindSpliceNull" "s = buildSection CmdSpliceNull [] []"
  | (insert) "Kind c = KindSpliceInsert" "s = buildSection CmdSpliceInsert (spliceInsertCmd c pts) []"
  | (signal) desc where "Kind c = KindTimeSignal"
      "desc = (if SegmentationTypeID c \<noteq> 0 then appendSegmentationDescriptor [] (EventID c) (SegmentationTypeID c)
         (msToTicks (DurationMs c)) (DurationMs c > 0) else [])" "length desc \<le> 24"
      "s = buildSection CmdTimeSignal (appendSpliceTime [] (\<not> Immediate c) pts) desc"
proof -
  have "length (appendSegmentationDescriptor [] ev ty d b) \<le> 24" for ev ty d b
    by (simp add: appendSegmentationDescriptor_def Let_def)
  then show thesis
    using assms that by (auto simp: Encode_def Let_def split: if_splits)
qed

lemma Parse_Encode:
  assumes "Encode c pts = Inr s"
  shows "Parse (s @ stuffing) = Some (cue_info c pts, None)"
  using assms
proof (cases rule: Encode_cases)
  case null
  then show ?thesis using kinds_distinct by (simp add: cue_info_def Parse_splice_null)
next
  case insert
  then show ?thesis by (simp add: Parse_splice_insert)
next
  case (signal desc)
  then have "Parse (s @ stuffing) = parse_descriptors desc ((command_info CmdTimeSignal)\<lparr>in_TimeSpecified := \<not> Immediate c,
       in_PTS := (if \<not> Immediate c then take_bit 33 pts else 0)\<rparr>)"
    by (simp only: Parse_time_signal)
  also have "\<dots> = Some (cue_info c pts, None)"
    using signal kinds_distinct
    by (simp add: parse_descriptors_Nil parse_descriptors_encoded cue_info_def command_info_def info0_def)
  finally show ?thesis .
qed

lemma framed_Encode: "Encode c pts = Inr s \<Longrightarrow> framed s"
proof (erule Encode_cases)
  assume "s = buildSection CmdSpliceInsert (spliceInsertCmd c pts) []"
  then show "framed s" by (simp add: framed_buildSection length_spliceInsertCmd)
next
  fix desc :: bytes
  assume "length desc \<le> 24"
    and s: "s = buildSection CmdTimeSignal (appendSpliceTime [] (\<not> Immediate c) pts) desc"
  moreover have "length (appendSpliceTime [] (\<not> Immediate c) pts) \<le> 5"
    by (simp add: appendSpliceTime_def Let_def)
  ultimately show "framed s"
    unfolding s by (intro framed_buildSection) linarith
qed (simp_all add: framed_buildSection)

text \<open>A damaged section: up to four consecutive bytes after the length field differ.\<close>

lemma Parse_burst:
  assumes fr: "framed (p @ u @ t)" and p: "3 \<le> length p"
    and uv: "length v = length u" "length u \<le> 4" "v \<noteq> u"
  shows "Parse (p @ v @ t @ stuffing) = Some (info0, Some ErrCRC)"
proof -
  let ?s = "p @ u @ t" and ?d = "p @ v @ t"
  have nth: "(?d @ stuffing) ! i = ?s ! i" if "i < 3" for i
    using that p by (simp add: nth_append)
  have len: "length ?d = length ?s" using uv by simp
  have "CRC32 ?d \<noteq> CRC32 ?s" using uv by (intro CRC32_burst) simp_all
  then have crc: "CRC32 ?d \<noteq> 0" using fr by (simp add: framed_def)
  have total: "3 + len12 ((?d @ stuffing) ! 1) ((?d @ stuffing) ! 2) = length ?d"
    using fr len by (simp only: nth framed_def)
  have "(?d @ stuffing) ! 0 = tableID" using fr nth [of 0] by (simp add: framed_def)
  with total crc fr len show ?thesis
    by (simp add: Parse_unfold Let_def framed_def)
qed

section \<open>Correctness of the section codec\<close>

text \<open>
  C5. Decoding an encoded cue gives the cue back: when \<^verbatim>\<open>Encode\<close> produces a section, \<^verbatim>\<open>Parse\<close>
  of it, with any bytes after it, reports no error and exactly the fields the cue and the PTS
  determine (command, event id, flags, splice time modulo 2^33, duration, avail fields,
  segmentation descriptor).
\<close>

theorem Parse_Encode_roundtrip:
  assumes "Encode c pts = Inr s"
  shows "Parse (s @ stuffing) = Some (cue_info c pts, None)"
  using assms by (rule Parse_Encode)

definition demoCue :: cue where
  "demoCue = \<lparr>Kind = KindTimeSignal, EventID = 9, OutOfNetwork = False, Immediate = False, PreRollMs = 0,
     DurationMs = 30000, UniqueProgramID = 0, AvailNum = 0, AvailsExpected = 0, SegmentationTypeID = 0x34\<rparr>"

theorem Parse_Encode_roundtrip_witness:
  "\<exists>s. Encode demoCue 8589934591 = Inr s \<and> Parse (s @ [0xFF, 0xFF]) = Some (cue_info demoCue 8589934591, None)"
proof -
  have "\<exists>s. Encode demoCue 8589934591 = Inr s"
    by (simp add: Encode_def Let_def demoCue_def KindSpliceNull_def KindSpliceInsert_def KindTimeSignal_def)
  then obtain s where s: "Encode demoCue 8589934591 = Inr s" ..
  from Parse_Encode_roundtrip [OF s] s show ?thesis by blast
qed

text \<open>
  C11. \<^verbatim>\<open>Parse\<close> never panics: on every byte string it returns a decoded section and an error
  value, no index or slice expression goes out of range.
\<close>

theorem Parse_never_panics: "\<exists>inn err. Parse s = Some (inn, err)"
  by (rule Parse_total)

text \<open>
  C25. A section with a correct checksum in which up to four consecutive bytes after the length
  field are changed is refused with \<^verbatim>\<open>ErrCRC\<close>, and nothing of it is reported.
\<close>

theorem Parse_refuses_bursts:
  assumes "framed (p @ u @ t)" "3 \<le> length p" "length v = length u" "length u \<le> 4" "v \<noteq> u"
  shows "Parse (p @ v @ t @ stuffing) = Some (info0, Some ErrCRC)"
  using assms by (rule Parse_burst)

theorem Parse_refuses_bursts_witness:
  "Parse (take 4 (buildSection CmdSpliceNull [] []) @ [0x01, 0x02] @ drop 6 (buildSection CmdSpliceNull [] [])) =
    Some (info0, Some ErrCRC)"
proof -
  let ?s = "buildSection CmdSpliceNull [] []"
  have f: "framed ?s" by (rule framed_buildSection) simp
  have s: "take 4 ?s @ [0x00, 0x00] @ drop 6 ?s = ?s"
    by (simp add: buildSection_eq appendCRC_def section_bytes_def)
  show ?thesis
    using Parse_refuses_bursts [of "take 4 ?s" "[0x00, 0x00]" "drop 6 ?s" "[0x01, 0x02]" "[]"] f
    unfolding s by (simp add: framed_def)
qed

end
