(* ===== verification/Scte35_TS.thy ===== *)
theory Scte35_TS
  imports Scte35_Section
begin

text \<open>
  \<^verbatim>\<open>streamhub-encoder/internal/scte35/ts.go\<close>: transport-stream packets (PID, payload offset,
  PCR, PES timestamps), PAT and PMT sections, the PMT rewrite that announces the SCTE-35 stream,
  packetisation of a section and the extraction of every SCTE-35 section of a stream.

  A packet is a 188-byte list. Its header bytes are read at constant offsets below 188; every
  other index into a packet or a section goes through the panicking operations of the prelude.
\<close>

section \<open>Packets\<close>

definition PacketSize :: nat where "PacketSize = 188"
definition syncByte :: byte where "syncByte = 0x47"
definition StreamTypeSCTE35 :: byte where "StreamTypeSCTE35 = 0x86"
definition stH264 :: byte where "stH264 = 0x1b"
definition stH265 :: byte where "stH265 = 0x24"

text \<open>
  The four accessors below read fixed offsets, at most 10, of a packet. Their callers cut the packet
  out of the stream with \<open>[o:o+PacketSize]\<close>, whose own bounds check is the \<open>None\<close> of the model,
  so the reads are in range and the accessors are total functions.
\<close>

definition pktPID :: "bytes \<Rightarrow> u16" where
  "pktPID p = pid13 (p ! 1) (p ! 2)"

definition pktPUSI :: "bytes \<Rightarrow> bool" where
  "pktPUSI p \<longleftrightarrow> p ! 1 AND 0x40 \<noteq> 0"

definition payloadOffset :: "bytes \<Rightarrow> nat option" where
  "payloadOffset p =
     (let afc = drop_bit 4 (p ! 3) AND 0x03 in
      if afc AND 0x01 = 0 then None
      else let off = 4; off = (if afc AND 0x02 \<noteq> 0 then off + 1 + unat (p ! 4) else off)
           in if off \<ge> PacketSize then None else Some off)"

definition pcrBase :: "bytes \<Rightarrow> u64 option" where
  "pcrBase p =
     (if p ! 3 AND 0x20 = 0 \<or> p ! 4 < 7 \<or> p ! 5 AND 0x10 = 0 then None
      else Some (push_bit 25 (ucast (p ! 6)) OR push_bit 17 (ucast (p ! 7)) OR push_bit 9 (ucast (p ! 8))
             OR push_bit 1 (ucast (p ! 9)) OR ucast (drop_bit 7 (p ! 10))))"

text \<open>Below, the outer option is the panic, the inner one the \<^verbatim>\<open>ok\<close> result.\<close>

definition pesPTS :: "bytes \<Rightarrow> u64 option option" where
  "pesPTS b =
     do { bad \<leftarrow> go_or (Some (length b < 14)) (go_or (test b 0 (\<lambda>x. x \<noteq> 0))
            (go_or (test b 1 (\<lambda>x. x \<noteq> 0)) (test b 2 (\<lambda>x. x \<noteq> 1))));
          if bad then Some None
          else do {
            bad \<leftarrow> go_or (test b 6 (\<lambda>x. x AND 0xC0 \<noteq> 0x80)) (test b 7 (\<lambda>x. x AND 0x80 = 0));
            if bad then Some None
            else do {
              t \<leftarrow> subslice b 9 14;
              t0 \<leftarrow> idx t 0; t1 \<leftarrow> idx t 1; t2 \<leftarrow> idx t 2; t3 \<leftarrow> idx t 3; t4 \<leftarrow> idx t 4;
              Some (Some (push_bit 30 (ucast (drop_bit 1 t0 AND 0x07)) OR push_bit 22 (ucast t1)
                OR push_bit 15 (ucast (drop_bit 1 t2)) OR push_bit 7 (ucast t3)
                OR ucast (drop_bit 1 t4))) } } }"

definition singleSection :: "bytes \<Rightarrow> byte \<Rightarrow> (nat \<times> nat) option option" where
  "singleSection p tid =
     (if \<not> pktPUSI p then Some None
      else case payloadOffset p of
        None \<Rightarrow> Some None
      | Some off \<Rightarrow>
          do { pf \<leftarrow> idx p off;
               let start = off + 1 + unat pf;
               if start + 3 > PacketSize then Some None
               else do {
                 t \<leftarrow> idx p start;
                 if t \<noteq> tid then Some None
                 else do {
                   hi \<leftarrow> idx p (start + 1);
                   lo \<leftarrow> idx p (start + 2);
                   let fin = start + 3 + len12 hi lo;
                   Some (if fin > PacketSize then None else Some (start, fin)) } } })"

section \<open>PAT and PMT\<close>

function pat_loop :: "bytes \<Rightarrow> nat \<Rightarrow> u16 option option" where
  "pat_loop sec p =
     (if p + 4 \<le> length sec - 4 then
        do { a \<leftarrow> idx sec p; b \<leftarrow> idx sec (p + 1);
             if (push_bit 8 (ucast a) OR ucast b :: u16) \<noteq> 0 then
               do { c \<leftarrow> idx sec (p + 2); d \<leftarrow> idx sec (p + 3); Some (Some (pid13 c d)) }
             else pat_loop sec (p + 4) }
      else Some None)"
  by pat_completeness auto
termination
  by (relation "measure (\<lambda>(sec, p). length sec - p)") auto

declare pat_loop.simps [simp del]

definition parsePAT :: "bytes \<Rightarrow> u16 option option" where
  "parsePAT sec =
     do { bad \<leftarrow> go_or (Some (length sec < 12)) (go_or (test sec 0 (\<lambda>x. x \<noteq> 0x00)) (Some (CRC32 sec \<noteq> 0)));
          if bad then Some None else pat_loop sec 8 }"

record esEntry =
  streamType :: byte
  es_pid :: u16

record pmtInfo =
  pm_pcrPID :: u16
  pm_videoPID :: u16
  pm_streams :: "esEntry list"
  pm_piLen :: nat
  pm_esStart :: nat
  pm_esEnd :: nat
  pm_hasCUEI :: bool

definition pmtInfo0 :: pmtInfo where
  "pmtInfo0 = \<lparr>pm_pcrPID = 0, pm_videoPID = 0, pm_streams = [], pm_piLen = 0, pm_esStart = 0,
     pm_esEnd = 0, pm_hasCUEI = False\<rparr>"

definition cuei :: bytes where
  "cuei = [0x43, 0x55, 0x45, 0x49]"

text \<open>The program_info walk: the CUEI flag and whether the descriptors are well formed.\<close>

function pi_loop :: "bytes \<Rightarrow> bool \<Rightarrow> (bool \<times> bool) option" where
  "pi_loop d has =
     (if length d \<ge> 2 then do {
        lb \<leftarrow> idx d 1; let l = unat lb;
        if 2 + l > length d then Some (has, False)
        else do {
          cue \<leftarrow> go_and (test d 0 (\<lambda>x. x = 0x05)) (go_and (Some (l \<ge> 4))
                  (do { nm \<leftarrow> subslice d 2 6; Some (nm = cuei) }));
          let has = (if cue then True else has);
          rest \<leftarrow> slice_from d (2 + l);
          pi_loop rest has } }
      else Some (has, True))"
  by pat_completeness auto
termination
  by (relation "measure (\<lambda>(d, has). length d)") (auto simp: slice_from_def split: if_splits)

declare pi_loop.simps [simp del]

text \<open>The elementary-stream walk: the final offset and the extended table.\<close>

function es_loop :: "bytes \<Rightarrow> nat \<Rightarrow> nat \<Rightarrow> pmtInfo \<Rightarrow> (nat \<times> pmtInfo) option" where
  "es_loop sec esEnd p pi =
     (if p + 5 \<le> esEnd then
        do { st \<leftarrow> idx sec p; p1 \<leftarrow> idx sec (p + 1); p2 \<leftarrow> idx sec (p + 2);
             let e = \<lparr>streamType = st, es_pid = pid13 p1 p2\<rparr>;
             let pi = pi\<lparr>pm_streams := pm_streams pi @ [e]\<rparr>;
             let pi = (if pm_videoPID pi = 0 \<and> (st = stH264 \<or> st = stH265)
                       then pi\<lparr>pm_videoPID := es_pid e\<rparr> else pi);
             p3 \<leftarrow> idx sec (p + 3); p4 \<leftarrow> idx sec (p + 4);
             es_loop sec esEnd (p + (5 + len12 p3 p4)) pi }
      else Some (p, pi))"
  by pat_completeness auto
termination
  by (relation "measure (\<lambda>(sec, esEnd, p, pi). esEnd - p)") auto

declare es_loop.simps [simp del]

definition parsePMT :: "bytes \<Rightarrow> (pmtInfo \<times> bool) option" where
  "parsePMT sec =
     do { bad \<leftarrow> go_or (Some (length sec < 16)) (go_or (test sec 0 (\<lambda>x. x \<noteq> 0x02)) (Some (CRC32 sec \<noteq> 0)));
          if bad then Some (pmtInfo0, False)
          else do {
            s8 \<leftarrow> idx sec 8; s9 \<leftarrow> idx sec 9; s10 \<leftarrow> idx sec 10; s11 \<leftarrow> idx sec 11;
            let piLen = len12 s10 s11;
            let pi = pmtInfo0\<lparr>pm_pcrPID := pid13 s8 s9, pm_piLen := piLen,
                       pm_esStart := 12 + piLen, pm_esEnd := length sec - 4\<rparr>;
            if pm_esStart pi > pm_esEnd pi then Some (pi, False)
            else do { d \<leftarrow> subslice sec 12 (pm_esStart pi);
                      (has, ok) \<leftarrow> pi_loop d False;
                      let pi = pi\<lparr>pm_hasCUEI := has\<rparr>;
                      if \<not> ok then Some (pi, False)
                      else do { (p, pi) \<leftarrow> es_loop sec (pm_esEnd pi) (pm_esStart pi) pi;
                                Some (pi, p = pm_esEnd pi) } } } }"

text \<open>The rewritten section, before its checksum.\<close>

definition rewritten_section :: "bytes \<Rightarrow> pmtInfo \<Rightarrow> u16 \<Rightarrow> bytes option" where
  "rewritten_section sec pi pid =
     do { hdr \<leftarrow> subslice sec 0 12;
          prog \<leftarrow> subslice sec 12 (pm_esStart pi);
          let ns = hdr @ prog;
          let piLen = pm_piLen pi;
          let (ns, piLen) = (if \<not> pm_hasCUEI pi then (ns @ [0x05, 0x04, 0x43, 0x55, 0x45, 0x49], piLen + 6)
                             else (ns, piLen));
          es \<leftarrow> subslice sec (pm_esStart pi) (pm_esEnd pi);
          let ns = ns @ es;
          let ns = ns @ [StreamTypeSCTE35, 0xE0 OR (byte_of (drop_bit 8 pid) AND 0x1F), byte_of pid,
                         0xF0, 0x06, 0x05, 0x04, 0x43, 0x55, 0x45, 0x49];
          let secLen = length ns - 3 + 4;
          s1 \<leftarrow> idx sec 1;
          ns \<leftarrow> upd ns 1 ((s1 AND 0xF0) OR (of_nat (drop_bit 8 secLen) AND 0x0F));
          ns \<leftarrow> upd ns 2 (of_nat secLen);
          s5 \<leftarrow> idx sec 5;
          let version = (drop_bit 1 s5 + 1) AND 0x1F;
          ns \<leftarrow> upd ns 5 ((s5 AND 0xC1) OR push_bit 1 version);
          s10 \<leftarrow> idx sec 10;
          ns \<leftarrow> upd ns 10 ((s10 AND 0xF0) OR (of_nat (drop_bit 8 piLen) AND 0x0F));
          upd ns 11 (of_nat piLen) }"

text \<open>The rebuilt packet around the new section \<open>ns\<close>; the inner \<open>None\<close> when it does not fit.\<close>

definition rebuilt_packet :: "bytes \<Rightarrow> nat \<Rightarrow> bytes \<Rightarrow> bytes option option" where
  "rebuilt_packet p off ns =
     do { let np = replicate PacketSize 0;
          h \<leftarrow> subslice p 0 4;
          let np = copy_at np 0 h;
          flags \<leftarrow> go_and (Some (off > 5)) (test p 5 (\<lambda>x. x \<noteq> 0));
          (np, pos) \<leftarrow>
            (if flags then do { dst \<leftarrow> subslice np 4 off; af \<leftarrow> subslice p 4 off;
                                Some (copy_at np 4 (take (length dst) af), off) }
             else do { x \<leftarrow> idx np 3; np \<leftarrow> upd np 3 ((x AND 0xCF) OR 0x10); Some (np, 4) });
          if pos + 1 + length ns > PacketSize then Some None
          else do { np \<leftarrow> upd np pos 0;
                    dst \<leftarrow> slice_from np (pos + 1);
                    let n = min (length dst) (length ns);
                    let np = copy_at np (pos + 1) ns;
                    Some (Some (take (pos + 1 + n) np @ replicate (PacketSize - (pos + 1 + n)) 0xFF)) } }"

definition rewritePMT :: "bytes \<Rightarrow> u16 \<Rightarrow> (bytes option \<times> pmtInfo \<times> bool) option" where
  "rewritePMT p pid =
     do { se \<leftarrow> singleSection p 0x02;
          (case se of
             None \<Rightarrow> Some (None, pmtInfo0, False)
           | Some (start, fin) \<Rightarrow>
               do { sec \<leftarrow> subslice p start fin;
                    (pi, ok) \<leftarrow> parsePMT sec;
                    if \<not> ok then Some (None, pi, False)
                    else if list_ex (\<lambda>e. es_pid e = pid) (pm_streams pi) then Some (None, pi, True)
                    else do {
                      rest \<leftarrow> slice_from p fin;
                      if list_ex (\<lambda>b. b \<noteq> 0xFF) rest then Some (None, pi, True)
                      else do {
                        ns \<leftarrow> rewritten_section sec pi pid;
                        let ns = appendCRC ns;
                        let off = (case payloadOffset p of Some off \<Rightarrow> off | None \<Rightarrow> 0);
                        np \<leftarrow> rebuilt_packet p off ns;
                        Some (np, pi, True) } } }) }"

section \<open>Packetisation\<close>

function packetize_loop :: "bytes \<Rightarrow> bytes \<Rightarrow> u16 \<Rightarrow> byte \<Rightarrow> bool \<Rightarrow> bytes \<times> byte" where
  "packetize_loop dst payload pid cc first =
     (if length payload > 0 then
        let h1 = byte_of (drop_bit 8 pid) AND 0x1F;
            h1 = (if first then h1 OR 0x40 else h1);
            h = [syncByte, h1, byte_of pid, 0x10 OR (cc AND 0x0F)];
            cc = (cc + 1) AND 0x0F;
            n = min (length payload) (PacketSize - 4);
            dst = dst @ h @ take n payload @ replicate (PacketSize - 4 - n) 0xFF
        in packetize_loop dst (drop n payload) pid cc False
      else (dst, cc))"
  by pat_completeness auto
termination
  by (relation "measure (\<lambda>(dst, payload, pid, cc, first). length payload)") (auto simp: PacketSize_def)

declare packetize_loop.simps [simp del]

definition packetize :: "bytes \<Rightarrow> bytes \<Rightarrow> u16 \<Rightarrow> byte \<Rightarrow> bytes \<times> byte" where
  "packetize dst sect pid cc = packetize_loop dst (0x00 # sect) pid cc True"

section \<open>Extraction\<close>

function sync_loop :: "bytes \<Rightarrow> nat \<Rightarrow> nat option" where
  "sync_loop ts i =
     (if i < PacketSize \<and> i < length ts then
        do { b \<leftarrow> idx ts i;
             if b \<noteq> syncByte then sync_loop ts (i + 1)
             else if i + PacketSize \<ge> length ts then Some i
             else do { b2 \<leftarrow> idx ts (i + PacketSize);
                       if b2 = syncByte then Some i else sync_loop ts (i + 1) } }
      else Some 0)"
  by pat_completeness auto
termination
  by (relation "measure (\<lambda>(ts, i). length ts - i)") auto

declare sync_loop.simps [simp del]

definition syncOffset :: "bytes \<Rightarrow> nat option" where
  "syncOffset ts = sync_loop ts 0"

text \<open>The packet list of \<^verbatim>\<open>ExtractSections\<close>.\<close>

function collect_packets :: "bytes \<Rightarrow> nat \<Rightarrow> bytes list option" where
  "collect_packets ts i =
     (if i + PacketSize \<le> length ts then do {
        p \<leftarrow> subslice ts i (i + PacketSize);
        good \<leftarrow> go_and (test p 0 (\<lambda>x. x = syncByte)) (test p 1 (\<lambda>x. x AND 0x80 = 0));
        ps \<leftarrow> collect_packets ts (i + PacketSize);
        Some (if good then p # ps else ps) }
      else Some [])"
  by pat_completeness auto
termination
  by (relation "measure (\<lambda>(ts, i). length ts - i)") (auto simp: PacketSize_def)

declare collect_packets.simps [simp del]

text \<open>The packets of a stream from an offset on that are in sync and carry no transport error.\<close>

function packets_from :: "bytes \<Rightarrow> nat \<Rightarrow> bytes list" where
  "packets_from ts i =
     (if i + PacketSize \<le> length ts then
        let p = take PacketSize (drop i ts) in
        if p ! 0 = syncByte \<and> p ! 1 AND 0x80 = 0 then p # packets_from ts (i + PacketSize)
        else packets_from ts (i + PacketSize)
      else [])"
  by pat_completeness auto
termination
  by (relation "measure (\<lambda>(ts, i). length ts - i)") (auto simp: PacketSize_def)

declare packets_from.simps [simp del]

text \<open>Pass 1a: the PMT PID of the first valid PAT.\<close>

fun first_pat :: "bytes list \<Rightarrow> u16 option option" where
  "first_pat [] = Some None"
| "first_pat (p # ps) =
     (if pktPID p = 0 then
        do { se \<leftarrow> singleSection p 0x00;
             (case se of
                None \<Rightarrow> first_pat ps
              | Some (s, e) \<Rightarrow>
                  do { sec \<leftarrow> subslice p s e;
                       v \<leftarrow> parsePAT sec;
                       (case v of Some v \<Rightarrow> Some (Some v) | None \<Rightarrow> first_pat ps) }) }
      else first_pat ps)"

text \<open>Pass 1b: the PIDs announced with stream_type 0x86 by the valid PMTs, and whether there was
  one.\<close>

definition scte_streams :: "(u16 \<Rightarrow> bool) \<Rightarrow> esEntry list \<Rightarrow> u16 \<Rightarrow> bool" where
  "scte_streams scte es =
     foldl (\<lambda>scte e. if streamType e = StreamTypeSCTE35 then scte(es_pid e := True) else scte) scte es"

fun scan_pmts :: "u16 \<Rightarrow> bytes list \<Rightarrow> (u16 \<Rightarrow> bool) \<Rightarrow> bool \<Rightarrow> ((u16 \<Rightarrow> bool) \<times> bool) option" where
  "scan_pmts pmtPID [] scte gotPMT = Some (scte, gotPMT)"
| "scan_pmts pmtPID (p # ps) scte gotPMT =
     (if pktPID p \<noteq> pmtPID then scan_pmts pmtPID ps scte gotPMT
      else do {
        se \<leftarrow> singleSection p 0x02;
        (case se of
           None \<Rightarrow> scan_pmts pmtPID ps scte gotPMT
         | Some (s, e) \<Rightarrow>
             do { sec \<leftarrow> subslice p s e;
                  (pi, ok) \<leftarrow> parsePMT sec;
                  if ok then scan_pmts pmtPID ps (scte_streams scte (pm_streams pi)) True
                  else scan_pmts pmtPID ps scte gotPMT }) })"

record asm =
  as_buf :: bytes
  as_active :: bool
  as_cc :: int

record extraction =
  ex_state :: "u16 \<Rightarrow> asm option"
  ex_out :: "info list"
  ex_errs :: "(u16 \<times> scte_error) list"

definition asm_reset :: "asm \<Rightarrow> asm" where
  "asm_reset a = a\<lparr>as_buf := [], as_active := False\<rparr>"

text \<open>\<^verbatim>\<open>emit\<close>: decode every complete section at the front of the buffer.\<close>

function emit :: "u16 \<Rightarrow> asm \<Rightarrow> info list \<Rightarrow> (u16 \<times> scte_error) list
    \<Rightarrow> (asm \<times> info list \<times> (u16 \<times> scte_error) list) option" where
  "emit pid a out errs =
     do { more \<leftarrow> go_and (Some (length (as_buf a) > 0)) (test (as_buf a) 0 (\<lambda>x. x \<noteq> 0xFF));
          if more then
            if length (as_buf a) < 3 then Some (a, out, errs)
            else do {
              b1 \<leftarrow> idx (as_buf a) 1; b2 \<leftarrow> idx (as_buf a) 2;
              let total = 3 + len12 b1 b2;
              if length (as_buf a) < total then Some (a, out, errs)
              else do {
                sec \<leftarrow> subslice (as_buf a) 0 total;
                (inn, err) \<leftarrow> Parse sec;
                rest \<leftarrow> slice_from (as_buf a) total;
                let a = a\<lparr>as_buf := rest\<rparr>;
                (case err of
                   Some e \<Rightarrow> emit pid a out (errs @ [(pid, e)])
                 | None \<Rightarrow> emit pid a (out @ [inn\<lparr>in_PID := pid\<rparr>]) errs) } }
          else Some (asm_reset a, out, errs) }"
  by pat_completeness auto
termination
  by (relation "measure (\<lambda>(pid, a, out, errs). length (as_buf a))")
    (auto simp: slice_from_def split: if_splits)

declare emit.simps [simp del]

definition put_asm :: "u16 \<Rightarrow> extraction \<Rightarrow> asm \<times> info list \<times> (u16 \<times> scte_error) list \<Rightarrow> extraction" where
  "put_asm pid x r =
     (case r of (a, out, errs) \<Rightarrow>
        \<lparr>ex_state = (ex_state x)(pid \<mapsto> a), ex_out = out, ex_errs = errs\<rparr>)"

text \<open>The assembler of a PID, created on first use, after the continuity check for \<open>cc\<close>.\<close>

definition asm_for :: "extraction \<Rightarrow> u16 \<Rightarrow> int \<Rightarrow> asm" where
  "asm_for x pid cc =
     (let a = (case ex_state x pid of Some a \<Rightarrow> a
               | None \<Rightarrow> \<lparr>as_buf = [], as_active = False, as_cc = -1\<rparr>);
          a = (if as_cc a \<ge> 0 \<and> cc \<noteq> (as_cc a + 1) AND 0x0F then asm_reset a else a)
      in a\<lparr>as_cc := cc\<rparr>)"

text \<open>Pass 2, one packet.\<close>

definition extract_packet :: "(u16 \<Rightarrow> bool) \<Rightarrow> extraction \<Rightarrow> bytes \<Rightarrow> extraction option" where
  "extract_packet scte x p =
     (let pid = pktPID p in
      if \<not> scte pid then Some x
      else case payloadOffset p of
        None \<Rightarrow> Some x
      | Some off \<Rightarrow>
          let a = asm_for x pid (int (unat (p ! 3 AND 0x0F)))
          in do {
            pl \<leftarrow> slice_from p off;
            if pktPUSI p then do {
              b0 \<leftarrow> idx pl 0;
              let ptr = unat b0;
              if 1 + ptr > length pl then Some (put_asm pid x (asm_reset a, ex_out x, ex_errs x))
              else do {
                (a, out, errs) \<leftarrow>
                  (if as_active a then do {
                     before \<leftarrow> subslice pl 1 (1 + ptr);
                     emit pid (a\<lparr>as_buf := as_buf a @ before\<rparr>) (ex_out x) (ex_errs x) }
                   else Some (a, ex_out x, ex_errs x));
                after \<leftarrow> slice_from pl (1 + ptr);
                r \<leftarrow> emit pid (a\<lparr>as_buf := after, as_active := True\<rparr>) out errs;
                Some (put_asm pid x r) } }
            else if as_active a then do {
              r \<leftarrow> emit pid (a\<lparr>as_buf := as_buf a @ pl\<rparr>) (ex_out x) (ex_errs x);
              Some (put_asm pid x r) }
            else Some (put_asm pid x (a, ex_out x, ex_errs x)) })"

fun extract_packets :: "(u16 \<Rightarrow> bool) \<Rightarrow> extraction \<Rightarrow> bytes list \<Rightarrow> extraction option" where
  "extract_packets scte x [] = Some x"
| "extract_packets scte x (p # ps) =
     do { x \<leftarrow> extract_packet scte x p; extract_packets scte x ps }"

datatype extract_error = ErrNoPMT | JoinedErrs "(u16 \<times> scte_error) list"

definition extraction0 :: extraction where
  "extraction0 = \<lparr>ex_state = (\<lambda>_. None), ex_out = [], ex_errs = []\<rparr>"

definition ExtractSections :: "bytes \<Rightarrow> (info list \<times> extract_error option) option" where
  "ExtractSections ts =
     do { start \<leftarrow> syncOffset ts;
          pkts \<leftarrow> collect_packets ts start;
          pat \<leftarrow> first_pat pkts;
          (scte, gotPMT) \<leftarrow>
            (case pat of
               Some pmtPID \<Rightarrow> scan_pmts pmtPID pkts (\<lambda>_. False) False
             | None \<Rightarrow> Some ((\<lambda>_. False), False));
          if \<not> gotPMT then Some ([], Some ErrNoPMT)
          else do {
            x \<leftarrow> extract_packets scte extraction0 pkts;
            Some (ex_out x, if ex_errs x = [] then None else Some (JoinedErrs (ex_errs x))) } }"

section \<open>The code never panics\<close>

lemma payloadOffset_bounds:
  "payloadOffset p = Some off \<Longrightarrow> 4 \<le> off \<and> off < PacketSize"
  by (auto simp: payloadOffset_def Let_def split: if_splits)

lemma singleSection_total [go_safe]:
  assumes "length p = PacketSize"
  shows "\<exists>r. singleSection p tid = Some r"
proof (cases "payloadOffset p")
  case (Some off)
  with payloadOffset_bounds assms have "off < length p" by metis
  then show ?thesis
    using Some assms by (simp add: singleSection_def Let_def)
qed (simp add: singleSection_def)

lemma singleSection_bounds:
  assumes "singleSection p tid = Some (Some (s, e))" "length p = PacketSize"
  shows "s + 3 \<le> e" "e \<le> PacketSize" "p ! s = tid" "e = s + 3 + len12 (p ! (s + 1)) (p ! (s + 2))"
  using assms by (auto simp: singleSection_def Let_def idx_eq_Some_iff
      split: if_splits option.splits bind_splits)

lemma pat_loop_total [go_safe]: "\<exists>r. pat_loop sec p = Some r"
  by (induction sec p rule: pat_loop.induct) (subst pat_loop.simps, simp)

lemma parsePAT_total [go_safe]: "\<exists>r. parsePAT sec = Some r"
proof -
  have "returns (pat_loop sec 8)" by (simp add: returns_iff pat_loop_total)
  then have "returns (parsePAT sec)"
    unfolding parsePAT_def by (intro returns_intros) auto
  then show ?thesis by (simp add: returns_iff)
qed

text \<open>\<^verbatim>\<open>pesPTS\<close> returns on every slice: its first guard keeps the reads that follow in range.\<close>

lemma pesPTS_unfold:
  "pesPTS b =
     Some (if length b < 14 \<or> b ! 0 \<noteq> 0 \<or> b ! 1 \<noteq> 0 \<or> b ! 2 \<noteq> 1 then None
      else if b ! 6 AND 0xC0 \<noteq> 0x80 \<or> b ! 7 AND 0x80 = 0 then None
      else Some (push_bit 30 (ucast (drop_bit 1 (b ! 9) AND 0x07)) OR push_bit 22 (ucast (b ! 10))
             OR push_bit 15 (ucast (drop_bit 1 (b ! 11))) OR push_bit 7 (ucast (b ! 12))
             OR ucast (drop_bit 1 (b ! 13))))"
proof (cases "length b < 14")
  case False
  then have r: "test b 0 P = Some (P (b ! 0))" "test b 1 P = Some (P (b ! 1))" "test b 2 P = Some (P (b ! 2))"
    "test b 6 P = Some (P (b ! 6))" "test b 7 P = Some (P (b ! 7))" "subslice b 9 14 = Some (take 5 (drop 9 b))" for P
    by (auto simp: test_def idx_def)
  have t: "idx (take 5 (drop 9 b)) 0 = Some (b ! 9)" "idx (take 5 (drop 9 b)) 1 = Some (b ! 10)"
    "idx (take 5 (drop 9 b)) 2 = Some (b ! 11)" "idx (take 5 (drop 9 b)) 3 = Some (b ! 12)"
    "idx (take 5 (drop 9 b)) 4 = Some (b ! 13)"
    using False by (auto simp: idx_def)
  show ?thesis
    unfolding pesPTS_def r using False by (simp only: go_or_simps bind.bind_lunit t simp_thms split: if_split) blast
qed (simp add: pesPTS_def)

lemma pesPTS_returns [returns_intros]: "returns (pesPTS b)"
  unfolding pesPTS_unfold by (rule returns_Some)

text \<open>The section a valid \<^verbatim>\<open>PMT\<close> gives is read in range.\<close>

lemma pi_loop_returns [returns_intros]: "returns (pi_loop d has)"
proof (induction "length d" arbitrary: d has rule: less_induct)
  case less
  show ?case
  proof (cases "length d \<ge> 2")
    case True
    have "returns (pi_loop (drop (2 + n) d) h)" for n h using less True by simp
    moreover have "returns (go_and (test d 0 (\<lambda>x. x = 0x05)) (go_and (Some (n \<ge> 4))
        (do { nm \<leftarrow> subslice d 2 6; Some (nm = cuei) })))" if "2 + n \<le> length d" for n
      using True that by (intro returns_intros) auto
    ultimately show ?thesis
      using True by (subst pi_loop.simps) (auto simp: slice_from_def Let_def intro!: returns_intros)
  qed (simp add: pi_loop.simps returns_Some)
qed

lemma es_loop_total:
  "en \<le> length sec \<Longrightarrow> \<exists>p' pi'. es_loop sec en p pi = Some (p', pi')"
proof (induction sec en p pi rule: es_loop.induct)
  case (1 sec en p pi)
  then show ?case
    by (subst es_loop.simps) (simp add: Let_def)
qed

lemma parsePMT_unfold:
  "parsePMT sec =
     (if length sec < 16 \<or> sec ! 0 \<noteq> 0x02 \<or> CRC32 sec \<noteq> 0 then Some (pmtInfo0, False)
      else
        let piLen = len12 (sec ! 10) (sec ! 11);
            pi = pmtInfo0\<lparr>pm_pcrPID := pid13 (sec ! 8) (sec ! 9), pm_piLen := piLen,
                   pm_esStart := 12 + piLen, pm_esEnd := length sec - 4\<rparr>
        in if pm_esStart pi > pm_esEnd pi then Some (pi, False)
           else do { d \<leftarrow> subslice sec 12 (pm_esStart pi);
                     (has, ok) \<leftarrow> pi_loop d False;
                     let pi = pi\<lparr>pm_hasCUEI := has\<rparr>;
                     if \<not> ok then Some (pi, False)
                     else do { (p, pi) \<leftarrow> es_loop sec (pm_esEnd pi) (pm_esStart pi) pi;
                               Some (pi, p = pm_esEnd pi) } })"
proof (cases "length sec < 16")
  case False
  then have i: "idx sec 8 = Some (sec ! 8)" "idx sec 9 = Some (sec ! 9)" "idx sec 10 = Some (sec ! 10)"
    "idx sec 11 = Some (sec ! 11)" "test sec 0 (\<lambda>x. x \<noteq> 0x02) = Some (sec ! 0 \<noteq> 0x02)"
    by (auto simp: idx_def test_def)
  show ?thesis
    using False unfolding parsePMT_def i by (simp only: go_or_simps bind.bind_lunit Let_def if_False simp_thms)
qed (simp add: parsePMT_def)

lemma parsePMT_total [go_safe]: "\<exists>pi ok. parsePMT sec = Some (pi, ok)"
proof -
  have "returns (es_loop sec (length sec - 4) p pi)" for p pi
    using es_loop_total [of "length sec - 4" sec p pi] by (auto simp: returns_def)
  then have "returns (parsePMT sec)"
    unfolding parsePMT_unfold by (intro returns_intros) auto
  then show ?thesis by (simp add: returns_iff)
qed

text \<open>The section \<^verbatim>\<open>rewritePMT\<close> builds from a parsed one, as a function of its bytes.\<close>

definition rewritten_bytes :: "bytes \<Rightarrow> pmtInfo \<Rightarrow> u16 \<Rightarrow> bytes" where
  "rewritten_bytes sec pi pid =
     (let ns = take 12 sec;
          ns = ns @ take (pm_esStart pi - 12) (drop 12 sec);
          piLen = pm_piLen pi;
          (ns, piLen) = (if \<not> pm_hasCUEI pi then (ns @ [0x05, 0x04, 0x43, 0x55, 0x45, 0x49], piLen + 6) else (ns, piLen));
          ns = ns @ take (pm_esEnd pi - pm_esStart pi) (drop (pm_esStart pi) sec);
          ns = ns @ [StreamTypeSCTE35, 0xE0 OR (byte_of (drop_bit 8 pid) AND 0x1F), byte_of pid,
                     0xF0, 0x06, 0x05, 0x04, 0x43, 0x55, 0x45, 0x49];
          secLen = length ns - 3 + 4;
          ns = ns[1 := (sec ! 1 AND 0xF0) OR (of_nat (drop_bit 8 secLen) AND 0x0F)];
          ns = ns[2 := of_nat secLen];
          version = (drop_bit 1 (sec ! 5) + 1) AND 0x1F;
          ns = ns[5 := (sec ! 5 AND 0xC1) OR push_bit 1 version];
          ns = ns[10 := (sec ! 10 AND 0xF0) OR (of_nat (drop_bit 8 piLen) AND 0x0F)];
          ns = ns[11 := of_nat piLen]
      in ns)"

text \<open>The packet around the new section \<open>ns\<close>; \<open>None\<close> when it does not fit.\<close>

definition rebuilt_bytes :: "bytes \<Rightarrow> nat \<Rightarrow> bytes \<Rightarrow> bytes option" where
  "rebuilt_bytes p off ns =
     (let np = replicate PacketSize 0;
          np = copy_at np 0 (take 4 p);
          (np, pos) = (if off > 5 \<and> p ! 5 \<noteq> 0
                       then (copy_at np 4 (take (off - 4) (drop 4 p)), off)
                       else (np[3 := (np ! 3 AND 0xCF) OR 0x10], 4))
      in if pos + 1 + length ns > PacketSize then None
         else let np = np[pos := 0];
                  np = copy_at np (pos + 1) ns
              in Some (take (pos + 1 + length ns) np @ replicate (PacketSize - (pos + 1 + length ns)) 0xFF))"

lemma rewritten_section_bytes:
  assumes "16 \<le> length sec" "12 \<le> pm_esStart pi" "pm_esStart pi \<le> pm_esEnd pi" "pm_esEnd pi \<le> length sec"
  shows "rewritten_section sec pi pid = Some (rewritten_bytes sec pi pid)"
proof -
  have s: "subslice sec 0 12 = Some (take 12 sec)" "subslice sec 12 (pm_esStart pi) = Some (take (pm_esStart pi - 12) (drop 12 sec))"
    "subslice sec (pm_esStart pi) (pm_esEnd pi) = Some (take (pm_esEnd pi - pm_esStart pi) (drop (pm_esStart pi) sec))"
    "idx sec 1 = Some (sec ! 1)" "idx sec 5 = Some (sec ! 5)" "idx sec 10 = Some (sec ! 10)"
    using assms by simp_all
  have l: "12 \<le> length (take 12 sec @ xs)" for xs using assms by simp
  have u: "upd ns 1 v = Some (ns[1 := v])" "upd ns 2 v = Some (ns[2 := v])" "upd ns 5 v = Some (ns[5 := v])"
    "upd ns 10 v = Some (ns[10 := v])" "upd ns 11 v = Some (ns[11 := v])"
    if "12 \<le> length ns" for ns :: bytes and v
    using that by (simp_all add: upd_def)
  show ?thesis
    unfolding rewritten_section_def rewritten_bytes_def s Let_def
    by (cases "pm_hasCUEI pi")
      (simp_all only: bind.bind_lunit prod.case append_assoc u l length_list_update simp_thms if_True if_False)
qed

lemma rebuilt_packet_bytes:
  assumes "length p = PacketSize" "4 \<le> off" "off < PacketSize"
  shows "rebuilt_packet p off ns = Some (rebuilt_bytes p off ns)"
proof -
  let ?np = "copy_at (replicate PacketSize 0) 0 (take 4 p)"
  have l: "length ?np = PacketSize" by (rule trans [OF length_copy_at]) (use assms in \<open>simp_all add: PacketSize_def\<close>)
  have l4: "length (copy_at ?np 4 (take (off - 4) (drop 4 p))) = PacketSize"
    by (rule trans [OF length_copy_at]) (use assms l in \<open>simp_all\<close>)
  have r: "subslice p 0 4 = Some (take 4 p)" "subslice p 4 off = Some (take (off - 4) (drop 4 p))"
    "go_and (Some (off > 5)) (test p 5 (\<lambda>x. x \<noteq> 0)) = Some (off > 5 \<and> p ! 5 \<noteq> 0)"
    "subslice ?np 4 off = Some (take (off - 4) (drop 4 ?np))" "idx ?np 3 = Some (?np ! 3)"
    using assms l by (simp_all add: PacketSize_def)
  have fill: "(if pos + 1 + length ns > PacketSize then Some None
       else do { np \<leftarrow> upd np pos 0; dst \<leftarrow> slice_from np (pos + 1);
                 Some (Some (take (pos + 1 + min (length dst) (length ns)) (copy_at np (pos + 1) ns) @
                   replicate (PacketSize - (pos + 1 + min (length dst) (length ns))) 0xFF)) }) =
      Some (if pos + 1 + length ns > PacketSize then None
        else Some (take (pos + 1 + length ns) (copy_at (np[pos := 0]) (pos + 1) ns) @
               replicate (PacketSize - (pos + 1 + length ns)) 0xFF))"
    if "length np = PacketSize" "pos < PacketSize" for np pos
    using that by (simp add: min_def)
  have t: "take (length (take (off - 4) (drop 4 ?np))) (take (off - 4) (drop 4 p)) = take (off - 4) (drop 4 p)"
    using assms l by simp
  show ?thesis
  proof (cases "off > 5 \<and> p ! 5 \<noteq> 0")
    case True
    show ?thesis
      unfolding rebuilt_packet_def rebuilt_bytes_def Let_def r bind.bind_lunit t if_P [OF True] prod.case
      by (rule fill [OF l4 assms(3)])
  next
    case False
    have "3 < length ?np" using l by (simp add: PacketSize_def)
    then have u: "upd ?np 3 v = Some (?np[3 := v])" for v by (rule upd_Some)
    show ?thesis
      unfolding rebuilt_packet_def rebuilt_bytes_def Let_def r bind.bind_lunit if_not_P [OF False] prod.case u
      by (intro fill) (simp_all add: l PacketSize_def)
  qed
qed

lemma sync_loop_total [go_safe]: "\<exists>i'. sync_loop ts i = Some i'"
  by (induction ts i rule: sync_loop.induct) (subst sync_loop.simps, simp)

lemma collect_packets_eq: "collect_packets ts i = Some (packets_from ts i)"
proof (induction ts i rule: packets_from.induct)
  case (1 ts i)
  show ?case
  proof (cases "i + PacketSize \<le> length ts")
    case True
    let ?p = "take PacketSize (drop i ts)"
    have "length ?p = PacketSize" using True by simp
    then have "test ?p 0 P = Some (P (?p ! 0))" "test ?p 1 P = Some (P (?p ! 1))" for P
      by (simp_all only: test_Some PacketSize_def)
    moreover have "collect_packets ts (i + PacketSize) = Some (packets_from ts (i + PacketSize))"
      using 1 True by metis
    ultimately show ?thesis
      using True by (subst collect_packets.simps, subst packets_from.simps) (simp add: Let_def)
  qed (simp add: collect_packets.simps packets_from.simps)
qed

lemma packets_from_length: "p \<in> set (packets_from ts i) \<Longrightarrow> length p = PacketSize"
  by (induction ts i rule: packets_from.induct)
    (subst (asm) packets_from.simps, auto simp: Let_def split: if_splits)

lemma first_pat_total [go_safe]:
  "(\<And>p. p \<in> set ps \<Longrightarrow> length p = PacketSize) \<Longrightarrow> \<exists>r. first_pat ps = Some r"
proof (induction ps)
  case (Cons p ps)
  then obtain r where r: "first_pat ps = Some r" by auto
  obtain q where q: "singleSection p 0x00 = Some q"
    using singleSection_total Cons.prems by force
  show ?case
  proof (cases q)
    case (Some se)
    obtain s e where se: "se = (s, e)" by fastforce
    have b: "s \<le> e" "e \<le> length p"
      using singleSection_bounds [of p "0x00" s e] q Some se Cons.prems [of p] by auto
    obtain v where "parsePAT (take (e - s) (drop s p)) = Some v" using parsePAT_total by blast
    then show ?thesis using q r Some se b by (auto split: option.splits)
  qed (simp add: q r)
qed simp

lemma scan_pmts_total [go_safe]:
  "(\<And>p. p \<in> set ps \<Longrightarrow> length p = PacketSize) \<Longrightarrow> \<exists>scte' got'. scan_pmts v ps scte got = Some (scte', got')"
proof (induction ps arbitrary: scte got)
  case (Cons p ps)
  then have r: "\<exists>scte' got'. scan_pmts v ps scte got = Some (scte', got')" for scte got by auto
  obtain q where q: "singleSection p 0x02 = Some q"
    using singleSection_total Cons.prems by force
  show ?case
  proof (cases q)
    case (Some se)
    obtain s e where se: "se = (s, e)" by fastforce
    have b: "s \<le> e" "e \<le> length p"
      using singleSection_bounds [of p "0x02" s e] q Some se Cons.prems [of p] by auto
    obtain pi ok where "parsePMT (take (e - s) (drop s p)) = Some (pi, ok)"
      using parsePMT_total by blast
    then show ?thesis using q r Some se b by simp
  qed (simp add: q r)
qed simp

lemma emit_unfold:
  "emit pid a out errs =
     (if length (as_buf a) > 0 \<and> as_buf a ! 0 \<noteq> 0xFF then
        if length (as_buf a) < 3 then Some (a, out, errs)
        else let total = 3 + len12 (as_buf a ! 1) (as_buf a ! 2) in
          if length (as_buf a) < total then Some (a, out, errs)
          else do {
            (inn, err) \<leftarrow> Parse (take total (as_buf a));
            let a = a\<lparr>as_buf := drop total (as_buf a)\<rparr>;
            (case err of
               Some e \<Rightarrow> emit pid a out (errs @ [(pid, e)])
             | None \<Rightarrow> emit pid a (out @ [inn\<lparr>in_PID := pid\<rparr>]) errs) }
      else Some (asm_reset a, out, errs))"
proof -
  have g: "go_and (Some (length (as_buf a) > 0)) (test (as_buf a) 0 (\<lambda>x. x \<noteq> 0xFF)) =
      Some (length (as_buf a) > 0 \<and> as_buf a ! 0 \<noteq> 0xFF)"
    by (rule go_and_guard) simp
  show ?thesis
    by (subst emit.simps, unfold g) (simp add: Let_def cong: if_cong)
qed

lemma emit_total [go_safe]: "\<exists>a' out' errs'. emit pid a out errs = Some (a', out', errs')"
proof -
  have "returns (emit pid a out errs)"
  proof (induction "length (as_buf a)" arbitrary: a out errs rule: less_induct)
    case less
    have "returns (Parse s)" for s using Parse_total [of s] by (auto simp: returns_def)
    moreover have "returns (emit pid (a\<lparr>as_buf := drop (3 + n) (as_buf a)\<rparr>) out errs)"
      if "length (as_buf a) > 0" for n out errs
      using that by (intro less) simp
    ultimately show ?case
      by (subst emit_unfold) (intro returns_intros; simp)
  qed
  then show ?thesis by (auto simp: returns_iff)
qed

lemma extract_packet_total [go_safe]:
  assumes "length p = PacketSize"
  shows "\<exists>x'. extract_packet scte x p = Some x'"
proof (cases "payloadOffset p")
  case (Some off)
  with payloadOffset_bounds assms have off: "off < length p" by metis
  have "\<exists>r. emit pid a out errs = Some r" for pid a out errs
    using emit_total by fastforce
  then obtain E where E: "\<And>pid a out errs. emit pid a out errs = Some (E pid a out errs)"
    by metis
  show ?thesis
    using Some off by (simp add: extract_packet_def Let_def E split: prod.split)
qed (simp add: extract_packet_def Let_def)

lemma extract_packets_total [go_safe]:
  "(\<And>p. p \<in> set ps \<Longrightarrow> length p = PacketSize) \<Longrightarrow> \<exists>x'. extract_packets scte x ps = Some x'"
proof (induction ps arbitrary: x)
  case (Cons p ps)
  then obtain x' where "extract_packet scte x p = Some x'"
    using extract_packet_total by force
  with Cons show ?case by simp
qed simp

lemma ExtractSections_total: "\<exists>infos err. ExtractSections ts = Some (infos, err)"
proof -
  obtain i where i: "syncOffset ts = Some i" using sync_loop_total by (auto simp: syncOffset_def)
  let ?ps = "packets_from ts i"
  note pk = collect_packets_eq [of ts i]
  have l: "\<And>p. p \<in> set ?ps \<Longrightarrow> length p = PacketSize" by (rule packets_from_length)
  obtain r where r: "first_pat ?ps = Some r" using first_pat_total [OF l] by blast
  have s: "\<exists>scte got. scan_pmts v ?ps (\<lambda>_. False) False = Some (scte, got)" for v
    by (rule scan_pmts_total) (rule l)
  have x: "\<exists>x'. extract_packets scte extraction0 ?ps = Some x'" for scte
    by (rule extract_packets_total) (rule l)
  show ?thesis
  proof (cases r)
    case (Some v)
    obtain scte got where "scan_pmts v ?ps (\<lambda>_. False) False = Some (scte, got)" using s by blast
    moreover obtain x' where "extract_packets scte extraction0 ?ps = Some x'" using x by blast
    ultimately show ?thesis using i r Some by (simp add: ExtractSections_def pk)
  qed (simp add: ExtractSections_def pk i r)
qed

section \<open>The rewritten PMT\<close>

text \<open>The elementary-stream loop of a section as a walk over its bytes.\<close>

function es_walk :: "bytes \<Rightarrow> esEntry list option" where
  "es_walk d =
     (if length d \<ge> 5 then
        let n = 5 + len12 (d ! 3) (d ! 4) in
        if n > length d then None
        else map_option ((#) \<lparr>streamType = d ! 0, es_pid = pid13 (d ! 1) (d ! 2)\<rparr>) (es_walk (drop n d))
      else if d = [] then Some [] else None)"
  by pat_completeness auto
termination
  by (relation "measure length") auto

declare es_walk.simps [simp del]

definition add_es :: "pmtInfo \<Rightarrow> esEntry \<Rightarrow> pmtInfo" where
  "add_es pi e =
     (let pi = pi\<lparr>pm_streams := pm_streams pi @ [e]\<rparr> in
      if pm_videoPID pi = 0 \<and> (streamType e = stH264 \<or> streamType e = stH265)
      then pi\<lparr>pm_videoPID := es_pid e\<rparr> else pi)"

definition es_at :: "bytes \<Rightarrow> nat \<Rightarrow> esEntry" where
  "es_at sec p = \<lparr>streamType = sec ! p, es_pid = pid13 (sec ! (p + 1)) (sec ! (p + 2))\<rparr>"

lemma es_loop_step:
  assumes "p + 5 \<le> en" "en \<le> length sec"
  shows "es_loop sec en p pi =
    es_loop sec en (p + (5 + len12 (sec ! (p + 3)) (sec ! (p + 4)))) (add_es pi (es_at sec p))"
  using assms by (subst es_loop.simps) (simp add: Let_def add_es_def es_at_def)

lemma es_loop_stop: "\<not> p + 5 \<le> en \<Longrightarrow> es_loop sec en p pi = Some (p, pi)"
  by (subst es_loop.simps) (simp only: if_False)

lemma es_loop_adds:
  assumes "en \<le> length sec" "es_loop sec en p pi = Some (p', pi')"
  shows "\<exists>es. pi' = foldl add_es pi es"
  using assms
proof (induction "en - p" arbitrary: p pi rule: less_induct)
  case less
  show ?case
  proof (cases "p + 5 \<le> en")
    case True
    let ?q = "p + (5 + len12 (sec ! (p + 3)) (sec ! (p + 4)))"
    have next_step: "es_loop sec en ?q (add_es pi (es_at sec p)) = Some (p', pi')"
      using es_loop_step [OF True less.prems(1)] less.prems(2) by simp
    have "en - ?q < en - p" using True by simp
    from less.hyps [OF this less.prems(1) next_step]
    obtain es where "pi' = foldl add_es (add_es pi (es_at sec p)) es" ..
    then have "pi' = foldl add_es pi (es_at sec p # es)" by simp
    then show ?thesis by blast
  next
    case False
    from es_loop_stop [OF False] less.prems(2) have "pi' = foldl add_es pi []" by simp
    then show ?thesis by blast
  qed
qed

lemma es_loop_walk:
  assumes "p \<le> en" "en \<le> length sec"
  shows "es_loop sec en p pi = Some (en, pi') \<longleftrightarrow>
    (\<exists>es. es_walk (take (en - p) (drop p sec)) = Some es \<and> pi' = foldl add_es pi es)"
  using assms
proof (induction "en - p" arbitrary: p pi rule: less_induct)
  case less
  let ?d = "take (en - p) (drop p sec)"
  have len: "length ?d = en - p" using less.prems by simp
  show ?case
  proof (cases "p + 5 \<le> en")
    case True
    let ?e = "es_at sec p"
    let ?n = "5 + len12 (sec ! (p + 3)) (sec ! (p + 4))"
    have nth: "?d ! k = sec ! (p + k)" if "k < 5" for k using that True less.prems by simp
    have nths: "?d ! 0 = sec ! p" "?d ! 1 = sec ! (p + 1)" "?d ! 2 = sec ! (p + 2)"
      "?d ! 3 = sec ! (p + 3)" "?d ! 4 = sec ! (p + 4)"
      using nth [of 0] nth [of 1] nth [of 2] nth [of 3] nth [of 4] by simp_all
    have step: "es_loop sec en p pi = es_loop sec en (p + ?n) (add_es pi ?e)"
      using True less.prems(2) by (rule es_loop_step)
    have walk: "es_walk ?d = (if ?n > en - p then None
        else map_option ((#) ?e) (es_walk (drop ?n ?d)))"
      using True len by (subst es_walk.simps) (simp only: nths Let_def es_at_def, simp)
    show ?thesis
    proof (cases "?n > en - p")
      case over: True
      then have "\<not> p + ?n + 5 \<le> en" by simp
      then have "es_loop sec en (p + ?n) (add_es pi ?e) = Some (p + ?n, add_es pi ?e)"
        by (rule es_loop_stop)
      with over show ?thesis using step walk by auto
    next
      case False
      let ?d' = "take (en - (p + ?n)) (drop (p + ?n) sec)"
      have dr: "drop ?n ?d = ?d'"
        by (simp add: drop_take add.commute)
      have ih: "es_loop sec en (p + ?n) (add_es pi ?e) = Some (en, pi') \<longleftrightarrow>
        (\<exists>es. es_walk ?d' = Some es \<and> pi' = foldl add_es (add_es pi ?e) es)"
        using less.prems True False by (intro less.hyps) simp_all
      show ?thesis
        unfolding step walk dr ih if_not_P [OF False] by (cases "es_walk ?d'") simp_all
    qed
  next
    case False
    then have "es_loop sec en p pi = Some (p, pi)" by (rule es_loop_stop)
    moreover have "es_walk ?d = (if p = en then Some [] else None)"
      using False len less.prems by (subst es_walk.simps) auto
    ultimately show ?thesis by auto
  qed
qed

lemma es_walk_append:
  "es_walk d = Some es \<Longrightarrow> es_walk (d @ d') = map_option ((@) es) (es_walk d')"
proof (induction d arbitrary: es rule: es_walk.induct)
  case (1 d)
  show ?case
  proof (cases "length d \<ge> 5")
    case True
    let ?n = "5 + len12 (d ! 3) (d ! 4)"
    let ?e = "\<lparr>streamType = d ! 0, es_pid = pid13 (d ! 1) (d ! 2)\<rparr>"
    from 1 True obtain es' where n: "?n \<le> length d" and es': "es_walk (drop ?n d) = Some es'"
      and es: "es = ?e # es'"
      by (subst (asm) es_walk.simps) (auto simp: Let_def split: if_splits)
    have ih: "es_walk (drop ?n d @ d') = map_option ((@) es') (es_walk d')"
      using 1 True n es' by simp
    have nths: "(d @ d') ! 0 = d ! 0" "(d @ d') ! 1 = d ! 1" "(d @ d') ! 2 = d ! 2"
      "(d @ d') ! 3 = d ! 3" "(d @ d') ! 4 = d ! 4"
      using True by (auto simp: nth_append)
    have "es_walk (d @ d') = map_option ((#) ?e) (es_walk (drop ?n d @ d'))"
      using True n by (subst es_walk.simps) (simp only: nths Let_def, simp)
    then show ?thesis by (simp add: ih es option.map_comp comp_def)
  next
    case False
    with "1.prems" have "d = []" "es = []"
      by (subst (asm) es_walk.simps, simp split: if_splits)+
    then show ?thesis by (simp add: option.map_ident)
  qed
qed

text \<open>Descriptors that fill the program_info exactly, with no byte left over.\<close>

function pi_exact :: "bytes \<Rightarrow> bool" where
  "pi_exact d = (if length d \<ge> 2 then pi_exact (drop (2 + unat (d ! 1)) d) else d = [])"
  by pat_completeness auto
termination
  by (relation "measure length") auto

declare pi_exact.simps [simp del]

definition cuei_descriptor :: bytes where
  "cuei_descriptor = [0x05, 0x04, 0x43, 0x55, 0x45, 0x49]"

definition pi_step :: "bytes \<Rightarrow> bool \<Rightarrow> bool" where
  "pi_step d has = (if d ! 0 = 0x05 \<and> unat (d ! 1) \<ge> 4 \<and> take 4 (drop 2 d) = cuei then True else has)"

lemma pi_loop_step:
  assumes "length d \<ge> 2"
  shows "pi_loop d has = (if 2 + unat (d ! 1) > length d then Some (has, False)
      else pi_loop (drop (2 + unat (d ! 1)) d) (pi_step d has))"
  proof (cases "2 + unat (d ! 1) > length d")
  case False
  have c: "go_and (test d 0 (\<lambda>x. x = 0x05)) (go_and (Some (unat (d ! 1) \<ge> 4))
      (do { nm \<leftarrow> subslice d 2 6; Some (nm = cuei) })) =
    Some (d ! 0 = 0x05 \<and> unat (d ! 1) \<ge> 4 \<and> take 4 (drop 2 d) = cuei)"
  proof -
    have "test d 0 (\<lambda>x. x = 0x05) = Some (d ! 0 = 0x05)" using assms by (auto simp: test_def idx_def)
    moreover have "go_and (Some (unat (d ! 1) \<ge> 4)) (do { nm \<leftarrow> subslice d 2 6; Some (nm = cuei) }) =
        Some (unat (d ! 1) \<ge> 4 \<and> take 4 (drop 2 d) = cuei)"
      by (rule go_and_guard) (use False in simp)
    ultimately show ?thesis by (simp only: go_and_simps)
  qed
  have r: "idx d 1 = Some (d ! 1)" "slice_from d (2 + unat (d ! 1)) = Some (drop (2 + unat (d ! 1)) d)"
    using assms False by (auto simp: idx_def)
  show ?thesis
    using assms False by (subst pi_loop.simps) (simp only: r c bind.bind_lunit Let_def pi_step_def if_True if_False)
qed (use assms in \<open>subst pi_loop.simps, simp add: Let_def\<close>)

lemma pi_loop_short: "length d < 2 \<Longrightarrow> pi_loop d has = Some (has, True)"
  by (subst pi_loop.simps) simp

lemma pi_loop_cuei: "pi_loop cuei_descriptor has = Some (True, True)"
proof -
  have "pi_loop cuei_descriptor has = pi_loop [] True"
    by (subst pi_loop_step) (simp_all add: cuei_descriptor_def pi_step_def cuei_def)
  then show ?thesis by (simp add: pi_loop_short)
qed

lemma pi_loop_dangling: "\<exists>h. pi_loop (b # cuei_descriptor) has = Some (h, True)"
proof -
  have "\<exists>h. pi_loop (b # cuei_descriptor) has = pi_loop [] h"
    by (subst pi_loop_step) (auto simp: cuei_descriptor_def pi_step_def cuei_def)
  then show ?thesis by (simp add: pi_loop_short)
qed

lemma pi_loop_append:
  assumes "pi_loop d has = Some (h, True)"
  shows "\<exists>h'. pi_loop (d @ cuei_descriptor) has = Some (h', True) \<and> (pi_exact d \<longrightarrow> h')"
  using assms
proof (induction d arbitrary: has rule: pi_exact.induct)
  case (1 d)
  show ?case
  proof (cases "length d \<ge> 2")
    case True
    let ?n = "2 + unat (d ! 1)"
    from True have nths: "(d @ x) ! 0 = d ! 0" "(d @ x) ! 1 = d ! 1" for x
      by (auto simp: nth_append)
    have n: "?n \<le> length d" and h: "pi_loop (drop ?n d) (pi_step d has) = Some (h, True)"
      using 1 pi_loop_step [OF True, of has] by (auto split: if_splits)
    have "pi_step (d @ cuei_descriptor) has = pi_step d has"
      unfolding pi_step_def nths using n by (cases "4 \<le> unat (d ! 1)") simp_all
    then have "pi_loop (d @ cuei_descriptor) has = pi_loop (drop ?n d @ cuei_descriptor) (pi_step d has)"
      using n True by (subst pi_loop_step) (simp_all add: nths [simplified])
    moreover have "pi_exact d = pi_exact (drop ?n d)"
      using True by (subst pi_exact.simps) simp
    ultimately show ?thesis using "1.IH" [OF True h] by simp
  next
    case False
    then consider "d = []" | b where "d = [b]"
      by (cases d; cases "tl d") auto
    then show ?thesis
      by cases (auto simp: pi_loop_cuei pi_loop_dangling pi_exact.simps)
  qed
qed

section \<open>The bytes of the rewritten section\<close>

lemma take_12:
  assumes "length s \<ge> 12"
  shows "take 12 s = [s ! 0, s ! 1, s ! 2, s ! 3, s ! 4, s ! 5, s ! 6, s ! 7, s ! 8, s ! 9, s ! 10, s ! 11]"
proof -
  have "take 12 s = map ((!) s) [0..<12]"
    using assms by (intro nth_equalityI) auto
  then show ?thesis by (simp add: upt_rec eval_nat_numeral)
qed

definition pmt_entry :: "u16 \<Rightarrow> bytes" where
  "pmt_entry pid = [StreamTypeSCTE35, 0xE0 OR (byte_of (drop_bit 8 pid) AND 0x1F), byte_of pid,
     0xF0, 0x06, 0x05, 0x04, 0x43, 0x55, 0x45, 0x49]"

definition program_info :: "bytes \<Rightarrow> pmtInfo \<Rightarrow> bytes" where
  "program_info sec pi = take (pm_piLen pi) (drop 12 sec) @ (if pm_hasCUEI pi then [] else cuei_descriptor)"

definition es_bytes :: "bytes \<Rightarrow> pmtInfo \<Rightarrow> bytes" where
  "es_bytes sec pi = take (pm_esEnd pi - pm_esStart pi) (drop (pm_esStart pi) sec)"

lemma rewritten_bytes_eq:
  fixes pid :: u16
  assumes "length sec \<ge> 16" "pm_esStart pi = 12 + pm_piLen pi" "pm_esStart pi \<le> pm_esEnd pi"
    "pm_esEnd pi = length sec - 4"
  defines "body \<equiv> program_info sec pi @ es_bytes sec pi @ pmt_entry pid"
  defines "secLen \<equiv> length body + 13"
    and "piLen \<equiv> length (program_info sec pi)"
  shows "rewritten_bytes sec pi pid =
    [sec ! 0, (sec ! 1 AND 0xF0) OR (of_nat (drop_bit 8 secLen) AND 0x0F), of_nat secLen, sec ! 3, sec ! 4,
     (sec ! 5 AND 0xC1) OR push_bit 1 ((drop_bit 1 (sec ! 5) + 1) AND 0x1F), sec ! 6, sec ! 7, sec ! 8, sec ! 9,
     (sec ! 10 AND 0xF0) OR (of_nat (drop_bit 8 piLen) AND 0x0F), of_nat piLen] @ body"
proof -
  have t: "take 12 sec = [sec ! 0, sec ! 1, sec ! 2, sec ! 3, sec ! 4, sec ! 5, sec ! 6, sec ! 7, sec ! 8, sec ! 9, sec ! 10, sec ! 11]"
    by (rule take_12) (use assms in simp)
  have l: "length (take (pm_piLen pi) (drop 12 sec)) = pm_piLen pi" using assms by simp
  have pl: "piLen = pm_piLen pi + (if pm_hasCUEI pi then 0 else 6)"
    using assms by (simp add: piLen_def program_info_def cuei_descriptor_def)
  obtain k where k: "length sec = 16 + k" using assms(1) le_Suc_ex by blast
  show ?thesis
    unfolding rewritten_bytes_def Let_def t
    using assms(2-4) l k
    by (cases "pm_hasCUEI pi")
      (simp_all add: secLen_def pl body_def program_info_def es_bytes_def pmt_entry_def cuei_descriptor_def)
qed

lemma foldl_add_es [simp]:
  "pm_pcrPID (foldl add_es pi es) = pm_pcrPID pi"
  "pm_piLen (foldl add_es pi es) = pm_piLen pi"
  "pm_esStart (foldl add_es pi es) = pm_esStart pi"
  "pm_esEnd (foldl add_es pi es) = pm_esEnd pi"
  "pm_hasCUEI (foldl add_es pi es) = pm_hasCUEI pi"
  "pm_streams (foldl add_es pi es) = pm_streams pi @ es"
  by (induction es arbitrary: pi) (simp_all add: add_es_def Let_def)

lemma foldl_add_es_video:
  "pm_videoPID pi = pm_videoPID pi' \<Longrightarrow> pm_videoPID (foldl add_es pi es) = pm_videoPID (foldl add_es pi' es)"
proof (induction es arbitrary: pi pi')
  case (Cons e es)
  have "pm_videoPID (add_es pi e) = pm_videoPID (add_es pi' e)"
    using Cons.prems by (auto simp: add_es_def Let_def)
  from Cons.IH [OF this] show ?case by simp
qed simp

definition pmt_header :: "bytes \<Rightarrow> bool \<Rightarrow> pmtInfo" where
  "pmt_header sec has = pmtInfo0\<lparr>pm_pcrPID := pid13 (sec ! 8) (sec ! 9),
     pm_piLen := len12 (sec ! 10) (sec ! 11), pm_esStart := 12 + len12 (sec ! 10) (sec ! 11),
     pm_esEnd := length sec - 4, pm_hasCUEI := has\<rparr>"

lemma parsePMT_iff:
  "parsePMT sec = Some (pi, True) \<longleftrightarrow>
    16 \<le> length sec \<and> sec ! 0 = 0x02 \<and> CRC32 sec = 0 \<and>
    12 + len12 (sec ! 10) (sec ! 11) \<le> length sec - 4 \<and>
    (\<exists>has es. pi_loop (take (len12 (sec ! 10) (sec ! 11)) (drop 12 sec)) False = Some (has, True) \<and>
      es_walk (take (length sec - 4 - (12 + len12 (sec ! 10) (sec ! 11)))
        (drop (12 + len12 (sec ! 10) (sec ! 11)) sec)) = Some es \<and>
      pi = foldl add_es (pmt_header sec has) es)"
    (is "_ \<longleftrightarrow> ?g1 \<and> ?g2 \<and> ?g3 \<and> ?n \<le> _ \<and> ?R")
proof (cases "?g1 \<and> ?g2 \<and> ?g3 \<and> ?n \<le> length sec - 4")
  case True
  obtain has ok where pl: "pi_loop (take (len12 (sec ! 10) (sec ! 11)) (drop 12 sec)) False = Some (has, ok)"
    using pi_loop_returns by (fastforce simp: returns_iff)
  let ?h = "pmt_header sec has"
  have "?n \<le> length sec" using True by linarith
  then have ss: "subslice sec 12 ?n = Some (take (len12 (sec ! 10) (sec ! 11)) (drop 12 sec))"
    by simp
  have t: "parsePMT sec = (if \<not> ok then Some (?h, False)
     else es_loop sec (length sec - 4) ?n ?h \<bind> (\<lambda>(p, pi). Some (pi, p = pm_esEnd pi)))"
    using True unfolding parsePMT_unfold
    by (simp add: Let_def pmt_header_def ss pl)
  obtain p' pi' where es: "es_loop sec (length sec - 4) ?n ?h = Some (p', pi')"
    using es_loop_total [of "length sec - 4" sec] by fastforce
  have w: "es_loop sec (length sec - 4) ?n ?h = Some (length sec - 4, pi) \<longleftrightarrow>
    (\<exists>es. es_walk (take (length sec - 4 - ?n) (drop ?n sec)) = Some es \<and> pi = foldl add_es ?h es)"
    by (rule es_loop_walk) (use True in simp_all)
  have "pm_esEnd pi' = length sec - 4"
    using es_loop_adds [OF _ es] by (auto simp: pmt_header_def)
  then have "parsePMT sec = Some (pi, True) \<longleftrightarrow> ok \<and> es_loop sec (length sec - 4) ?n ?h = Some (length sec - 4, pi)"
    unfolding t es by (cases ok) auto
  then show ?thesis
    unfolding w pl using True by (cases ok) simp_all
next
  case False
  have "parsePMT sec \<noteq> Some (pi, True)"
  proof (cases "?g1 \<and> ?g2 \<and> ?g3")
    case True
    with False have "?n > length sec - 4" by simp
    then show ?thesis using True unfolding parsePMT_unfold by (simp add: Let_def)
  next
    case False
    then have "length sec < 16 \<or> sec ! 0 \<noteq> 0x02 \<or> CRC32 sec \<noteq> 0" by auto
    then show ?thesis unfolding parsePMT_unfold by (simp only: if_True) simp
  qed
  with False show ?thesis by blast
qed

text \<open>What a rewritten section says, compared with the section it was made from.\<close>

definition announces :: "u16 \<Rightarrow> bytes \<Rightarrow> pmtInfo \<Rightarrow> bytes \<Rightarrow> bool" where
  "announces pid sec pi sec' \<longleftrightarrow>
     (\<exists>pi'. parsePMT sec' = Some (pi', True) \<and>
       pm_streams pi' = pm_streams pi @ [\<lparr>streamType = StreamTypeSCTE35, es_pid = pid\<rparr>] \<and>
       pm_pcrPID pi' = pm_pcrPID pi \<and> pm_videoPID pi' = pm_videoPID pi \<and>
       (pi_exact (take (pm_piLen pi) (drop 12 sec)) \<longrightarrow> pm_hasCUEI pi')) \<and>
     sec' ! 3 = sec ! 3 \<and> sec' ! 4 = sec ! 4 \<and>
     drop_bit 1 (sec' ! 5) AND 0x1F = (drop_bit 1 (sec ! 5) + 1) AND 0x1F \<and>
     sec' ! 5 AND 0xC1 = sec ! 5 AND 0xC1"

lemma pid_bytes:
  assumes "pid < (0x2000 :: u16)"
  shows "pid13 (0xE0 OR (byte_of (drop_bit 8 pid) AND 0x1F)) (byte_of pid) = pid"
proof -
  have p: "take_bit 13 pid = pid"
    using assms by (intro take_bit_word_small) (simp add: word_less_nat_alt)
  have "pid13 (0xE0 OR (byte_of (drop_bit 8 pid) AND 0x1F)) (byte_of pid) = take_bit 13 pid"
  proof (rule bit_word_eqI)
    fix n assume "n < LENGTH(16)"
    then consider "n < 8" | "n = 8" | "n = 9" | "n = 10" | "n = 11" | "n = 12" | "n = 13" | "n = 14" | "n = 15"
      by fastforce
    then show "bit (pid13 (0xE0 OR (byte_of (drop_bit 8 pid) AND 0x1F)) (byte_of pid)) n = bit (take_bit 13 pid) n"
      by cases (simp_all add: pid13_def bit_simps)
  qed
  with p show ?thesis by simp
qed

lemma version_bits:
  fixes b v :: byte
  shows "drop_bit 1 ((b AND 0xC1) OR push_bit 1 (v AND 0x1F)) AND 0x1F = v AND 0x1F"
    "((b AND 0xC1) OR push_bit 1 (v AND 0x1F)) AND 0xC1 = b AND 0xC1"
proof -
  show "drop_bit 1 ((b AND 0xC1) OR push_bit 1 (v AND 0x1F)) AND 0x1F = v AND 0x1F"
  proof (rule bit_word_eqI)
    fix n assume "n < LENGTH(8)"
    then consider "n=0"|"n=1"|"n=2"|"n=3"|"n=4"|"n=5"|"n=6"|"n=7" by fastforce
    then show "bit (drop_bit 1 ((b AND 0xC1) OR push_bit 1 (v AND 0x1F)) AND 0x1F) n = bit (v AND 0x1F) n"
      by cases (simp_all add: bit_simps numeral_2_eq_2 del: push_bit_Suc)
  qed
  show "((b AND 0xC1) OR push_bit 1 (v AND 0x1F)) AND 0xC1 = b AND 0xC1"
  proof (rule bit_word_eqI)
    fix n assume "n < LENGTH(8)"
    then consider "n=0"|"n=1"|"n=2"|"n=3"|"n=4"|"n=5"|"n=6"|"n=7" by fastforce
    then show "bit (((b AND 0xC1) OR push_bit 1 (v AND 0x1F)) AND 0xC1) n = bit (b AND 0xC1) n"
      by cases (simp_all add: bit_simps numeral_2_eq_2 del: push_bit_Suc)
  qed
qed

lemma parsePMT_header:
  assumes "parsePMT sec = Some (pi, True)"
  shows "16 \<le> length sec" "pm_piLen pi = len12 (sec ! 10) (sec ! 11)" "pm_esStart pi = 12 + pm_piLen pi"
    "pm_esEnd pi = length sec - 4" "pm_esStart pi \<le> pm_esEnd pi" "sec ! 0 = 0x02"
    "pm_pcrPID pi = pid13 (sec ! 8) (sec ! 9)"
  using assms by (auto simp: parsePMT_iff pmt_header_def)

lemma rewritePMT_unfold:
  assumes "length p = PacketSize"
  shows "rewritePMT p pid =
     do { se \<leftarrow> singleSection p 0x02;
          (case se of
             None \<Rightarrow> Some (None, pmtInfo0, False)
           | Some (start, fin) \<Rightarrow>
               do { sec \<leftarrow> subslice p start fin;
                    (pi, ok) \<leftarrow> parsePMT sec;
                    if \<not> ok then Some (None, pi, False)
                    else if list_ex (\<lambda>e. es_pid e = pid) (pm_streams pi) then Some (None, pi, True)
                    else do {
                      rest \<leftarrow> slice_from p fin;
                      if list_ex (\<lambda>b. b \<noteq> 0xFF) rest then Some (None, pi, True)
                      else do {
                        let ns = appendCRC (rewritten_bytes sec pi pid);
                        let off = (case payloadOffset p of Some off \<Rightarrow> off | None \<Rightarrow> 0);
                        Some (rebuilt_bytes p off ns, pi, True) } } }) }"
proof -
  have rw: "rewritten_section sec pi pid = Some (rewritten_bytes sec pi pid)"
    if "parsePMT sec = Some (pi, True)" for sec pi
    using parsePMT_header [OF that] by (intro rewritten_section_bytes) simp_all
  have rb: "rebuilt_packet p (case payloadOffset p of Some off \<Rightarrow> off | None \<Rightarrow> 0) ns =
      Some (rebuilt_bytes p (case payloadOffset p of Some off \<Rightarrow> off | None \<Rightarrow> 0) ns)"
    if s: "singleSection p 0x02 = Some (Some se)" for se ns
  proof -
    obtain off where off: "payloadOffset p = Some off"
      using s by (auto simp: singleSection_def split: if_splits option.splits)
    show ?thesis using payloadOffset_bounds [OF off] assms by (simp add: off rebuilt_packet_bytes)
  qed
  show ?thesis
    unfolding rewritePMT_def
    by (intro Option.bind_cong refl option.case_cong) (auto simp: rw rb Let_def intro!: Option.bind_cong)
qed

lemma rewritePMT_total [go_safe]:
  assumes "length p = PacketSize"
  shows "\<exists>np pi valid. rewritePMT p pid = Some (np, pi, valid)"
proof -
  have *: "\<exists>r. rewritePMT p pid = Some r \<Longrightarrow> ?thesis" by simp
  obtain r where r: "singleSection p 0x02 = Some r" using singleSection_total [OF assms] by blast
  show ?thesis
  proof (cases r)
    case (Some se)
    obtain s e where se: "se = (s, e)" by fastforce
    obtain pi ok where pm: "parsePMT (take (e - s) (drop s p)) = Some (pi, ok)"
      using parsePMT_total by blast
    have b: "s \<le> e" "e \<le> length p"
      using singleSection_bounds [of p "0x02" s e] r Some se assms by auto
    show ?thesis
      using r Some se b pm by (intro *) (auto simp: rewritePMT_unfold [OF assms] Let_def)
  qed (auto simp: rewritePMT_unfold [OF assms] r)
qed

lemma program_info_walk:
  assumes "parsePMT sec = Some (pi, True)"
  obtains h where "pi_loop (program_info sec pi) False = Some (h, True)"
    "pi_exact (take (pm_piLen pi) (drop 12 sec)) \<longrightarrow> h"
proof -
  have "pi_loop (take (pm_piLen pi) (drop 12 sec)) False = Some (pm_hasCUEI pi, True)"
    using assms by (auto simp: parsePMT_iff pmt_header_def)
  with pi_loop_append [OF this] that show thesis
    by (cases "pm_hasCUEI pi") (auto simp: program_info_def)
qed

lemma es_bytes_walk:
  assumes "parsePMT sec = Some (pi, True)"
  shows "es_walk (es_bytes sec pi) = Some (pm_streams pi)"
    "pi = foldl add_es (pmt_header sec (pm_hasCUEI pi)) (pm_streams pi)"
  using assms by (auto simp: parsePMT_iff pmt_header_def es_bytes_def pmtInfo0_def)

lemma es_walk_entry:
  assumes "pid < 0x2000"
  shows "es_walk (pmt_entry pid) = Some [\<lparr>streamType = StreamTypeSCTE35, es_pid = pid\<rparr>]"
proof -
  have "len12 0xF0 0x06 = 6" by (simp add: len12_def)
  then show ?thesis
    using pid_bytes [OF assms] by (simp add: es_walk.simps pmt_entry_def)
qed

lemma parsePMT_rewritten:
  assumes pm: "parsePMT sec = Some (pi, True)" and pid: "pid < 0x2000" and l: "length sec < 4000"
  defines "sec' \<equiv> appendCRC (rewritten_bytes sec pi pid)"
  shows "announces pid sec pi sec'" "sec' ! 0 = 0x02" "len12 (sec' ! 1) (sec' ! 2) + 3 = length sec'"
proof -
  note h = parsePMT_header [OF pm]
  define prog where "prog = program_info sec pi"
  define es where "es = es_bytes sec pi"
  define body where "body = prog @ es @ pmt_entry pid"
  have len: "length prog \<le> pm_piLen pi + 6" "length es = length sec - 16 - pm_piLen pi"
    "length (pmt_entry pid) = 11"
    using h by (auto simp: prog_def es_def program_info_def cuei_descriptor_def es_bytes_def pmt_entry_def)
  then have small: "length body + 13 < 4096" "length prog < 4096"
    using h l by (auto simp: body_def)
  obtain c where c: "sec' = [sec ! 0, (sec ! 1 AND 0xF0) OR (of_nat (drop_bit 8 (length body + 13)) AND 0x0F),
     of_nat (length body + 13), sec ! 3, sec ! 4,
     (sec ! 5 AND 0xC1) OR push_bit 1 ((drop_bit 1 (sec ! 5) + 1) AND 0x1F), sec ! 6, sec ! 7, sec ! 8, sec ! 9,
     (sec ! 10 AND 0xF0) OR (of_nat (drop_bit 8 (length prog)) AND 0x0F), of_nat (length prog)] @ body @ c"
     and cl: "length c = 4"
    unfolding sec'_def appendCRC_def be32_def body_def prog_def es_def
    using rewritten_bytes_eq [of sec pi pid] h by simp
  have zero: "((x :: byte) AND 0xF0) AND 0x0F = 0" for x by (simp add: and.assoc)
  show "sec' ! 0 = 0x02" using c h by simp
  show "len12 (sec' ! 1) (sec' ! 2) + 3 = length sec'"
    unfolding c using of_nat_len12 [OF small(1) zero] cl by simp
  have pl: "len12 (sec' ! 10) (sec' ! 11) = length prog"
    unfolding c using of_nat_len12 [OF small(2) zero] by simp
  obtain hc where hc: "pi_loop prog False = Some (hc, True)" "pi_exact (take (pm_piLen pi) (drop 12 sec)) \<longrightarrow> hc"
    using program_info_walk [OF pm] unfolding prog_def by blast
  let ?e = "\<lparr>streamType = StreamTypeSCTE35, es_pid = pid\<rparr>"
  have w: "es_walk (es @ pmt_entry pid) = Some (pm_streams pi @ [?e])"
    using es_walk_append [OF es_bytes_walk(1) [OF pm], of "pmt_entry pid"] es_walk_entry [OF pid]
    by (simp add: es_def)
  define pi' where "pi' = foldl add_es (pmt_header sec' hc) (pm_streams pi @ [?e])"
  have d12: "drop 12 sec' = prog @ es @ pmt_entry pid @ c"
    unfolding c body_def by simp
  have "length sec' = 12 + length prog + length es + 15"
    unfolding c body_def using cl len(3) by simp
  then have "take (length prog) (drop 12 sec') = prog"
    "take (length sec' - 4 - (12 + length prog)) (drop (12 + length prog) sec') = es @ pmt_entry pid"
    "length sec' \<ge> 16" "12 + length prog \<le> length sec' - 4"
    using d12 len(3) by (simp_all add: add.commute [of 12] drop_drop [symmetric] del: drop_drop)
  then have "parsePMT sec' = Some (pi', True)"
    unfolding parsePMT_iff pl using hc(1) w \<open>sec' ! 0 = 0x02\<close>
    by (simp add: pi'_def sec'_def [symmetric]) (simp add: sec'_def)
  moreover have "pm_videoPID pi' = pm_videoPID pi"
  proof -
    have "pm_videoPID (foldl add_es (pmt_header sec' hc) (pm_streams pi)) = pm_videoPID pi"
      by (subst (2) es_bytes_walk(2) [OF pm], rule foldl_add_es_video) (simp add: pmt_header_def)
    then show ?thesis
      by (simp add: pi'_def add_es_def Let_def StreamTypeSCTE35_def stH264_def stH265_def)
  qed
  moreover have "pm_pcrPID pi' = pm_pcrPID pi" "pm_hasCUEI pi' = hc"
    "pm_streams pi' = pm_streams pi @ [?e]"
  proof -
    have "sec' ! 8 = sec ! 8" "sec' ! 9 = sec ! 9" by (simp_all add: c)
    then show "pm_pcrPID pi' = pm_pcrPID pi" "pm_hasCUEI pi' = hc"
      "pm_streams pi' = pm_streams pi @ [?e]"
      unfolding pi'_def foldl_add_es using h by (simp_all add: pmt_header_def pmtInfo0_def)
  qed
  moreover have "sec' ! 3 = sec ! 3" "sec' ! 4 = sec ! 4"
    and s5: "sec' ! 5 = (sec ! 5 AND 0xC1) OR push_bit 1 ((drop_bit 1 (sec ! 5) + 1) AND 0x1F)"
    by (simp_all add: c)
  moreover have "drop_bit 1 (sec' ! 5) AND 0x1F = (drop_bit 1 (sec ! 5) + 1) AND 0x1F"
    "sec' ! 5 AND 0xC1 = sec ! 5 AND 0xC1"
    unfolding s5 by (rule version_bits)+
  ultimately show "announces pid sec pi sec'"
    unfolding announces_def using hc(2) by blast
qed

section \<open>The rebuilt packet\<close>

definition kept_header :: "bytes \<Rightarrow> nat \<Rightarrow> bytes" where
  "kept_header p off =
     (if off > 5 \<and> p ! 5 \<noteq> 0 then take off p else (take 4 p)[3 := (p ! 3 AND 0xCF) OR 0x10])"

lemma copy_at_0: "length s \<le> length d \<Longrightarrow> copy_at d 0 s = s @ drop (length s) d"
  by (simp add: copy_at_def)

lemma rebuilt_bytes_eq:
  assumes "length p = PacketSize" "4 \<le> off" "off < PacketSize"
  defines "h \<equiv> kept_header p off"
  shows "rebuilt_bytes p off ns =
    (if length h + 1 + length ns > PacketSize then None
     else Some (h @ 0 # ns @ replicate (PacketSize - (length h + 1 + length ns)) 0xFF))"
proof -
  let ?np = "copy_at (replicate PacketSize 0) 0 (take 4 p)"
  have np: "?np = take 4 p @ replicate 184 0"
    using assms by (subst copy_at_0) (simp_all add: PacketSize_def)
  have keep: "copy_at ?np 4 (take (off - 4) (drop 4 p)) = take off p @ replicate (PacketSize - off) 0"
  proof -
    have "take 4 p @ take (off - 4) (drop 4 p) = take off p"
      using assms by (metis le_add_diff_inverse take_add)
    then show ?thesis
      using assms unfolding np copy_at_def by (simp add: PacketSize_def)
  qed
  have drop: "?np[3 := (?np ! 3 AND 0xCF) OR 0x10] = (take 4 p)[3 := (p ! 3 AND 0xCF) OR 0x10] @ replicate 184 0"
    using assms unfolding np by (simp add: nth_append list_update_append PacketSize_def)
  have fill: "(let q = (g @ replicate (PacketSize - length g) (0::byte))[length g := 0];
           q = copy_at q (length g + 1) ns
       in Some (take (length g + 1 + length ns) q @ replicate (PacketSize - (length g + 1 + length ns)) 0xFF)) =
      Some (g @ 0 # ns @ replicate (PacketSize - (length g + 1 + length ns)) 0xFF)"
    if fits: "length g + 1 + length ns \<le> PacketSize" for g
  proof -
    obtain k where k: "PacketSize = length g + 1 + length ns + k"
      using le_Suc_ex [OF fits] ..
    show ?thesis
      by (simp add: k copy_at_def Let_def list_update_append replicate_add)
  qed
  show ?thesis
  proof (cases "off > 5 \<and> p ! 5 \<noteq> 0")
    case True
    then have "h = take off p" "length h = off"
      unfolding h_def kept_header_def if_P [OF True] using assms(1,3) by simp_all
    then show ?thesis
      using True fill [of h] keep unfolding rebuilt_bytes_def Let_def by simp
  next
    case False
    then have "h = (take 4 p)[3 := (p ! 3 AND 0xCF) OR 0x10]" "length h = 4"
      unfolding h_def kept_header_def if_not_P [OF False] using assms(1) by (simp_all add: PacketSize_def)
    then show ?thesis
      using fill [of h] drop unfolding rebuilt_bytes_def Let_def if_not_P [OF False] by (simp add: PacketSize_def)
  qed
qed

lemma byte3_bits:
  "(((b :: byte) AND 0xCF) OR 0x10) AND 0x0F = b AND 0x0F"
  "drop_bit 4 ((b AND 0xCF) OR 0x10) AND 0x03 = 0x01"
  "((b AND 0xCF) OR 0x10) AND 0x20 = 0"
proof -
  have "bit ((b AND 0xCF OR 0x10) AND 0x0F) n = bit (b AND 0x0F) n
    \<and> bit (drop_bit 4 ((b AND 0xCF) OR 0x10) AND 0x03) n = bit (0x01 :: byte) n
    \<and> bit (((b AND 0xCF) OR 0x10) AND 0x20) n = bit (0 :: byte) n" if "n < 8" for n
  proof -
    from that consider "n=0"|"n=1"|"n=2"|"n=3"|"n=4"|"n=5"|"n=6"|"n=7" by fastforce
    then show ?thesis by cases (simp_all add: bit_simps)
  qed
  then show "((b AND 0xCF) OR 0x10) AND 0x0F = b AND 0x0F"
    "drop_bit 4 ((b AND 0xCF) OR 0x10) AND 0x03 = 0x01"
    "((b AND 0xCF) OR 0x10) AND 0x20 = 0"
    by (auto intro!: bit_word_eqI)
qed

lemma take_4:
  assumes "length s \<ge> 4"
  shows "take 4 s = [s ! 0, s ! 1, s ! 2, s ! 3]"
proof -
  have "take 4 s = map ((!) s) [0..<4]"
    using assms by (intro nth_equalityI) auto
  then show ?thesis by (simp add: upt_rec eval_nat_numeral)
qed

text \<open>What a packet keeps when its section is replaced: sync byte, flags, PID, continuity counter,
  discontinuity indicator and clock reference.\<close>

definition discontinuity :: "bytes \<Rightarrow> bool" where
  "discontinuity p \<longleftrightarrow> p ! 3 AND 0x20 \<noteq> 0 \<and> p ! 4 > 0 \<and> p ! 5 AND 0x80 \<noteq> 0"

definition same_envelope :: "bytes \<Rightarrow> bytes \<Rightarrow> bool" where
  "same_envelope p q \<longleftrightarrow> length q = PacketSize \<and> take 3 q = take 3 p \<and>
     q ! 3 AND 0x0F = p ! 3 AND 0x0F \<and> discontinuity q = discontinuity p \<and> pcrBase q = pcrBase p \<and>
     payloadOffset p \<noteq> None \<and> payloadOffset q \<noteq> None"

lemma afc_adaptation: "(drop_bit 4 (b :: byte) AND 0x03) AND 0x02 = 0 \<longleftrightarrow> b AND 0x20 = 0"
proof -
  have "(drop_bit 4 b AND 0x03) AND 0x02 = drop_bit 4 (b AND 0x20)"
    by (simp add: and.assoc)
  moreover have "drop_bit 4 (b AND 0x20) = 0 \<longleftrightarrow> b AND 0x20 = 0"
  proof
    assume z: "drop_bit 4 (b AND 0x20) = 0"
    show "b AND 0x20 = 0"
    proof (rule bit_word_eqI)
      fix n assume "n < LENGTH(8)"
      then consider "n=0"|"n=1"|"n=2"|"n=3"|"n=4"|"n=5"|"n=6"|"n=7" by fastforce
      then show "bit (b AND 0x20) n = bit 0 n"
        using arg_cong [OF z, of "\<lambda>w. bit w 1"] by cases (simp_all add: bit_simps)
    qed
  qed simp
  ultimately show ?thesis by simp
qed

lemma payloadOffset_adaptation:
  assumes "payloadOffset p = Some off"
  shows "off = (if p ! 3 AND 0x20 = 0 then 4 else 5 + unat (p ! 4))"
  using assms by (auto simp: payloadOffset_def Let_def afc_adaptation split: if_splits)

lemma payloadOffset_cong:
  "p ! 3 = q ! 3 \<Longrightarrow> p ! 4 = q ! 4 \<Longrightarrow> payloadOffset p = payloadOffset q"
  unfolding payloadOffset_def by (simp only:)

lemma pcrBase_kept:
  assumes "payloadOffset p = Some off" "off > 5" "off \<le> length p"
  shows "pcrBase (take off p @ t) = pcrBase p"
proof -
  let ?q = "take off p @ t"
  have same: "?q ! k = p ! k" if "k < off" for k using that assms(3) by (simp add: nth_append)
  have h: "?q ! 3 = p ! 3" "?q ! 4 = p ! 4" "?q ! 5 = p ! 5" using same assms(2) by simp_all
  show ?thesis
  proof (cases "p ! 4 < 7")
    case True
    then show ?thesis unfolding pcrBase_def h by simp
  next
    case False
    then have "off \<ge> 12"
      using payloadOffset_adaptation [OF assms(1)] assms(2)
      by (auto simp: word_less_nat_alt split: if_splits)
    then have "?q ! 6 = p ! 6" "?q ! 7 = p ! 7" "?q ! 8 = p ! 8" "?q ! 9 = p ! 9" "?q ! 10 = p ! 10"
      using same by simp_all
    then show ?thesis unfolding pcrBase_def h by (simp only:)
  qed
qed

lemma pcrBase_stuffing:
  assumes "payloadOffset p = Some off" "\<not> (off > 5 \<and> p ! 5 \<noteq> 0)"
  shows "pcrBase p = None"
  using payloadOffset_adaptation [OF assms(1)] assms(2)
  by (auto simp: pcrBase_def word_less_nat_alt split: if_splits)

lemma kept_header_payload:
  assumes "length p = PacketSize" "payloadOffset p = Some off"
  defines "h \<equiv> kept_header p off"
  assumes "length (h @ t) = PacketSize" "t \<noteq> []"
  shows "payloadOffset (h @ t) = Some (length h)" "same_envelope p (h @ t)"
proof -
  from payloadOffset_bounds [OF assms(2)] have off: "4 \<le> off" "off < PacketSize" by auto
  have "payloadOffset (h @ t) = Some (length h) \<and> same_envelope p (h @ t)"
  proof (cases "off > 5 \<and> p ! 5 \<noteq> 0")
    case True
    then have h: "h = take off p" "length h = off"
      unfolding h_def kept_header_def if_P [OF True] using assms(1) off by simp_all
    have same: "(h @ t) ! k = p ! k" if "k < off" for k using that h by (simp add: nth_append)
    have "payloadOffset (h @ t) = payloadOffset p"
      using same True by (intro payloadOffset_cong) simp_all
    moreover have "take 3 (h @ t) = take 3 p"
      using off h by (simp add: PacketSize_def min_def)
    moreover have "pcrBase (h @ t) = pcrBase p"
      unfolding h(1) using True assms(1) off by (intro pcrBase_kept [OF assms(2)]) simp_all
    moreover have "discontinuity (h @ t) = discontinuity p"
      using same [of 3] same [of 4] same [of 5] True by (simp add: discontinuity_def)
    ultimately show ?thesis
      using assms(2,4) h same [of 3] off by (simp add: same_envelope_def)
  next
    case False
    then have h: "h = [p ! 0, p ! 1, p ! 2, (p ! 3 AND 0xCF) OR 0x10]"
      unfolding h_def kept_header_def if_not_P [OF False] using assms(1) take_4 [of p] by (simp add: PacketSize_def)
    have t3: "take 3 p = [p ! 0, p ! 1, p ! 2]"
      using take_take [of 3 4 p] take_4 [of p] assms(1) by (simp add: PacketSize_def)
    have n3: "(h @ t) ! 3 = (p ! 3 AND 0xCF) OR 0x10" by (simp add: h)
    have "payloadOffset (h @ t) = Some 4"
      unfolding payloadOffset_def Let_def n3 byte3_bits(2) by (simp add: PacketSize_def)
    moreover have "pcrBase (h @ t) = pcrBase p"
      unfolding pcrBase_stuffing [OF assms(2) False] unfolding h by (simp add: pcrBase_def byte3_bits)
    moreover have "\<not> discontinuity (h @ t)" unfolding discontinuity_def n3 byte3_bits(3) by simp
    moreover have "\<not> discontinuity p"
      using payloadOffset_adaptation [OF assms(2)] False
      by (auto simp: discontinuity_def word_less_nat_alt split: if_splits)
    ultimately show ?thesis
      using assms(2,4) unfolding same_envelope_def t3 h by (simp add: byte3_bits)
  qed
  then show "payloadOffset (h @ t) = Some (length h)" "same_envelope p (h @ t)" by auto
qed

text \<open>The section a packet carries.\<close>

definition section_of :: "bytes \<Rightarrow> byte \<Rightarrow> bytes option" where
  "section_of p tid =
     (case singleSection p tid of Some (Some (s, e)) \<Rightarrow> Some (take (e - s) (drop s p)) | _ \<Rightarrow> None)"

lemma section_of_framed:
  assumes "payloadOffset (h @ 0 # sec @ r) = Some (length h)" "pktPUSI (h @ 0 # sec @ r)"
    "length (h @ 0 # sec @ r) = PacketSize" "sec ! 0 = tid" "len12 (sec ! 1) (sec ! 2) + 3 = length sec"
  shows "singleSection (h @ 0 # sec @ r) tid = Some (Some (length h + 1, length h + 1 + length sec))"
    "section_of (h @ 0 # sec @ r) tid = Some sec"
proof -
  let ?q = "h @ 0 # sec @ r"
  have nth: "?q ! (length h + 1 + k) = sec ! k" if "k < length sec" for k
    using that by (simp add: nth_append)
  have ne: "sec \<noteq> []" using assms(5) by auto
  have q: "?q ! (length h + 1) = sec ! 0" "?q ! (length h + 1 + 1) = sec ! 1" "?q ! (length h + 1 + 2) = sec ! 2"
    "?q ! length h = 0"
    using nth [of 0] nth [of 1] nth [of 2] assms(5) ne by simp_all
  have b: "length h + 1 + 3 \<le> PacketSize" "length h + 1 + length sec \<le> PacketSize"
    using assms(3,5) by simp_all
  have i: "idx ?q (length h) = Some 0" "idx ?q (length h + 1) = Some (sec ! 0)"
    "idx ?q (length h + 1 + 1) = Some (sec ! 1)" "idx ?q (length h + 1 + 2) = Some (sec ! 2)"
    using q assms(3) b by (simp_all add: idx_eq_Some_iff del: append.simps)
  show s: "singleSection ?q tid = Some (Some (length h + 1, length h + 1 + length sec))"
    unfolding singleSection_def Let_def using assms(1,2,4,5) i b
    by (simp del: append.simps)
  show "section_of ?q tid = Some sec"
    unfolding section_of_def s by simp
qed

lemma rewritePMT_SomeD:
  assumes "length p = PacketSize" "rewritePMT p pid = Some (Some np, pi, valid)"
  obtains sec off where "section_of p 0x02 = Some sec" "parsePMT sec = Some (pi, True)"
    "payloadOffset p = Some off" "pktPUSI p" "length sec \<le> PacketSize"
    "\<forall>e \<in> set (pm_streams pi). es_pid e \<noteq> pid"
    "rebuilt_bytes p off (appendCRC (rewritten_bytes sec pi pid)) = Some np"
proof -
  obtain se where se: "singleSection p 0x02 = Some se" using singleSection_total [OF assms(1)] by blast
  with assms(2) obtain s e where s: "singleSection p 0x02 = Some (Some (s, e))"
    by (cases se) (auto simp: rewritePMT_unfold [OF assms(1)])
  note b = singleSection_bounds [OF s assms(1)]
  let ?sec = "take (e - s) (drop s p)"
  have ss: "subslice p s e = Some ?sec" and sf: "slice_from p e = Some (drop e p)"
    using b assms(1) by simp_all
  obtain pi0 ok where pm: "parsePMT ?sec = Some (pi0, ok)" using parsePMT_total by blast
  obtain off where off: "payloadOffset p = Some off" and pusi: "pktPUSI p"
    using s by (auto simp: singleSection_def split: if_splits option.splits)
  have "ok" "pi0 = pi" "\<not> list_ex (\<lambda>e. es_pid e = pid) (pm_streams pi)"
    "rebuilt_bytes p off (appendCRC (rewritten_bytes ?sec pi pid)) = Some np"
    using assms(2) unfolding rewritePMT_unfold [OF assms(1)] s ss sf pm off
    by (auto simp: ss pm sf Let_def split: if_splits)
  then show thesis
    using that [of ?sec off] pm off pusi b s by (auto simp: section_of_def list_ex_iff)
qed

lemma rewritePMT_correct:
  assumes p: "length p = PacketSize" and pid: "pid < 0x2000"
    and rw: "rewritePMT p pid = Some (Some np, pi, valid)"
  shows "\<exists>sec sec'. section_of p 0x02 = Some sec \<and> parsePMT sec = Some (pi, True) \<and>
    section_of np 0x02 = Some sec' \<and> announces pid sec pi sec' \<and> same_envelope p np"
proof -
  from rewritePMT_SomeD [OF p rw] obtain sec off where
    sec: "section_of p 0x02 = Some sec" "parsePMT sec = Some (pi, True)" "length sec \<le> PacketSize"
    and off: "payloadOffset p = Some off" and pusi: "pktPUSI p"
    and np: "rebuilt_bytes p off (appendCRC (rewritten_bytes sec pi pid)) = Some np"
    by metis
  define sec' where "sec' = appendCRC (rewritten_bytes sec pi pid)"
  have l: "length sec < 4000" using sec(3) by (simp add: PacketSize_def)
  note new = parsePMT_rewritten [OF sec(2) pid l, folded sec'_def]
  define h where "h = kept_header p off"
  define r where "r = replicate (PacketSize - (length h + 1 + length sec')) (0xFF :: byte)"
  have np': "np = h @ 0 # sec' @ r" and fits: "length h + 1 + length sec' \<le> PacketSize"
    using np rebuilt_bytes_eq [OF p, of off sec'] payloadOffset_bounds [OF off]
    unfolding h_def r_def sec'_def by (auto split: if_splits)
  have len: "length (h @ 0 # sec' @ r) = PacketSize" using fits by (simp add: r_def)
  have kp: "payloadOffset np = Some (length h)" "same_envelope p np"
    unfolding np' h_def by (rule kept_header_payload [OF p off]; use len in \<open>simp add: h_def\<close>)+
  then have "np ! 1 = p ! 1"
    unfolding same_envelope_def using nth_take [of 1 3 np] nth_take [of 1 3 p] by simp
  then have "pktPUSI np" using pusi by (simp add: pktPUSI_def)
  then have "section_of np 0x02 = Some sec'"
    unfolding np' by (intro section_of_framed) (use kp new len np' in auto)
  with sec new kp show ?thesis by blast
qed

section \<open>Packetisation\<close>

text \<open>The packets of a payload, as a list.\<close>

definition ts_header :: "u16 \<Rightarrow> byte \<Rightarrow> bool \<Rightarrow> bytes" where
  "ts_header pid cc first =
     [syncByte, (byte_of (drop_bit 8 pid) AND 0x1F) OR (if first then 0x40 else 0), byte_of pid,
      0x10 OR (cc AND 0x0F)]"

function ts_packets :: "bytes \<Rightarrow> u16 \<Rightarrow> byte \<Rightarrow> bool \<Rightarrow> bytes list" where
  "ts_packets payload pid cc first =
     (if payload = [] then []
      else (ts_header pid cc first @ take 184 payload @ replicate (184 - length payload) 0xFF)
           # ts_packets (drop 184 payload) pid ((cc + 1) AND 0x0F) False)"
  by pat_completeness auto
termination
  by (relation "measure (\<lambda>(payload, pid, cc, first). length payload)") auto

declare ts_packets.simps [simp del]

fun next_cc :: "byte \<Rightarrow> nat \<Rightarrow> byte" where
  "next_cc cc 0 = cc"
| "next_cc cc (Suc n) = next_cc ((cc + 1) AND 0x0F) n"

lemma packetize_loop_eq:
  "packetize_loop dst payload pid cc first =
     (dst @ concat (ts_packets payload pid cc first), next_cc cc (length (ts_packets payload pid cc first)))"
proof (induction "length payload" arbitrary: dst payload cc first rule: less_induct)
  case less
  show ?case
  proof (cases "payload = []")
    case False
    let ?n = "min (length payload) 184"
    let ?h = "ts_header pid cc first"
    let ?c = "(cc + 1) AND 0x0F"
    have tk: "take ?n payload = take 184 payload" "drop ?n payload = drop 184 payload"
      "184 - ?n = 184 - length payload" by (simp_all add: min_def)
    have step: "packetize_loop dst payload pid cc first =
      packetize_loop (dst @ ?h @ take 184 payload @ replicate (184 - length payload) 0xFF)
        (drop 184 payload) pid ?c False"
      using False by (subst packetize_loop.simps) (simp add: Let_def PacketSize_def ts_header_def tk)
    have ih: "packetize_loop d (drop 184 payload) pid ?c False =
      (d @ concat (ts_packets (drop 184 payload) pid ?c False), next_cc ?c (length (ts_packets (drop 184 payload) pid ?c False)))"
      for d using False by (intro less) simp
    show ?thesis
      unfolding step ih using False
      by (subst (3 4) ts_packets.simps) simp
  qed (simp add: packetize_loop.simps ts_packets.simps)
qed

lemma packetize_eq:
  "packetize dst sect pid cc =
     (dst @ concat (ts_packets (0 # sect) pid cc True), next_cc cc (length (ts_packets (0 # sect) pid cc True)))"
  by (simp add: packetize_def packetize_loop_eq)

lemma length_ts_packets: "length (ts_packets payload pid cc first) = (length payload + 183) div 184"
proof (induction "length payload" arbitrary: payload cc first rule: less_induct)
  case less
  show ?case
  proof (cases "payload = []")
    case False
    then have "length (ts_packets (drop 184 payload) pid ((cc + 1) AND 0x0F) False) = (length payload - 184 + 183) div 184"
      using less [of "drop 184 payload"] by simp
    moreover have e: "(length payload + 183) div 184 = Suc ((length payload - 1) div 184)"
      using False by (cases payload) simp_all
    ultimately show ?thesis
      using False by (subst ts_packets.simps) (cases "length payload \<ge> 184"; simp add: e)
  qed (simp add: ts_packets.simps)
qed

lemma cc_nibble: "(cc AND 0x0F) AND 0x0F = (cc AND 0x0F :: byte)"
  by (simp add: and.assoc)

lemma nibble_unat: "unat ((x :: byte) AND 0x0F) = unat x mod 16"
proof -
  have "x AND 0x0F = take_bit 4 x" by (simp add: take_bit_eq_mask mask_eq_exp_minus_1)
  then show ?thesis by (simp add: unsigned_take_bit_eq take_bit_eq_mod unat_mod_distrib)
qed

lemma next_cc_unat: "unat (next_cc cc n AND 0x0F) = (unat cc + n) mod 16"
proof (induction cc n rule: next_cc.induct)
  case (2 cc n)
  have "unat ((cc + 1) AND 0x0F) = (unat cc + 1) mod 16"
    by (simp add: nibble_unat unat_word_ariths mod_mod_cancel)
  with 2 show ?case by (simp add: mod_simps)
qed (simp add: nibble_unat)

lemma next_cc_nibble: "0 < n \<Longrightarrow> next_cc cc n AND 0x0F = next_cc cc n"
proof (induction cc n rule: next_cc.induct)
  case (2 cc n)
  then show ?case by (cases n) (simp_all add: cc_nibble)
qed simp

lemma ts_header_fields:
  assumes "pid < 0x2000"
  shows "pktPID (ts_header pid cc first @ t) = pid"
    "pktPUSI (ts_header pid cc first @ t) = first"
    "payloadOffset (ts_header pid cc first @ t) = Some 4"
    "(ts_header pid cc first @ t) ! 3 AND 0x0F = cc AND 0x0F"
    "(ts_header pid cc first @ t) ! 0 = syncByte"
    "(ts_header pid cc first @ t) ! 1 AND 0x80 = 0"
proof -
  let ?h1 = "(byte_of (drop_bit 8 pid) AND 0x1F) OR (if first then 0x40 else 0)"
  have h1: "?h1 AND 0x40 \<noteq> 0 \<longleftrightarrow> first" "?h1 AND 0x80 = 0" "?h1 AND 0x1F = byte_of (drop_bit 8 pid) AND 0x1F"
    by (simp_all add: bit.conj_disj_distrib2 and.assoc)
  show "pktPID (ts_header pid cc first @ t) = pid"
    using pid_bytes [OF assms] by (simp add: pktPID_def ts_header_def pid13_def h1 bit.conj_disj_distrib2 and.assoc)
  show "pktPUSI (ts_header pid cc first @ t) = first"
    using h1 by (simp add: pktPUSI_def ts_header_def)
  show "(ts_header pid cc first @ t) ! 1 AND 0x80 = 0"
    using h1 by (simp add: ts_header_def)
  show "(ts_header pid cc first @ t) ! 3 AND 0x0F = cc AND 0x0F"
    by (simp add: ts_header_def bit.conj_disj_distrib2 and.assoc)
  show "payloadOffset (ts_header pid cc first @ t) = Some 4"
    by (simp add: payloadOffset_def ts_header_def PacketSize_def)
  show "(ts_header pid cc first @ t) ! 0 = syncByte" by (simp add: ts_header_def)
qed

section \<open>Reassembly\<close>

definition in_sync :: "bytes \<Rightarrow> bool" where
  "in_sync p \<longleftrightarrow> length p = PacketSize \<and> p ! 0 = syncByte \<and> p ! 1 AND 0x80 = 0"

lemma packets_from_concat:
  assumes "\<And>p. p \<in> set ps \<Longrightarrow> in_sync p"
  shows "packets_from (a @ concat ps) (length a) = ps"
  using assms
proof (induction ps arbitrary: a)
  case (Cons p ps)
  then have p: "length p = PacketSize" "p ! 0 = syncByte" "p ! 1 AND 0x80 = 0"
    by (auto simp: in_sync_def)
  have "packets_from (a @ concat (p # ps)) (length a) = p # packets_from ((a @ p) @ concat ps) (length (a @ p))"
    by (subst packets_from.simps) (simp add: p(1,2) p(3) [simplified] Let_def)
  then show ?case using Cons.IH [of "a @ p"] Cons.prems by simp
qed (simp add: packets_from.simps PacketSize_def)

lemma ts_packets_in_sync:
  assumes "pid < 0x2000" "p \<in> set (ts_packets payload pid cc first)"
  shows "in_sync p" "pktPID p = pid"
proof -
  have "in_sync p \<and> pktPID p = pid"
    using assms(2)
  proof (induction "length payload" arbitrary: payload cc first rule: less_induct)
    case less
    show ?case
    proof (cases "payload = []")
      case False
      let ?p = "ts_header pid cc first @ take 184 payload @ replicate (184 - length payload) 0xFF"
      have "in_sync ?p" "pktPID ?p = pid"
        using ts_header_fields [OF assms(1)]
        by (simp_all add: in_sync_def PacketSize_def min_def) (simp add: ts_header_def)
      moreover have "p = ?p \<or> p \<in> set (ts_packets (drop 184 payload) pid ((cc + 1) AND 0x0F) False)"
        using less.prems False by (subst (asm) ts_packets.simps) simp
      ultimately show ?thesis using less.hyps [of "drop 184 payload"] False by auto
    qed (use less.prems in \<open>simp add: ts_packets.simps\<close>)
  qed
  then show "in_sync p" "pktPID p = pid" by auto
qed

text \<open>A complete section as \<^verbatim>\<open>emit\<close> frames it.\<close>

definition complete :: "bytes \<Rightarrow> bool" where
  "complete s \<longleftrightarrow> 3 \<le> length s \<and> s ! 0 \<noteq> 0xFF \<and> length s = 3 + len12 (s ! 1) (s ! 2)"

lemma emit_partial:
  assumes "complete (b @ rest)" "rest \<noteq> []" "as_buf a = b" "b \<noteq> []"
  shows "emit pid a out errs = Some (a, out, errs)"
proof (cases "length b < 3")
  case False
  then have "len12 (b ! 1) (b ! 2) = len12 ((b @ rest) ! 1) ((b @ rest) ! 2)"
    by (simp add: nth_append)
  moreover have "0 < length rest" using assms(2) by simp
  ultimately have "length b < 3 + len12 (b ! 1) (b ! 2)"
    using assms(1) unfolding complete_def length_append by linarith
  then show ?thesis
    using assms False by (subst emit_unfold) (simp add: complete_def nth_append)
next
  case True
  then show ?thesis
    using assms by (subst emit_unfold) (simp add: complete_def nth_append)
qed

lemma emit_complete:
  assumes "complete s" "as_buf a = s @ replicate k 0xFF" "Parse s = Some (i, e)"
  shows "emit pid a out errs =
    (case e of None \<Rightarrow> Some (asm_reset a, out @ [i\<lparr>in_PID := pid\<rparr>], errs)
     | Some e \<Rightarrow> Some (asm_reset a, out, errs @ [(pid, e)]))"
proof -
  have n: "(s @ r) ! 0 = s ! 0" "(s @ r) ! 1 = s ! 1" "(s @ r) ! 2 = s ! 2" for r
    using assms(1) by (auto simp: complete_def nth_append)
  let ?a = "a\<lparr>as_buf := replicate k 0xFF\<rparr>"
  have rest: "emit pid ?a o' e' = Some (asm_reset a, o', e')" for o' e'
    by (subst emit_unfold) (cases k; simp add: asm_reset_def)
  have "emit pid a out errs = (case e of
      Some e \<Rightarrow> emit pid ?a out (errs @ [(pid, e)])
    | None \<Rightarrow> emit pid ?a (out @ [i\<lparr>in_PID := pid\<rparr>]) errs)"
    using assms(1,3) unfolding complete_def
    by (subst emit_unfold) (simp add: assms(2) n Let_def del: One_nat_def)
  then show ?thesis by (simp add: rest split: option.splits)
qed

lemma extract_other:
  "\<not> scte (pktPID p) \<Longrightarrow> extract_packet scte x p = Some x"
  by (simp add: extract_packet_def)

lemma extract_continuation:
  assumes "scte pid" "pid < 0x2000" "ex_state x pid = Some a" "as_active a" "as_cc a \<ge> 0"
    "int (unat (cc AND 0x0F)) = (as_cc a + 1) AND 0x0F" "length pl = 184"
  shows "extract_packet scte x (ts_header pid cc False @ pl) =
    emit pid (a\<lparr>as_cc := int (unat (cc AND 0x0F)), as_buf := as_buf a @ pl\<rparr>) (ex_out x) (ex_errs x)
      \<bind> (\<lambda>r. Some (put_asm pid x r))"
proof -
  have l: "length (ts_header pid cc False) = 4" by (simp add: ts_header_def)
  have "asm_for x pid (int (unat (cc AND 0x0F))) = a\<lparr>as_cc := int (unat (cc AND 0x0F))\<rparr>"
    using assms(3,6) by (simp add: asm_for_def Let_def)
  then show ?thesis
    unfolding extract_packet_def Let_def ts_header_fields [OF assms(2)]
    using assms(1,4) l by (simp add: ts_header_fields [OF assms(2)])
qed

text \<open>An assembler between two sections: nothing buffered, and the next counter value is \<open>cc\<close>.\<close>

definition ready :: "extraction \<Rightarrow> u16 \<Rightarrow> byte \<Rightarrow> bool" where
  "ready x pid cc \<longleftrightarrow>
     (case ex_state x pid of None \<Rightarrow> True
      | Some a \<Rightarrow> \<not> as_active a \<and> 0 \<le> as_cc a \<and> (as_cc a + 1) AND 0x0F = int (unat (cc AND 0x0F)))"

lemma extract_start:
  assumes "scte pid" "pid < 0x2000" "ready x pid cc" "length pl = 183"
  shows "extract_packet scte x (ts_header pid cc True @ 0 # pl) =
    emit pid \<lparr>as_buf = pl, as_active = True, as_cc = int (unat (cc AND 0x0F))\<rparr> (ex_out x) (ex_errs x)
      \<bind> (\<lambda>r. Some (put_asm pid x r))"
proof -
  let ?cc = "uint (cc AND 0x0F)"
  have l: "length (ts_header pid cc True) = 4" by (simp add: ts_header_def)
  have a: "\<not> as_active (asm_for x pid ?cc)" "as_cc (asm_for x pid ?cc) = ?cc"
    using assms(3) by (auto simp: asm_for_def ready_def Let_def split: option.splits)
  have e: "(asm_for x pid ?cc)\<lparr>as_buf := pl, as_active := True\<rparr> = \<lparr>as_buf = pl, as_active = True, as_cc = ?cc\<rparr>"
    using a(2) by (cases "asm_for x pid ?cc") simp
  show ?thesis
    unfolding extract_packet_def Let_def ts_header_fields [OF assms(2)]
    using assms(1,4) l a(1) by (simp add: ts_header_fields [OF assms(2)] e)
qed

lemma cc_succ: "(int (unat (cc AND 0x0F)) + 1) AND 0x0F = int (unat (((cc + 1) AND 0x0F) AND (0x0F :: byte)))"
proof -
  have i: "(x AND 0x0F :: int) = x mod 16" for x
    using take_bit_eq_mask [of 4 x] by (simp add: take_bit_eq_mod mask_eq_exp_minus_1)
  have "unat (((cc + 1) AND 0x0F) AND 0x0F) = (unat cc + 1) mod 16"
    by (simp add: nibble_unat cc_nibble unat_word_ariths mod_mod_cancel)
  then show ?thesis
    unfolding i nibble_unat [of cc] by (simp add: of_nat_mod mod_simps add.commute)
qed

definition delivered :: "u16 \<Rightarrow> info \<Rightarrow> scte_error option \<Rightarrow> extraction \<Rightarrow> extraction \<Rightarrow> byte \<Rightarrow> bool" where
  "delivered pid i e x x' cc \<longleftrightarrow> ready x' pid cc \<and>
     (\<forall>q. q \<noteq> pid \<longrightarrow> ex_state x' q = ex_state x q) \<and>
     ex_out x' = ex_out x @ (if e = None then [i\<lparr>in_PID := pid\<rparr>] else []) \<and>
     ex_errs x' = ex_errs x @ (case e of None \<Rightarrow> [] | Some e \<Rightarrow> [(pid, e)])"

lemma deliver:
  assumes "complete s" "as_buf a = s @ replicate k 0xFF" "Parse s = Some (i, e)"
    "as_cc a = int (unat (cc AND 0x0F))"
  shows "\<exists>x'. emit pid a (ex_out x) (ex_errs x) \<bind> (\<lambda>r. Some (put_asm pid x r)) = Some x' \<and>
    delivered pid i e x x' ((cc + 1) AND 0x0F)"
  using emit_complete [OF assms(1-3)] cc_succ [of cc] assms(4)
  by (cases e) (auto simp: delivered_def ready_def put_asm_def asm_reset_def)

lemma extract_rest:
  assumes "scte pid" "pid < 0x2000" "complete (b @ rest)" "Parse (b @ rest) = Some (i, e)" "b \<noteq> []" "rest \<noteq> []"
    "ex_state x pid = Some a" "as_active a" "as_buf a = b" "as_cc a \<ge> 0"
    "(as_cc a + 1) AND 0x0F = int (unat (cc AND 0x0F))"
  shows "\<exists>x'. extract_packets scte x (ts_packets rest pid cc False) = Some x' \<and>
    delivered pid i e x x' (next_cc cc (length (ts_packets rest pid cc False)))"
  using assms(3-)
proof (induction "length rest" arbitrary: b rest x a cc rule: less_induct)
  case less
  let ?pl = "take 184 rest @ replicate (184 - length rest) 0xFF"
  let ?c = "(cc + 1) AND 0x0F"
  let ?a = "a\<lparr>as_cc := int (unat (cc AND 0x0F)), as_buf := b @ ?pl\<rparr>"
  have split: "ts_packets rest pid cc False =
      (ts_header pid cc False @ ?pl) # ts_packets (drop 184 rest) pid ?c False"
    using less.prems by (subst ts_packets.simps) simp
  have first: "extract_packet scte x (ts_header pid cc False @ ?pl) =
      emit pid ?a (ex_out x) (ex_errs x) \<bind> (\<lambda>r. Some (put_asm pid x r))"
    using extract_continuation [of scte pid x a cc ?pl] assms(1,2) less.prems by simp
  show ?case
  proof (cases "length rest > 184")
    case True
    let ?b = "b @ take 184 rest" and ?r = "drop 184 rest"
    let ?a' = "a\<lparr>as_cc := int (unat (cc AND 0x0F)), as_buf := ?b\<rparr>"
    let ?x = "put_asm pid x (?a', ex_out x, ex_errs x)"
    have "emit pid ?a (ex_out x) (ex_errs x) = Some (?a', ex_out x, ex_errs x)"
      using True less.prems emit_partial [of ?b ?r ?a'] by simp
    with first have s1: "extract_packet scte x (ts_header pid cc False @ ?pl) = Some ?x" by simp
    have "\<exists>x'. extract_packets scte ?x (ts_packets ?r pid ?c False) = Some x' \<and>
        delivered pid i e ?x x' (next_cc ?c (length (ts_packets ?r pid ?c False)))"
      using True less.prems cc_succ [of cc]
      by (intro less.hyps [where b = ?b and a = ?a']) (simp_all add: put_asm_def)
    then show ?thesis
      unfolding split extract_packets.simps s1 by (auto simp: delivered_def put_asm_def)
  next
    case False
    then have "as_buf ?a = (b @ rest) @ replicate (184 - length rest) 0xFF" by simp
    from deliver [OF less.prems(1) this less.prems(2), of cc pid x]
    obtain x' where x': "extract_packet scte x (ts_header pid cc False @ ?pl) = Some x'"
      "delivered pid i e x x' ?c" using first by auto
    moreover have "ts_packets (drop 184 rest) pid ?c False = []"
      using False by (simp add: ts_packets.simps)
    ultimately show ?thesis unfolding split extract_packets.simps by simp
  qed
qed

text \<open>Every section that is packetised is reassembled from its packets and decoded.\<close>

lemma extract_packetize:
  assumes "scte pid" "pid < 0x2000" "complete s" "Parse s = Some (i, e)" "ready x pid cc"
  shows "\<exists>x'. extract_packets scte x (ts_packets (0 # s) pid cc True) = Some x' \<and>
    delivered pid i e x x' (next_cc cc (length (ts_packets (0 # s) pid cc True)))"
proof -
  let ?pl = "take 183 s @ replicate (183 - length s) 0xFF"
  let ?c = "(cc + 1) AND 0x0F"
  let ?a = "\<lparr>as_buf = ?pl, as_active = True, as_cc = int (unat (cc AND 0x0F))\<rparr>"
  have split: "ts_packets (0 # s) pid cc True =
      (ts_header pid cc True @ 0 # ?pl) # ts_packets (drop 183 s) pid ?c False"
    by (subst ts_packets.simps) simp
  have first: "extract_packet scte x (ts_header pid cc True @ 0 # ?pl) =
      emit pid ?a (ex_out x) (ex_errs x) \<bind> (\<lambda>r. Some (put_asm pid x r))"
    using extract_start [of scte pid x cc ?pl] assms(1,2,5) by simp
  show ?thesis
  proof (cases "length s > 183")
    case True
    let ?x = "put_asm pid x (?a, ex_out x, ex_errs x)"
    have "take 183 s \<noteq> []" "drop 183 s \<noteq> []" using True by auto
    then have "emit pid ?a (ex_out x) (ex_errs x) = Some (?a, ex_out x, ex_errs x)"
      using True assms(3) by (intro emit_partial [of "take 183 s" "drop 183 s"]) simp_all
    with first have s1: "extract_packet scte x (ts_header pid cc True @ 0 # ?pl) = Some ?x" by simp
    have "\<exists>x'. extract_packets scte ?x (ts_packets (drop 183 s) pid ?c False) = Some x' \<and>
        delivered pid i e ?x x' (next_cc ?c (length (ts_packets (drop 183 s) pid ?c False)))"
      using True assms cc_succ [of cc] \<open>take 183 s \<noteq> []\<close>
      by (intro extract_rest [where b = "take 183 s" and a = ?a]) (simp_all add: put_asm_def)
    then show ?thesis
      unfolding split extract_packets.simps s1 by (auto simp: delivered_def put_asm_def)
  next
    case False
    then have "as_buf ?a = s @ replicate (183 - length s) 0xFF" by simp
    from deliver [OF assms(3) this assms(4), of cc pid x]
    obtain x' where x': "extract_packet scte x (ts_header pid cc True @ 0 # ?pl) = Some x'"
      "delivered pid i e x x' ?c" using first by auto
    moreover have "ts_packets (drop 183 s) pid ?c False = []"
      using False by (simp add: ts_packets.simps)
    ultimately show ?thesis unfolding split extract_packets.simps by simp
  qed
qed

section \<open>Correctness of the transport-stream layer\<close>

text \<open>
  C3. When \<^verbatim>\<open>rewritePMT\<close> returns a packet for a 13-bit PID, the input packet carries a valid
  PMT section and the new packet carries one that parses, with a correct checksum, to the same PCR
  and video PIDs and the same elementary streams followed by the SCTE-35 stream; the program number
  is kept, the version is one more modulo 32, and CUEI is registered in program_info when the input's
  descriptors fill it exactly. The packet keeps its length, its first three bytes, its continuity
  counter, its discontinuity indicator and its PCR.
\<close>

theorem rewritePMT_announces:
  assumes "length p = PacketSize" "pid < 0x2000" "rewritePMT p pid = Some (Some np, pi, valid)"
  shows "\<exists>sec sec'. section_of p 0x02 = Some sec \<and> parsePMT sec = Some (pi, True) \<and>
    section_of np 0x02 = Some sec' \<and> announces pid sec pi sec' \<and> same_envelope p np"
  using assms by (rule rewritePMT_correct)

definition demoPMT :: bytes where
  "demoPMT = appendCRC [0x02, 0xB0, 0x12, 0x00, 0x01, 0xC1, 0x00, 0x00, 0xE1, 0x00, 0xF0, 0x00,
     0x1B, 0xE1, 0x00, 0xF0, 0x00]"

definition demoPMTPacket :: bytes where
  "demoPMTPacket = [0x47, 0x50, 0x00, 0x10] @ 0 # demoPMT @ replicate 162 0xFF"

definition demoPMTInfo :: pmtInfo where
  "demoPMTInfo = foldl add_es (pmt_header demoPMT False) [\<lparr>streamType = 0x1B, es_pid = 0x100\<rparr>]"

lemma demoPMT_length: "length demoPMT = 21" "length demoPMTPacket = PacketSize"
  by (simp_all add: demoPMT_def demoPMTPacket_def PacketSize_def)

lemma demoPMT_nth:
  "demoPMT ! 0 = 2" "demoPMT ! Suc 0 = 0xB0" "demoPMT ! 2 = 0x12" "demoPMT ! 10 = 0xF0" "demoPMT ! 11 = 0"
  by (simp_all add: demoPMT_def appendCRC_def)

lemma demoPMT_parse: "parsePMT demoPMT = Some (demoPMTInfo, True)"
proof -
  have l: "len12 0xF0 0 = 0" by (simp add: len12_def)
  have d: "take 5 (drop 12 demoPMT) = [0x1B, 0xE1, 0x00, 0xF0, 0x00]"
    by (simp add: demoPMT_def appendCRC_def)
  have "es_walk [0x1B, 0xE1, 0x00, 0xF0, 0x00] = Some [\<lparr>streamType = 0x1B, es_pid = 0x100\<rparr>]"
    by (simp add: es_walk.simps l pid13_def)
  then show ?thesis
    unfolding parsePMT_iff
    by (simp add: demoPMT_nth demoPMT_length l d pi_loop_short demoPMTInfo_def)
      (auto simp: demoPMT_def)
qed

lemma demoPMT_rewrite: "\<exists>np. rewritePMT demoPMTPacket 500 = Some (Some np, demoPMTInfo, True)"
proof -
  have off: "payloadOffset demoPMTPacket = Some 4"
    by (simp add: payloadOffset_def demoPMTPacket_def PacketSize_def)
  have "singleSection ([0x47, 0x50, 0x00, 0x10] @ 0 # demoPMT @ replicate 162 0xFF) 0x02 =
      Some (Some (length [0x47, 0x50, 0x00, 0x10 :: byte] + 1, length [0x47, 0x50, 0x00, 0x10 :: byte] + 1 + length demoPMT))"
    by (rule section_of_framed)
      (simp_all add: payloadOffset_def pktPUSI_def PacketSize_def demoPMT_nth demoPMT_length len12_def)
  then have s: "singleSection demoPMTPacket 0x02 = Some (Some (5, 26))"
    by (simp add: demoPMTPacket_def demoPMT_length)
  have ss: "subslice demoPMTPacket 5 26 = Some demoPMT" "slice_from demoPMTPacket 26 = Some (replicate 162 0xFF)"
    by (simp_all add: demoPMT_length PacketSize_def) (simp_all add: demoPMTPacket_def demoPMT_length)
  have st: "pm_streams demoPMTInfo = [\<lparr>streamType = 0x1B, es_pid = 0x100\<rparr>]"
    by (simp add: demoPMTInfo_def pmt_header_def pmtInfo0_def del: foldl.simps)
  have hc: "\<not> pm_hasCUEI demoPMTInfo" by (simp add: demoPMTInfo_def pmt_header_def del: foldl.simps)
  have "length (rewritten_bytes demoPMT demoPMTInfo 500) \<le> 40"
    using rewritten_bytes_eq [of demoPMT demoPMTInfo 500] parsePMT_header [OF demoPMT_parse] hc
    by (simp add: demoPMT_length program_info_def es_bytes_def cuei_descriptor_def pmt_entry_def demoPMT_nth len12_def)
  then have "\<exists>np. rebuilt_bytes demoPMTPacket 4 (appendCRC (rewritten_bytes demoPMT demoPMTInfo 500)) = Some np"
    using rebuilt_bytes_eq [of demoPMTPacket 4] demoPMT_length
    by (simp add: PacketSize_def kept_header_def)
  then show ?thesis
    by (simp add: rewritePMT_unfold [OF demoPMT_length(2)] s ss demoPMT_parse st off list_ex_iff)
qed

theorem rewritePMT_announces_witness:
  "\<exists>np sec sec'. section_of demoPMTPacket 0x02 = Some sec \<and> parsePMT sec = Some (demoPMTInfo, True) \<and>
    section_of np 0x02 = Some sec' \<and> announces 500 sec demoPMTInfo sec' \<and> same_envelope demoPMTPacket np"
proof -
  obtain np where "rewritePMT demoPMTPacket 500 = Some (Some np, demoPMTInfo, True)" using demoPMT_rewrite ..
  from rewritePMT_announces [OF demoPMT_length(2) _ this] show ?thesis by auto
qed

text \<open>
  C8. A complete section of any length, cut into packets by \<^verbatim>\<open>packetize\<close> on a 13-bit PID with any
  starting continuity counter, is reassembled by the extraction from exactly those packets and
  decoded once: its decoded form is reported under that PID, or its decoding error is.
\<close>

theorem packetize_reassembles:
  assumes "pid < 0x2000" "complete s" "Parse s = Some (i, e)" "packetize [] s pid cc = (buf, cc')"
  shows "\<exists>x. extract_packets (\<lambda>q. q = pid) extraction0 (packets_from buf 0) = Some x \<and>
    ex_out x = (if e = None then [i\<lparr>in_PID := pid\<rparr>] else []) \<and>
    ex_errs x = (case e of None \<Rightarrow> [] | Some e \<Rightarrow> [(pid, e)])"
proof -
  let ?ts = "ts_packets (0 # s) pid cc True"
  have "packets_from ([] @ concat ?ts) (length ([] :: bytes)) = ?ts"
    by (rule packets_from_concat) (rule ts_packets_in_sync(1) [OF assms(1)])
  moreover have "buf = concat ?ts" using assms(4) by (simp add: packetize_eq)
  ultimately have buf: "packets_from buf 0 = ?ts" by simp
  have "ready extraction0 pid cc" by (simp add: ready_def extraction0_def)
  from extract_packetize [where scte = "\<lambda>q. q = pid", OF refl assms(1-3) this] show ?thesis
    unfolding buf by (auto simp: delivered_def extraction0_def)
qed

theorem packetize_reassembles_witness:
  "\<exists>x. extract_packets (\<lambda>q. q = 500) extraction0 (packets_from (fst (packetize [] (buildSection CmdSpliceNull [] []) 500 15)) 0) = Some x \<and>
    ex_out x = [(command_info CmdSpliceNull)\<lparr>in_PID := 500\<rparr>] \<and> ex_errs x = []"
proof -
  let ?s = "buildSection CmdSpliceNull [] []"
  have "framed ?s" by (rule framed_buildSection) simp
  then have c: "complete ?s" by (simp add: framed_def complete_def tableID_def)
  have p: "Parse ?s = Some (command_info CmdSpliceNull, None)"
    using Parse_splice_null [of "[]"] by simp
  show ?thesis
    using packetize_reassembles [OF _ c p, of 500 15 "fst (packetize [] ?s 500 15)" "snd (packetize [] ?s 500 15)"]
    by simp
qed

text \<open>
  \<^verbatim>\<open>ExtractSections\<close> never panics: on every byte string it returns a list of sections and
  an error value.
\<close>

theorem ExtractSections_never_panics:
  "\<exists>infos err. ExtractSections ts = Some (infos, err)"
  by (rule ExtractSections_total)

end
