(* ===== verification/Scte35_Injector.thy ===== *)
theory Scte35_Injector
  imports Scte35_TS
begin

text \<open>
  \<^verbatim>\<open>streamhub-encoder/internal/scte35/injector.go\<close>: the state machine that follows PAT and
  PMT, tracks the video PTS and the PCR, queues cues and emits them after a datagram.

  The mutex makes each method one atomic step, so a method is a function from the injector's state
  to its new state. The int64 counters are integers: they count events and cannot overflow within
  the life of a process.
\<close>

section \<open>State\<close>

definition PacketsPerDatagram :: nat where "PacketsPerDatagram = 7"

record pendingSection =
  ps_section :: bytes
  ps_cue :: "cue option"
  ps_pts :: u64

record injector =
  ij_pid :: u16
  ij_cc :: byte
  ij_pmtPID :: u16
  ij_havePMT :: bool
  ij_videoPID :: u16
  ij_pcrPID :: u16
  ij_haveES :: bool
  ij_havePTS :: bool
  ij_lastPTS :: u64
  ij_havePCR :: bool
  ij_lastPCR :: u64
  ij_hbTicks :: u64
  ij_hbArmed :: bool
  ij_hbLast :: u64
  ij_pending :: "pendingSection list"
  ij_cuesSent :: int
  ij_heartbeatsSent :: int
  ij_pmtRewritten :: int
  ij_lastCue :: "cue option"
  ij_lastCuePTS :: u64

definition NewInjector :: "u16 \<Rightarrow> injector" where
  "NewInjector pid = \<lparr>ij_pid = pid AND 0x1FFF, ij_cc = 0, ij_pmtPID = 0, ij_havePMT = False,
     ij_videoPID = 0, ij_pcrPID = 0, ij_haveES = False, ij_havePTS = False, ij_lastPTS = 0,
     ij_havePCR = False, ij_lastPCR = 0, ij_hbTicks = 0, ij_hbArmed = False, ij_hbLast = 0,
     ij_pending = [], ij_cuesSent = 0, ij_heartbeatsSent = 0, ij_pmtRewritten = 0, ij_lastCue = None,
     ij_lastCuePTS = 0\<rparr>"

section \<open>Operations\<close>

text \<open>The duration is in nanoseconds; \<^verbatim>\<open>d.Microseconds()\<close> of a positive duration divides by
  1000.\<close>

definition SetHeartbeat :: "int \<Rightarrow> injector \<Rightarrow> injector" where
  "SetHeartbeat d i =
     (let i = (if d \<le> 0 then i\<lparr>ij_hbTicks := 0\<rparr>
               else i\<lparr>ij_hbTicks := max (word_of_int (d div 1000) * 9 div 100) 1\<rparr>)
      in i\<lparr>ij_hbArmed := False\<rparr>)"

datatype insert_error = UnknownCueKind string | NegativeTimes | NoVideoPTS | EncodeError scte_error

definition Insert :: "cue \<Rightarrow> injector \<Rightarrow> (insert_error + u64) \<times> injector" where
  "Insert c i =
     (if \<not> (Kind c = KindSpliceInsert \<or> Kind c = KindTimeSignal \<or> Kind c = KindSpliceNull)
      then (Inl (UnknownCueKind (Kind c)), i)
      else if PreRollMs c < 0 \<or> DurationMs c < 0 then (Inl NegativeTimes, i)
      else let scheduled = Kind c \<noteq> KindSpliceNull \<and> \<not> Immediate c in
        if scheduled \<and> \<not> ij_havePTS i then (Inl NoVideoPTS, i)
        else let pre = (if PreRollMs c = 0 then DefaultPreRollMs else PreRollMs c);
                 pts = (if scheduled then (ij_lastPTS i + msToTicks pre) AND mask33 else ij_lastPTS i)
             in case Encode c pts of
                  Inl err \<Rightarrow> (Inl (EncodeError err), i)
                | Inr sec \<Rightarrow> (Inr pts, i\<lparr>ij_pending := ij_pending i @
                    [\<lparr>ps_section = sec, ps_cue = Some c, ps_pts = pts\<rparr>]\<rparr>))"

record stats =
  st_CuesSent :: int
  st_HeartbeatsSent :: int
  st_Pending :: nat
  st_LastCue :: "cue option"
  st_LastCuePTS :: u64
  st_LastPTS :: u64
  st_LastPCR :: u64
  st_PMTRewritten :: int
  st_PMTPID :: "u16 option"
  st_VideoPID :: "u16 option"

definition Stats :: "injector \<Rightarrow> stats" where
  "Stats i = \<lparr>st_CuesSent = ij_cuesSent i, st_HeartbeatsSent = ij_heartbeatsSent i,
     st_Pending = length (ij_pending i), st_LastCue = ij_lastCue i, st_LastCuePTS = ij_lastCuePTS i,
     st_LastPTS = ij_lastPTS i, st_LastPCR = ij_lastPCR i, st_PMTRewritten = ij_pmtRewritten i,
     st_PMTPID = (if ij_havePMT i then Some (ij_pmtPID i) else None),
     st_VideoPID = (if ij_haveES i \<and> ij_videoPID i \<noteq> 0 then Some (ij_videoPID i) else None)\<rparr>"

definition onPAT :: "bytes \<Rightarrow> injector \<Rightarrow> injector option" where
  "onPAT p i =
     do { se \<leftarrow> singleSection p 0x00;
          (case se of
             None \<Rightarrow> Some i
           | Some (s, e) \<Rightarrow>
               do { sec \<leftarrow> subslice p s e;
                    r \<leftarrow> parsePAT sec;
                    (case r of
                       None \<Rightarrow> Some i
                     | Some v \<Rightarrow>
                         Some (if \<not> ij_havePMT i \<or> v \<noteq> ij_pmtPID i
                               then i\<lparr>ij_pmtPID := v, ij_havePMT := True, ij_haveES := False\<rparr>
                               else i)) }) }"

definition onPMT :: "bytes \<Rightarrow> injector \<Rightarrow> (bytes option \<times> injector) option" where
  "onPMT p i =
     do { (np, pi, valid) \<leftarrow> rewritePMT p (ij_pid i);
          if \<not> valid then Some (None, i)
          else do {
            let i = (if \<not> ij_haveES i \<or> pm_videoPID pi \<noteq> ij_videoPID i \<or> pm_pcrPID pi \<noteq> ij_pcrPID i
                     then i\<lparr>ij_videoPID := pm_videoPID pi, ij_pcrPID := pm_pcrPID pi, ij_haveES := True,
                            ij_havePTS := False, ij_havePCR := False, ij_hbArmed := False\<rparr>
                     else i);
            let i = (if np \<noteq> None then i\<lparr>ij_pmtRewritten := ij_pmtRewritten i + 1\<rparr> else i);
            Some (np, i) } }"

definition reorderWindow :: u64 where "reorderWindow = 10 * 90000"

definition onPTS :: "u64 \<Rightarrow> injector \<Rightarrow> injector" where
  "onPTS v i =
     (if \<not> ij_havePTS i then i\<lparr>ij_lastPTS := v, ij_havePTS := True\<rparr>
      else let d = (v - ij_lastPTS i) AND mask33 in
        if d < push_bit 32 1 \<or> push_bit 33 1 - d > reorderWindow then i\<lparr>ij_lastPTS := v\<rparr> else i)"

definition nullCue :: cue where
  "nullCue = \<lparr>Kind = KindSpliceNull, EventID = 0, OutOfNetwork = False, Immediate = False, PreRollMs = 0,
     DurationMs = 0, UniqueProgramID = 0, AvailNum = 0, AvailsExpected = 0, SegmentationTypeID = 0\<rparr>"

text \<open>\<^verbatim>\<open>sec, _ := Encode(...)\<close> discards the error; the section is then nil.\<close>

definition onPCR :: "u64 \<Rightarrow> injector \<Rightarrow> injector" where
  "onPCR v i =
     (let i = i\<lparr>ij_lastPCR := v, ij_havePCR := True\<rparr> in
      if ij_hbTicks i = 0 then i
      else if \<not> ij_hbArmed i then i\<lparr>ij_hbArmed := True, ij_hbLast := v\<rparr>
      else if (v - ij_hbLast i) AND mask33 \<ge> ij_hbTicks i
      then let sec = (case Encode nullCue 0 of Inr s \<Rightarrow> s | Inl _ \<Rightarrow> [])
           in i\<lparr>ij_hbLast := v,
                ij_pending := ij_pending i @ [\<lparr>ps_section = sec, ps_cue = None, ps_pts = 0\<rparr>]\<rparr>
      else i)"

fun flush_sections :: "bytes \<Rightarrow> pendingSection list \<Rightarrow> injector \<Rightarrow> bytes \<times> injector" where
  "flush_sections buf [] i = (buf, i)"
| "flush_sections buf (ps # rest) i =
     (let (buf, cc) = packetize buf (ps_section ps) (ij_pid i) (ij_cc i);
          i = i\<lparr>ij_cc := cc\<rparr>;
          i = (case ps_cue ps of
                 Some c \<Rightarrow> i\<lparr>ij_cuesSent := ij_cuesSent i + 1, ij_lastCue := Some c, ij_lastCuePTS := ps_pts ps\<rparr>
               | None \<Rightarrow> i\<lparr>ij_heartbeatsSent := ij_heartbeatsSent i + 1\<rparr>)
      in flush_sections buf rest i)"

definition chunk :: nat where "chunk = PacketsPerDatagram * PacketSize"

function chunks :: "bytes \<Rightarrow> bytes list" where
  "chunks buf =
     (if length buf > 0 then
        let n = min (length buf) chunk in take n buf # chunks (drop n buf)
      else [])"
  by pat_completeness auto
termination
  by (relation "measure length") (auto simp: chunk_def PacketsPerDatagram_def PacketSize_def)

declare chunks.simps [simp del]

definition flush :: "injector \<Rightarrow> bytes list \<times> injector" where
  "flush i =
     (let (buf, i) = flush_sections [] (ij_pending i) i
      in (chunks buf, i\<lparr>ij_pending := []\<rparr>))"

text \<open>
  One packet of \<^verbatim>\<open>Process\<close>. The output buffer is \<open>None\<close> as long as it is the input slice
  itself (\<^verbatim>\<open>copied == false\<close>); a write goes to a copy, never to the input.
\<close>

definition out_buffer :: "bytes \<Rightarrow> bytes option \<Rightarrow> bytes" where
  "out_buffer dgram out = (case out of None \<Rightarrow> dgram | Some buf \<Rightarrow> buf)"

definition process_tables :: "bytes \<Rightarrow> nat \<Rightarrow> bytes \<Rightarrow> bytes option \<times> injector \<Rightarrow> (bytes option \<times> injector) option" where
  "process_tables dgram off p st =
     (let (out, i) = st; pid = pktPID p in
      if pid = 0 then do { i \<leftarrow> onPAT p i; Some (out, i) }
      else if ij_havePMT i \<and> pid = ij_pmtPID i then do {
        (np, i) \<leftarrow> onPMT p i;
        (case np of
           None \<Rightarrow> Some (out, i)
         | Some np \<Rightarrow>
             do { dst \<leftarrow> slice_from (out_buffer dgram out) off;
                  Some (Some (copy_at (out_buffer dgram out) off np), i) }) }
      else Some (out, i))"

definition process_clocks :: "bytes \<Rightarrow> injector \<Rightarrow> injector option" where
  "process_clocks p i =
     (let pid = pktPID p in
      if \<not> ij_haveES i then Some i
      else
        let i = (if pid = ij_pcrPID i
                 then (case pcrBase p of Some v \<Rightarrow> onPCR v i | None \<Rightarrow> i) else i)
        in if pid = ij_videoPID i \<and> pktPUSI p
           then (case payloadOffset p of
                   None \<Rightarrow> Some i
                 | Some po \<Rightarrow>
                     do { b \<leftarrow> slice_from p po;
                          r \<leftarrow> pesPTS b;
                          Some (case r of Some v \<Rightarrow> onPTS v i | None \<Rightarrow> i) })
           else Some i)"

definition process_packet :: "bytes \<Rightarrow> nat \<Rightarrow> bytes option \<times> injector \<Rightarrow> (bytes option \<times> injector) option" where
  "process_packet dgram off st =
     do { p \<leftarrow> subslice dgram off (off + PacketSize);
          skip \<leftarrow> go_or (test p 0 (\<lambda>x. x \<noteq> syncByte)) (test p 1 (\<lambda>x. x AND 0x80 \<noteq> 0));
          if skip then Some st
          else do { (out, i) \<leftarrow> process_tables dgram off p st;
                    i \<leftarrow> process_clocks p i;
                    Some (out, i) } }"

function process_loop :: "bytes \<Rightarrow> nat \<Rightarrow> bytes option \<times> injector \<Rightarrow> (bytes option \<times> injector) option" where
  "process_loop dgram off st =
     (if off + PacketSize \<le> length dgram
      then do { st \<leftarrow> process_packet dgram off st; process_loop dgram (off + PacketSize) st }
      else Some st)"
  by pat_completeness auto
termination
  by (relation "measure (\<lambda>(dgram, off, st). length dgram - off)") (auto simp: PacketSize_def)

declare process_loop.simps [simp del]

definition Process :: "bytes \<Rightarrow> injector \<Rightarrow> (bytes list \<times> injector) option" where
  "Process dgram i =
     do { (out, i) \<leftarrow> process_loop dgram 0 (None, i);
          let res = [out_buffer dgram out];
          if length (ij_pending i) > 0
          then (let (ds, i) = flush i in Some (res @ ds, i))
          else Some (res, i) }"

section \<open>33-bit clocks\<close>

lemma lt33_iff: "(v :: u64) < 0x200000000 \<longleftrightarrow> take_bit 33 v = v"
proof
  assume "v < 0x200000000"
  then show "take_bit 33 v = v"
    by (intro take_bit_word_small) (simp add: word_less_nat_alt)
next
  assume v: "take_bit 33 v = v"
  have "unat (take_bit 33 v) < 2 ^ 33"
    using take_bit_nat_less_exp [of 33 "unat v"] by (simp add: unsigned_take_bit_eq)
  then show "v < 0x200000000" unfolding v by (simp add: word_less_nat_alt)
qed

lemma lt33_bits: "(\<And>n. bit v n \<Longrightarrow> n < 33) \<Longrightarrow> (v :: u64) < 0x200000000"
  unfolding lt33_iff by (rule bit_word_eqI) (auto simp: bit_take_bit_iff)

lemma mask33_lt: "v AND mask33 < 0x200000000"
  unfolding mask33_take lt33_iff by simp

lemma byte_bit: "bit (x :: byte) n \<Longrightarrow> n < 8"
  using bit_imp_le_length by fastforce

lemma pcrBase_lt:
  assumes "pcrBase p = Some v"
  shows "v < 0x200000000"
proof (rule lt33_bits)
  fix n assume n: "bit v n"
  from assms have v: "v = push_bit 25 (ucast (p ! 6)) OR push_bit 17 (ucast (p ! 7)) OR push_bit 9 (ucast (p ! 8))
             OR push_bit 1 (ucast (p ! 9)) OR ucast (drop_bit 7 (p ! 10))"
    by (simp add: pcrBase_def split: if_splits)
  from n show "n < 33"
    unfolding v bit_or_iff bit_push_bit_iff bit_ucast_iff using byte_bit by fastforce
qed

lemma low3: "bit (drop_bit 1 (x :: byte) AND 7) n \<Longrightarrow> n < 3"
proof -
  have m: "(7 :: byte) = mask 3" by (simp add: mask_eq_exp_minus_1)
  show "bit (drop_bit 1 x AND 7) n \<Longrightarrow> n < 3" unfolding m by (simp add: bit_simps)
qed

lemma pesPTS_lt:
  assumes "pesPTS b = Some (Some v)"
  shows "v < 0x200000000"
proof (rule lt33_bits)
  fix n assume n: "bit v n"
  from assms have v: "v = push_bit 30 (ucast (drop_bit 1 (b ! 9) AND 0x07)) OR push_bit 22 (ucast (b ! 10))
             OR push_bit 15 (ucast (drop_bit 1 (b ! 11))) OR push_bit 7 (ucast (b ! 12))
             OR ucast (drop_bit 1 (b ! 13))"
    unfolding pesPTS_unfold option.inject by (simp only: split: if_splits) simp_all
  from n show "n < 33"
    unfolding v bit_or_iff bit_push_bit_iff bit_ucast_iff
    using low3 [of "b ! 9" "n - 30"] byte_bit by fastforce
qed

section \<open>What a datagram becomes\<close>

text \<open>
  The transformation of a stream of packets as a specification, apart from the injector's state: the
  PMT PID is the one the last valid PAT announced, and only an in-sync packet on that PID is replaced,
  by its rewriting if it has one.
\<close>

definition section_of_pat :: "bytes \<Rightarrow> u16 option" where
  "section_of_pat p =
     (case section_of p 0x00 of
        Some sec \<Rightarrow> (case parsePAT sec of Some (Some v) \<Rightarrow> Some v | _ \<Rightarrow> None)
      | None \<Rightarrow> None)"

definition announce :: "u16 option \<Rightarrow> bytes \<Rightarrow> u16 option" where
  "announce a p =
     (if in_sync p \<and> pktPID p = 0 \<and> section_of_pat p \<noteq> None then section_of_pat p else a)"

definition replaced :: "u16 \<Rightarrow> bytes \<Rightarrow> bytes option" where
  "replaced pid p = (case rewritePMT p pid of Some (Some q, _, True) \<Rightarrow> Some q | _ \<Rightarrow> None)"

definition pass :: "u16 \<Rightarrow> u16 option \<Rightarrow> bytes \<Rightarrow> bytes" where
  "pass pid a p =
     (if in_sync p \<and> pktPID p \<noteq> 0 \<and> a = Some (pktPID p) then (case replaced pid p of Some q \<Rightarrow> q | None \<Rightarrow> p)
      else p)"

fun through :: "u16 \<Rightarrow> u16 option \<Rightarrow> bytes list \<Rightarrow> bytes list \<times> u16 option" where
  "through pid a [] = ([], a)"
| "through pid a (p # ps) = (let (qs, b) = through pid (announce a p) ps in (pass pid a p # qs, b))"

text \<open>The PMT PID an injector has learnt.\<close>

definition announced :: "injector \<Rightarrow> u16 option" where
  "announced i = (if ij_havePMT i then Some (ij_pmtPID i) else None)"

section \<open>Frames of the packet handlers\<close>

text \<open>What the PAT and PMT handlers leave alone.\<close>

definition tables_only :: "injector \<Rightarrow> injector \<Rightarrow> bool" where
  "tables_only i i' \<longleftrightarrow>
     ij_pid i' = ij_pid i \<and> ij_cc i' = ij_cc i \<and> ij_lastPTS i' = ij_lastPTS i \<and>
     ij_lastPCR i' = ij_lastPCR i \<and> ij_hbTicks i' = ij_hbTicks i \<and> ij_hbLast i' = ij_hbLast i \<and>
     ij_pending i' = ij_pending i \<and> ij_cuesSent i' = ij_cuesSent i \<and>
     ij_heartbeatsSent i' = ij_heartbeatsSent i \<and> ij_lastCue i' = ij_lastCue i \<and>
     ij_lastCuePTS i' = ij_lastCuePTS i"

lemma tables_only_refl [simp]: "tables_only i i"
  by (simp add: tables_only_def)

lemma onPAT_total:
  assumes "length p = PacketSize"
  shows "\<exists>i'. onPAT p i = Some i' \<and> tables_only i i' \<and>
    announced i' = (if section_of_pat p \<noteq> None then section_of_pat p else announced i)"
proof -
  obtain r where r: "singleSection p 0x00 = Some r" using singleSection_total [OF assms] by blast
  show ?thesis
  proof (cases r)
    case (Some se)
    obtain s e where se: "se = (s, e)" by fastforce
    have b: "s \<le> e" "e \<le> length p"
      using singleSection_bounds [of p "0x00" s e] r Some se assms by auto
    obtain v where "parsePAT (take (e - s) (drop s p)) = Some v" using parsePAT_total by blast
    then show ?thesis
      using r Some se b
      by (cases v) (auto simp: onPAT_def tables_only_def announced_def section_of_pat_def section_of_def)
  qed (simp add: onPAT_def r section_of_pat_def section_of_def)
qed

lemma onPMT_total:
  assumes "length p = PacketSize"
  shows "\<exists>i'. onPMT p i = Some (replaced (ij_pid i) p, i') \<and> tables_only i i' \<and> announced i' = announced i"
proof -
  obtain np pi valid where r: "rewritePMT p (ij_pid i) = Some (np, pi, valid)"
    using rewritePMT_total [OF assms] by blast
  show ?thesis
    by (cases valid; cases np) (auto simp: onPMT_def r Let_def tables_only_def announced_def replaced_def)
qed

text \<open>The invariant of the injector.\<close>

definition pending_cue :: "pendingSection \<Rightarrow> cue" where
  "pending_cue ps = (case ps_cue ps of Some c \<Rightarrow> c | None \<Rightarrow> nullCue)"

definition pending_ok :: "pendingSection \<Rightarrow> bool" where
  "pending_ok ps \<longleftrightarrow> Encode (pending_cue ps) (ps_pts ps) = Inr (ps_section ps) \<and> ps_pts ps < 0x200000000"

definition injector_ok :: "injector \<Rightarrow> bool" where
  "injector_ok i \<longleftrightarrow> ij_pid i < 0x2000 \<and> ij_cc i < 16 \<and> ij_lastPTS i < 0x200000000 \<and>
     ij_lastPCR i < 0x200000000 \<and> ij_hbLast i < 0x200000000 \<and> (\<forall>ps \<in> set (ij_pending i). pending_ok ps)"

definition heartbeat :: "pendingSection \<Rightarrow> bool" where
  "heartbeat ps \<longleftrightarrow> ps_cue ps = None"

text \<open>What the clock handlers may do: move the clocks and queue heartbeats.\<close>

definition clocks_only :: "injector \<Rightarrow> injector \<Rightarrow> bool" where
  "clocks_only i i' \<longleftrightarrow>
     ij_pid i' = ij_pid i \<and> ij_cc i' = ij_cc i \<and> ij_hbTicks i' = ij_hbTicks i \<and>
     (\<exists>hbs. ij_pending i' = ij_pending i @ hbs \<and> list_all heartbeat hbs \<and>
       (ij_hbTicks i = 0 \<longrightarrow> hbs = [])) \<and>
     ij_cuesSent i' = ij_cuesSent i \<and> ij_heartbeatsSent i' = ij_heartbeatsSent i \<and>
     ij_lastCue i' = ij_lastCue i \<and> ij_lastCuePTS i' = ij_lastCuePTS i"

lemma tables_clocks: "tables_only i i' \<Longrightarrow> clocks_only i i'"
  by (simp add: tables_only_def clocks_only_def)

lemma clocks_only_refl [simp]: "clocks_only i i"
  by (simp add: clocks_only_def)

lemma clocks_only_trans: "clocks_only i j \<Longrightarrow> clocks_only j k \<Longrightarrow> clocks_only i k"
  by (fastforce simp: clocks_only_def)

lemma announced_clocks [simp]: "announced (onPCR v i) = announced i" "announced (onPTS v i) = announced i"
  by (simp_all add: announced_def onPCR_def onPTS_def Let_def)

lemma onPCR_clocks: "clocks_only i (onPCR v i)"
  by (simp add: onPCR_def clocks_only_def Let_def heartbeat_def)

lemma onPTS_clocks: "clocks_only i (onPTS v i)"
  by (simp add: onPTS_def clocks_only_def Let_def)

lemma Encode_nullCue: "\<exists>s. Encode nullCue pts = Inr s"
  by (simp add: Encode_def nullCue_def kinds_distinct)

lemma onPCR_ok: "injector_ok i \<Longrightarrow> v < 0x200000000 \<Longrightarrow> injector_ok (onPCR v i)"
  using Encode_nullCue [of 0]
  by (auto simp: onPCR_def injector_ok_def Let_def pending_ok_def pending_cue_def)

lemma onPTS_ok: "injector_ok i \<Longrightarrow> v < 0x200000000 \<Longrightarrow> injector_ok (onPTS v i)"
  by (auto simp: onPTS_def injector_ok_def Let_def)

lemma tables_ok: "tables_only i i' \<Longrightarrow> injector_ok i \<Longrightarrow> injector_ok i'"
  by (simp add: tables_only_def injector_ok_def)

section \<open>One packet\<close>

lemma process_clocks_total:
  assumes "length p = PacketSize"
  shows "\<exists>i'. process_clocks p i = Some i' \<and> clocks_only i i' \<and> (injector_ok i \<longrightarrow> injector_ok i') \<and>
    announced i' = announced i"
proof (cases "ij_haveES i")
  case True
  define j where "j = (if pktPID p = ij_pcrPID i
                 then (case pcrBase p of Some v \<Rightarrow> onPCR v i | None \<Rightarrow> i) else i)"
  have j: "clocks_only i j" "injector_ok i \<longrightarrow> injector_ok j" "announced j = announced i"
    using onPCR_clocks onPCR_ok pcrBase_lt by (auto simp: j_def split: option.splits)
  show ?thesis
  proof (cases "pktPID p = ij_videoPID j \<and> pktPUSI p")
    case video: True
    show ?thesis
    proof (cases "payloadOffset p")
      case None
      then show ?thesis
        using True video j unfolding process_clocks_def Let_def j_def [symmetric] by simp
    next
      case (Some po)
      then have po: "slice_from p po = Some (drop po p)"
        using payloadOffset_bounds [OF Some] assms by simp
      obtain r where r: "pesPTS (drop po p) = Some r"
        using pesPTS_returns [of "drop po p"] by (auto simp: returns_iff)
      define k where "k = (case r of Some v \<Rightarrow> onPTS v j | None \<Rightarrow> j)"
      have "clocks_only i k" "injector_ok i \<longrightarrow> injector_ok k" "announced k = announced i"
        using j r onPTS_clocks onPTS_ok pesPTS_lt clocks_only_trans
        by (auto simp: k_def split: option.splits)
      moreover have "process_clocks p i = Some k"
        using True video Some po r unfolding process_clocks_def Let_def j_def [symmetric]
        by (simp add: k_def)
      ultimately show ?thesis by blast
    qed
  qed (use True j in \<open>auto simp: process_clocks_def Let_def j_def [symmetric]\<close>)
qed (simp add: process_clocks_def)

text \<open>The packet at an offset, and the two things that may become of it in the output.\<close>

definition slot :: "bytes \<Rightarrow> nat \<Rightarrow> bytes" where
  "slot b off = take PacketSize (drop off b)"

definition rewritten_as :: "u16 \<Rightarrow> bytes \<Rightarrow> bytes \<Rightarrow> bool" where
  "rewritten_as pid p q \<longleftrightarrow> in_sync p \<and> (\<exists>pi. rewritePMT p pid = Some (Some q, pi, True))"

lemma replaced_rewritten: "in_sync p \<Longrightarrow> replaced pid p = Some q \<Longrightarrow> rewritten_as pid p q"
  by (auto simp: replaced_def rewritten_as_def split: option.splits prod.splits bool.splits)

text \<open>A packet either stays, and so does the buffer, or its replacement is copied over it.\<close>

definition written :: "bytes \<Rightarrow> nat \<Rightarrow> bytes \<Rightarrow> bytes option \<Rightarrow> bytes \<Rightarrow> u16 \<Rightarrow> bytes option \<Rightarrow> bool" where
  "written dgram off p out q pid out' \<longleftrightarrow>
     q = p \<and> out' = out \<or> rewritten_as pid p q \<and> out' = Some (copy_at (out_buffer dgram out) off q)"

lemma process_tables_total:
  assumes "in_sync p" "off \<le> length (out_buffer dgram out)"
  shows "\<exists>out' j. process_tables dgram off p (out, i) = Some (out', j) \<and> tables_only i j \<and>
    announced j = announce (announced i) p \<and>
    written dgram off p out (pass (ij_pid i) (announced i) p) (ij_pid i) out'"
proof -
  have len: "length p = PacketSize" using assms by (simp add: in_sync_def)
  consider (pat) "pktPID p = 0" | (pmt) "pktPID p \<noteq> 0" "ij_havePMT i \<and> pktPID p = ij_pmtPID i"
    | (other) "pktPID p \<noteq> 0" "\<not> (ij_havePMT i \<and> pktPID p = ij_pmtPID i)" by blast
  then show ?thesis
  proof cases
    case pat
    with onPAT_total [OF len, of i] assms(1) show ?thesis
      by (auto simp: process_tables_def announce_def pass_def written_def)
  next
    case pmt
    obtain j where o: "onPMT p i = Some (replaced (ij_pid i) p, j)" "tables_only i j" "announced j = announced i"
      using onPMT_total [OF len] by blast
    have "process_tables dgram off p (out, i) =
        Some (case replaced (ij_pid i) p of None \<Rightarrow> out | Some q \<Rightarrow> Some (copy_at (out_buffer dgram out) off q), j)"
      unfolding process_tables_def Let_def using pmt o(1) assms(2) by (simp split: option.split)
    moreover have "pass (ij_pid i) (announced i) p = (case replaced (ij_pid i) p of Some q \<Rightarrow> q | None \<Rightarrow> p)"
      using pmt assms(1) by (simp add: pass_def announced_def)
    ultimately show ?thesis
      using o(2,3) pmt(1) assms(1) replaced_rewritten [of p "ij_pid i"]
      by (cases "replaced (ij_pid i) p") (simp_all add: announce_def written_def)
  next
    case other
    then have "pass (ij_pid i) (announced i) p = p" by (auto simp: pass_def announced_def)
    moreover have "process_tables dgram off p (out, i) = Some (out, i)"
      unfolding process_tables_def Let_def using other by auto
    ultimately show ?thesis using other(1) by (simp add: announce_def written_def)
  qed
qed

lemma process_packet_total:
  assumes "off + PacketSize \<le> length dgram" "length (out_buffer dgram out) = length dgram"
  shows "\<exists>out' i'. process_packet dgram off (out, i) = Some (out', i') \<and> clocks_only i i' \<and>
    (injector_ok i \<longrightarrow> injector_ok i') \<and> announced i' = announce (announced i) (slot dgram off) \<and>
    written dgram off (slot dgram off) out (pass (ij_pid i) (announced i) (slot dgram off)) (ij_pid i) out'"
proof -
  let ?p = "slot dgram off"
  have len: "length ?p = PacketSize" using assms by (simp add: slot_def)
  have cut: "subslice dgram off (off + PacketSize) = Some ?p" using assms by (simp add: slot_def)
  have "1 < length ?p" "0 < length ?p" using len by (simp_all add: PacketSize_def)
  then have sk: "go_or (test ?p 0 (\<lambda>x. x \<noteq> syncByte)) (test ?p 1 (\<lambda>x. x AND 0x80 \<noteq> 0)) = Some (\<not> in_sync ?p)"
    using len by (simp only: test_Some go_or_simps in_sync_def) simp
  show ?thesis
  proof (cases "in_sync ?p")
    case True
    obtain out' j where t: "process_tables dgram off ?p (out, i) = Some (out', j)" "tables_only i j"
      "announced j = announce (announced i) ?p" "written dgram off ?p out (pass (ij_pid i) (announced i) ?p) (ij_pid i) out'"
      using process_tables_total [OF True, of off dgram out i] assms by auto
    obtain i' where c: "process_clocks ?p j = Some i'" "clocks_only j i'" "injector_ok j \<longrightarrow> injector_ok i'"
      "announced i' = announced j"
      using process_clocks_total [OF len] by blast
    have "process_packet dgram off (out, i) = Some (out', i')"
      unfolding process_packet_def cut bind.bind_lunit sk using True t(1) c(1) by simp
    moreover have "clocks_only i i'" "injector_ok i \<longrightarrow> injector_ok i'"
      using clocks_only_trans [OF tables_clocks [OF t(2)] c(2)] tables_ok [OF t(2)] c(3) by blast+
    ultimately show ?thesis using t c by auto
  next
    case False
    then have "process_packet dgram off (out, i) = Some (out, i)"
      unfolding process_packet_def cut bind.bind_lunit sk by simp
    then show ?thesis using False by (simp add: announce_def pass_def written_def)
  qed
qed

section \<open>The whole datagram\<close>

text \<open>The output keeps the length and the trailing partial packet of the input, and every packet
  is the input's packet or the rewriting of a PMT.\<close>

definition packet_ok :: "u16 \<Rightarrow> bytes \<Rightarrow> bytes \<Rightarrow> nat \<Rightarrow> bool" where
  "packet_ok pid dgram b k \<longleftrightarrow>
     slot b (k * PacketSize) = slot dgram (k * PacketSize) \<or>
     rewritten_as pid (slot dgram (k * PacketSize)) (slot b (k * PacketSize))"

definition passes_to :: "u16 \<Rightarrow> bytes \<Rightarrow> bytes \<Rightarrow> nat \<Rightarrow> bool" where
  "passes_to pid dgram b n \<longleftrightarrow>
     length b = length dgram \<and> drop (n * PacketSize) b = drop (n * PacketSize) dgram \<and>
     (\<forall>k < n. packet_ok pid dgram b k)"

lemma rewritten_as_length:
  "rewritten_as pid p q \<Longrightarrow> pid < 0x2000 \<Longrightarrow> length q = PacketSize"
  using rewritePMT_correct [of p pid q] by (auto simp: rewritten_as_def in_sync_def same_envelope_def)

lemma passes_to_keep:
  assumes "passes_to pid dgram b n"
  shows "passes_to pid dgram b (Suc n)"
proof -
  have "drop PacketSize (drop (n * PacketSize) b) = drop PacketSize (drop (n * PacketSize) dgram)"
    using assms by (simp only: passes_to_def)
  then have "drop (Suc n * PacketSize) b = drop (Suc n * PacketSize) dgram" by simp
  moreover have "slot b (n * PacketSize) = slot dgram (n * PacketSize)"
    using assms by (simp add: passes_to_def slot_def)
  ultimately show ?thesis
    using assms by (auto simp: passes_to_def packet_ok_def less_Suc_eq)
qed

lemma slot_copy_at:
  assumes "off + length q \<le> length b" "length q = PacketSize"
  shows "slot (copy_at b off q) off = q"
    "k + PacketSize \<le> off \<Longrightarrow> slot (copy_at b off q) k = slot b k"
    "drop (off + PacketSize) (copy_at b off q) = drop (off + PacketSize) b"
  using assms by (auto simp: slot_def copy_at_def drop_take min_def)

lemma passes_to_rewrite:
  assumes "passes_to pid dgram b n" "n * PacketSize + PacketSize \<le> length dgram"
    "rewritten_as pid (slot dgram (n * PacketSize)) q" "length q = PacketSize"
  shows "passes_to pid dgram (copy_at b (n * PacketSize) q) (Suc n)"
proof -
  have l: "n * PacketSize + length q \<le> length b" using assms by (simp add: passes_to_def)
  note s = slot_copy_at [OF l assms(4)]
  have k: "slot (copy_at b (n * PacketSize) q) (k * PacketSize) = slot b (k * PacketSize)" if "k < n" for k
    using that mult_le_mono1 [of "Suc k" n PacketSize] by (intro s) simp
  have "drop (Suc n * PacketSize) b = drop (Suc n * PacketSize) dgram"
    using passes_to_keep [OF assms(1)] by (simp add: passes_to_def)
  then show ?thesis
    using assms s k l by (auto simp: passes_to_def packet_ok_def less_Suc_eq add.commute)
qed

text \<open>The whole packets of a datagram from the \<open>n\<close>th on.\<close>

definition slots_from :: "bytes \<Rightarrow> nat \<Rightarrow> bytes list" where
  "slots_from dgram n = map (\<lambda>k. slot dgram (k * PacketSize)) [n..<length dgram div PacketSize]"

lemma slots_from_step:
  assumes "n * PacketSize + PacketSize \<le> length dgram"
  shows "slots_from dgram n = slot dgram (n * PacketSize) # slots_from dgram (Suc n)"
proof -
  have "n < length dgram div PacketSize"
    using assms by (simp add: less_eq_div_iff_mult_less_eq PacketSize_def flip: Suc_le_eq)
  then show ?thesis by (simp add: slots_from_def upt_conv_Cons)
qed

lemma written_prefix:
  assumes "written dgram (n * PacketSize) (slot dgram (n * PacketSize)) out q pid out'" "pid < 0x2000"
    "passes_to pid dgram (out_buffer dgram out) n" "n * PacketSize + PacketSize \<le> length dgram"
  shows "passes_to pid dgram (out_buffer dgram out') (Suc n)"
    "take (Suc n * PacketSize) (out_buffer dgram out') = take (n * PacketSize) (out_buffer dgram out) @ q"
proof -
  let ?b = "out_buffer dgram out"
  have len: "length ?b = length dgram" and tail: "slot ?b (n * PacketSize) = slot dgram (n * PacketSize)"
    using assms(3) by (simp_all add: passes_to_def slot_def)
  have "passes_to pid dgram (out_buffer dgram out') (Suc n) \<and>
    take (Suc n * PacketSize) (out_buffer dgram out') = take (n * PacketSize) ?b @ q"
    using assms(1) unfolding written_def
  proof (elim disjE conjE)
    assume "q = slot dgram (n * PacketSize)" "out' = out"
    then show ?thesis
      using passes_to_keep [OF assms(3)] tail by (simp add: slot_def take_add add.commute [of PacketSize])
  next
    assume r: "rewritten_as pid (slot dgram (n * PacketSize)) q" and o: "out' = Some (copy_at ?b (n * PacketSize) q)"
    note l = rewritten_as_length [OF r assms(2)]
    have "take (Suc n * PacketSize) (copy_at ?b (n * PacketSize) q) = take (n * PacketSize) ?b @ q"
      using l len assms(4) by (simp add: copy_at_def)
    then show ?thesis
      using passes_to_rewrite [OF assms(3,4) r l] by (simp add: o out_buffer_def)
  qed
  then show "passes_to pid dgram (out_buffer dgram out') (Suc n)"
    "take (Suc n * PacketSize) (out_buffer dgram out') = take (n * PacketSize) ?b @ q" by auto
qed

lemma process_loop_total:
  assumes "ij_pid i < 0x2000" "n * PacketSize \<le> length dgram" "passes_to (ij_pid i) dgram (out_buffer dgram out) n"
  shows "\<exists>out' i'. process_loop dgram (n * PacketSize) (out, i) = Some (out', i') \<and> clocks_only i i' \<and>
    (injector_ok i \<longrightarrow> injector_ok i') \<and>
    passes_to (ij_pid i) dgram (out_buffer dgram out') (length dgram div PacketSize) \<and>
    take (length dgram div PacketSize * PacketSize) (out_buffer dgram out') =
      take (n * PacketSize) (out_buffer dgram out) @ concat (fst (through (ij_pid i) (announced i) (slots_from dgram n))) \<and>
    announced i' = snd (through (ij_pid i) (announced i) (slots_from dgram n))"
  using assms
proof (induction "length dgram - n * PacketSize" arbitrary: n out i rule: less_induct)
  case less
  show ?case
  proof (cases "n * PacketSize + PacketSize \<le> length dgram")
    case True
    obtain out1 i1 where s: "process_packet dgram (n * PacketSize) (out, i) = Some (out1, i1)" "clocks_only i i1"
      "injector_ok i \<longrightarrow> injector_ok i1" "announced i1 = announce (announced i) (slot dgram (n * PacketSize))"
      "written dgram (n * PacketSize) (slot dgram (n * PacketSize)) out
         (pass (ij_pid i) (announced i) (slot dgram (n * PacketSize))) (ij_pid i) out1"
      using process_packet_total [OF True, of out i] less.prems(3) by (auto simp: passes_to_def)
    have pid: "ij_pid i1 = ij_pid i" using s(2) by (simp add: clocks_only_def)
    note w = written_prefix [OF s(5) less.prems(1,3) True]
    have "length dgram - Suc n * PacketSize < length dgram - n * PacketSize"
      using True by (simp add: PacketSize_def)
    then obtain out' i' where r: "process_loop dgram (Suc n * PacketSize) (out1, i1) = Some (out', i')"
      "clocks_only i1 i'" "injector_ok i1 \<longrightarrow> injector_ok i'"
      "passes_to (ij_pid i) dgram (out_buffer dgram out') (length dgram div PacketSize)"
      "take (length dgram div PacketSize * PacketSize) (out_buffer dgram out') =
        take (Suc n * PacketSize) (out_buffer dgram out1) @ concat (fst (through (ij_pid i) (announced i1) (slots_from dgram (Suc n))))"
      "announced i' = snd (through (ij_pid i) (announced i1) (slots_from dgram (Suc n)))"
      using less.hyps [of "Suc n" i1 out1] less.prems(1) True pid w(1) by (auto simp: add.commute)
    have "process_loop dgram (n * PacketSize) (out, i) = Some (out', i')"
      using True s(1) r(1) by (subst process_loop.simps) (simp add: add.commute)
    moreover have "clocks_only i i'" "injector_ok i \<longrightarrow> injector_ok i'"
      using clocks_only_trans [OF s(2) r(2)] s(3) r(3) by blast+
    ultimately show ?thesis
      using r(4-) unfolding w(2) s(4) slots_from_step [OF True] by (simp add: split_beta Let_def)
  next
    case False
    with less.prems(2) have "length dgram div PacketSize = n"
      by (intro div_nat_eqI) (simp_all add: mult.commute add.commute)
    with False show ?thesis
      using less.prems by (subst process_loop.simps) (auto simp: slots_from_def)
  qed
qed

section \<open>Emission\<close>

fun section_packets :: "u16 \<Rightarrow> byte \<Rightarrow> pendingSection list \<Rightarrow> bytes list" where
  "section_packets pid cc [] = []"
| "section_packets pid cc (ps # rest) =
     (let pkts = ts_packets (0 # ps_section ps) pid cc True
      in pkts @ section_packets pid (next_cc cc (length pkts)) rest)"

fun last_sent :: "pendingSection list \<Rightarrow> cue option \<times> u64 \<Rightarrow> cue option \<times> u64" where
  "last_sent [] l = l"
| "last_sent (ps # rest) l = last_sent rest (case ps_cue ps of Some c \<Rightarrow> (Some c, ps_pts ps) | None \<Rightarrow> l)"

lemma next_cc_add: "next_cc cc (m + n) = next_cc (next_cc cc m) n"
  by (induction cc m rule: next_cc.induct) simp_all

lemma flush_sections_eq:
  "flush_sections buf pss i =
    (buf @ concat (section_packets (ij_pid i) (ij_cc i) pss),
     i\<lparr>ij_cc := next_cc (ij_cc i) (length (section_packets (ij_pid i) (ij_cc i) pss)),
       ij_cuesSent := ij_cuesSent i + int (length (filter (\<lambda>ps. \<not> heartbeat ps) pss)),
       ij_heartbeatsSent := ij_heartbeatsSent i + int (length (filter heartbeat pss)),
       ij_lastCue := fst (last_sent pss (ij_lastCue i, ij_lastCuePTS i)),
       ij_lastCuePTS := snd (last_sent pss (ij_lastCue i, ij_lastCuePTS i))\<rparr>)"
proof (induction pss arbitrary: buf i)
  case (Cons ps pss)
  then show ?case
    by (cases "ps_cue ps") (simp_all add: packetize_eq Let_def heartbeat_def next_cc_add)
qed simp

lemma concat_chunks: "concat (chunks b) = b"
proof (induction b rule: chunks.induct)
  case (1 b)
  then show ?case by (subst chunks.simps) (simp add: Let_def)
qed

lemma chunks_size: "d \<in> set (chunks b) \<Longrightarrow> 0 < length d \<and> length d \<le> chunk"
proof (induction b rule: chunks.induct)
  case (1 b)
  from "1.prems" have "0 < length b" and d: "d = take (min (length b) chunk) b \<or> d \<in> set (chunks (drop (min (length b) chunk) b))"
    by (subst (asm) chunks.simps, simp add: Let_def split: if_splits)+
  then have "0 < min (length b) chunk" by (simp add: chunk_def PacketsPerDatagram_def PacketSize_def)
  with d "1.IH" [OF \<open>0 < length b\<close>] show ?case by (auto simp: min_def split: if_splits)
qed

text \<open>Whole packets are never split over two datagrams.\<close>

lemma chunks_groups:
  assumes "\<And>p. p \<in> set ps \<Longrightarrow> length p = PacketSize"
  shows "\<exists>pss. chunks (concat ps) = map concat pss \<and> concat pss = ps"
  using assms
proof (induction "length ps" arbitrary: ps rule: less_induct)
  case less
  show ?case
  proof (cases "ps = []")
    case True
    then show ?thesis by (intro exI [of _ "[]"]) (simp add: chunks.simps)
  next
    case False
    have conc: "length (concat xs) = length xs * PacketSize" if "set xs \<subseteq> set ps" for xs
      using that less.prems by (induction xs) auto
    let ?a = "take 7 ps" and ?r = "drop 7 ps"
    let ?n = "min (length (concat ps)) chunk"
    have ab: "concat ps = concat ?a @ concat ?r" by (metis append_take_drop_id concat_append)
    have la: "length (concat ?a) = ?n"
      using conc [of ?a] conc [of ps] set_take_subset [of 7 ps]
      by (simp add: chunk_def PacketsPerDatagram_def min_def PacketSize_def)
    have pos: "length (concat ps) > 0" using False conc [of ps] by (simp add: PacketSize_def)
    have "chunks (concat ps) = take ?n (concat ps) # chunks (drop ?n (concat ps))"
      using pos by (subst chunks.simps) (simp add: Let_def)
    moreover have "take ?n (concat ps) = concat ?a" "drop ?n (concat ps) = concat ?r"
      unfolding la [symmetric] by (subst ab, simp)+
    moreover obtain pss where "chunks (concat ?r) = map concat pss" "concat pss = ?r"
      using False less.prems less.hyps [of ?r] by (auto dest: in_set_dropD)
    ultimately show ?thesis by (intro exI [of _ "?a # pss"]) simp
  qed
qed

lemma groups_packets:
  assumes "\<And>p. p \<in> set (concat pss) \<Longrightarrow> in_sync p"
  shows "concat (map (\<lambda>d. packets_from d 0) (map concat pss)) = concat pss"
  using assms
proof (induction pss)
  case (Cons ps pss)
  have "in_sync p" if "p \<in> set ps" for p using Cons.prems that by simp
  from packets_from_concat [OF this, of ps "[]"] Cons show ?case by simp
qed simp

lemma section_packets_in_sync:
  "pid < 0x2000 \<Longrightarrow> p \<in> set (section_packets pid cc pss) \<Longrightarrow> in_sync p \<and> pktPID p = pid"
  by (induction pss arbitrary: cc) (auto simp: Let_def dest: ts_packets_in_sync)

text \<open>The packets of an output datagram.\<close>

abbreviation packets :: "bytes \<Rightarrow> bytes list" where
  "packets d \<equiv> packets_from d 0"

lemma flush_eq:
  assumes "ij_pid i < 0x2000" "flush i = (ds, i')"
  shows "\<exists>pss. ds = map concat pss \<and> concat pss = section_packets (ij_pid i) (ij_cc i) (ij_pending i)"
    "concat (map packets ds) = section_packets (ij_pid i) (ij_cc i) (ij_pending i)"
    "\<And>d. d \<in> set ds \<Longrightarrow> 0 < length d \<and> length d \<le> chunk"
    "ij_pending i' = []" "ij_pid i' = ij_pid i"
    "ij_cc i' = next_cc (ij_cc i) (length (section_packets (ij_pid i) (ij_cc i) (ij_pending i)))"
    "ij_cuesSent i' = ij_cuesSent i + int (length (filter (\<lambda>ps. \<not> heartbeat ps) (ij_pending i)))"
    "ij_heartbeatsSent i' = ij_heartbeatsSent i + int (length (filter heartbeat (ij_pending i)))"
proof -
  let ?ps = "section_packets (ij_pid i) (ij_cc i) (ij_pending i)"
  have ok: "in_sync p" if "p \<in> set ?ps" for p using section_packets_in_sync [OF assms(1) that] by simp
  have ds: "ds = chunks (concat ?ps)" using assms(2) by (auto simp: flush_def flush_sections_eq Let_def)
  obtain pss where pss: "chunks (concat ?ps) = map concat pss" "concat pss = ?ps"
    using chunks_groups [of ?ps] ok by (auto simp: in_sync_def)
  then show "\<exists>pss. ds = map concat pss \<and> concat pss = ?ps" using ds by auto
  show "concat (map packets ds) = ?ps" using groups_packets [of pss] pss ds ok by simp
  show "\<And>d. d \<in> set ds \<Longrightarrow> 0 < length d \<and> length d \<le> chunk" using ds chunks_size by blast
  show "ij_pending i' = []" "ij_pid i' = ij_pid i"
    "ij_cc i' = next_cc (ij_cc i) (length ?ps)"
    "ij_cuesSent i' = ij_cuesSent i + int (length (filter (\<lambda>ps. \<not> heartbeat ps) (ij_pending i)))"
    "ij_heartbeatsSent i' = ij_heartbeatsSent i + int (length (filter heartbeat (ij_pending i)))"
    using assms(2) by (auto simp: flush_def flush_sections_eq Let_def)
qed

section \<open>Process as a whole\<close>

lemma nibble_lt: "(x :: byte) AND 0x0F < 16"
  unfolding word_less_nat_alt by (simp add: nibble_unat)

lemma next_cc_lt: "cc < 16 \<Longrightarrow> next_cc cc n < 16"
  by (induction cc n rule: next_cc.induct) (simp_all add: nibble_lt)

lemma flush_ok:
  assumes "injector_ok i" "flush i = (ds, i')"
  shows "injector_ok i'"
  using assms next_cc_lt by (auto simp: flush_def flush_sections_eq Let_def injector_ok_def)

lemma Process_total:
  assumes "ij_pid i < 0x2000"
  obtains out ds i' j where "Process dgram i = Some (out # ds, i')" "clocks_only i j"
    "injector_ok i \<Longrightarrow> injector_ok j"
    "passes_to (ij_pid i) dgram out (length dgram div PacketSize)"
    "\<exists>pss. ds = map concat pss \<and> concat pss = section_packets (ij_pid i) (ij_cc i) (ij_pending j)"
    "concat (map packets ds) = section_packets (ij_pid i) (ij_cc i) (ij_pending j)"
    "\<And>d. d \<in> set ds \<Longrightarrow> 0 < length d \<and> length d \<le> chunk"
    "ij_pending i' = []" "ij_pid i' = ij_pid i"
    "ij_cc i' = next_cc (ij_cc i) (length (section_packets (ij_pid i) (ij_cc i) (ij_pending j)))"
    "ij_cuesSent i' = ij_cuesSent i + int (length (filter (\<lambda>ps. \<not> heartbeat ps) (ij_pending j)))"
    "ij_heartbeatsSent i' = ij_heartbeatsSent i + int (length (filter heartbeat (ij_pending j)))"
    "injector_ok i \<Longrightarrow> injector_ok i'"
    "ij_hbTicks i' = ij_hbTicks i"
    "out = concat (fst (through (ij_pid i) (announced i) (slots_from dgram 0))) @
       drop (length dgram div PacketSize * PacketSize) dgram"
    "announced i' = snd (through (ij_pid i) (announced i) (slots_from dgram 0))"
proof -
  have p0: "passes_to (ij_pid i) dgram (out_buffer dgram None) 0"
    by (simp add: passes_to_def out_buffer_def)
  obtain out j where l: "process_loop dgram 0 (None, i) = Some (out, j)" "clocks_only i j"
    "injector_ok i \<longrightarrow> injector_ok j" "passes_to (ij_pid i) dgram (out_buffer dgram out) (length dgram div PacketSize)"
    "take (length dgram div PacketSize * PacketSize) (out_buffer dgram out) =
      concat (fst (through (ij_pid i) (announced i) (slots_from dgram 0)))"
    "announced j = snd (through (ij_pid i) (announced i) (slots_from dgram 0))"
    using process_loop_total [OF assms _ p0] by auto
  have exact: "out_buffer dgram out = concat (fst (through (ij_pid i) (announced i) (slots_from dgram 0))) @
       drop (length dgram div PacketSize * PacketSize) dgram"
    using l(4) unfolding l(5) [symmetric] passes_to_def by (metis append_take_drop_id)
  have same: "ij_pid j = ij_pid i" "ij_cc j = ij_cc i" "ij_cuesSent j = ij_cuesSent i"
    "ij_heartbeatsSent j = ij_heartbeatsSent i" "ij_hbTicks j = ij_hbTicks i"
    using l(2) by (simp_all add: clocks_only_def)
  show thesis
  proof (cases "ij_pending j = []")
    case True
    then have "Process dgram i = Some ([out_buffer dgram out], j)"
      by (simp add: Process_def l(1))
    with True l same exact show thesis by (intro that [of "out_buffer dgram out" "[]" j j]) simp_all
  next
    case False
    obtain ds i' where f: "flush j = (ds, i')" by fastforce
    then have P: "Process dgram i = Some (out_buffer dgram out # ds, i')"
      using False by (simp add: Process_def l(1))
    have pid: "ij_pid j < 0x2000" using assms same by simp
    have ok: "injector_ok i'" if "injector_ok i"
      using that l(3) f flush_ok by blast
    have "ij_hbTicks i' = ij_hbTicks j" "announced i' = announced j"
      using f by (auto simp: flush_def flush_sections_eq Let_def announced_def)
    with P ok l same exact flush_eq [OF pid f] show thesis
      by (intro that [of "out_buffer dgram out" ds i' j]) simp_all
  qed
qed

text \<open>The packets of an output buffer have the PIDs of the input's packets.\<close>

lemma packets_slot:
  "p \<in> set (packets_from b (n * PacketSize)) \<Longrightarrow>
    \<exists>k. p = slot b (k * PacketSize) \<and> k < length b div PacketSize \<and> in_sync p"
proof (induction "length b - n * PacketSize" arbitrary: n rule: less_induct)
  case less
  have fit: "n * PacketSize + PacketSize \<le> length b"
    using less.prems by (subst (asm) packets_from.simps) (auto split: if_splits)
  then have n: "n < length b div PacketSize"
    by (simp add: less_eq_div_iff_mult_less_eq PacketSize_def flip: Suc_le_eq)
  have "p \<in> set (packets_from b (Suc n * PacketSize)) \<or> p = slot b (n * PacketSize) \<and> in_sync p"
    using less.prems fit
    by (subst (asm) packets_from.simps) (auto simp: Let_def slot_def in_sync_def add.commute split: if_splits)
  moreover have "length b - Suc n * PacketSize < length b - n * PacketSize"
    using fit by (simp add: PacketSize_def)
  ultimately show ?case using less.hyps [of "Suc n"] n by blast
qed

lemma slot_fits: "k < length b div PacketSize \<Longrightarrow> k * PacketSize + PacketSize \<le> length b"
  unfolding PacketSize_def by linarith

lemma slot_packets:
  assumes "k < length b div PacketSize" "in_sync (slot b (k * PacketSize))" "n \<le> k"
  shows "slot b (k * PacketSize) \<in> set (packets_from b (n * PacketSize))"
  using assms(3)
proof (induction "k - n" arbitrary: n)
  case 0
  have "k * PacketSize + PacketSize \<le> length b"
    using assms(1) by (rule slot_fits)
  with 0 assms(2) show ?case
    by (subst packets_from.simps) (simp add: Let_def slot_def in_sync_def)
next
  case (Suc d)
  have "slot b (k * PacketSize) \<in> set (packets_from b (Suc n * PacketSize))"
    using Suc.hyps(1) [of "Suc n"] Suc.hyps(2) by simp
  moreover have "n * PacketSize + PacketSize \<le> length b"
    using assms(1) Suc.prems by (intro slot_fits) simp
  ultimately show ?case
    by (subst packets_from.simps) (simp add: Let_def add.commute)
qed

lemma passes_pids:
  assumes "passes_to pid dgram out (length dgram div PacketSize)" "pid < 0x2000" "p \<in> set (packets out)"
  shows "\<exists>q \<in> set (packets dgram). pktPID p = pktPID q"
proof -
  obtain k where k: "p = slot out (k * PacketSize)" "k < length out div PacketSize" "in_sync p"
    using packets_slot [of p out 0] assms(3) by auto
  then have kd: "k < length dgram div PacketSize" using assms(1) by (simp add: passes_to_def)
  let ?q = "slot dgram (k * PacketSize)"
  have "packet_ok pid dgram out k" using assms(1) kd by (simp add: passes_to_def)
  then have "in_sync ?q \<and> pktPID p = pktPID ?q"
    unfolding packet_ok_def
  proof
    assume "rewritten_as pid ?q (slot out (k * PacketSize))"
    then have "in_sync ?q" "same_envelope ?q p"
      using rewritePMT_correct [OF _ assms(2)] k by (auto simp: rewritten_as_def in_sync_def)
    then show ?thesis
      using nth_take [of 1 3 p] nth_take [of 1 3 ?q] nth_take [of 2 3 p] nth_take [of 2 3 ?q]
      by (simp add: same_envelope_def pktPID_def)
  qed (use k in simp)
  then show ?thesis using slot_packets [OF kd, of 0] by auto
qed

section \<open>A receiver decodes what was inserted\<close>

lemma pending_ok_parses:
  assumes "pending_ok ps"
  shows "complete (ps_section ps)" "Parse (ps_section ps) = Some (cue_info (pending_cue ps) (ps_pts ps), None)"
proof -
  have e: "Encode (pending_cue ps) (ps_pts ps) = Inr (ps_section ps)" using assms by (simp add: pending_ok_def)
  show "Parse (ps_section ps) = Some (cue_info (pending_cue ps) (ps_pts ps), None)"
    using Parse_Encode [OF e, of "[]"] by simp
  show "complete (ps_section ps)"
    using framed_Encode [OF e] by (simp add: framed_def complete_def tableID_def)
qed

text \<open>What the extractor reports for a queued section.\<close>

definition received :: "u16 \<Rightarrow> pendingSection \<Rightarrow> info" where
  "received pid ps = (cue_info (pending_cue ps) (ps_pts ps))\<lparr>in_PID := pid\<rparr>"

lemma extract_packets_append:
  "extract_packets scte x (ps @ qs) = extract_packets scte x ps \<bind> (\<lambda>y. extract_packets scte y qs)"
  by (induction ps arbitrary: x) (auto split: bind_splits)

lemma extract_others:
  "(\<And>p. p \<in> set ps \<Longrightarrow> \<not> scte (pktPID p)) \<Longrightarrow> extract_packets scte x ps = Some x"
  by (induction ps) (simp_all add: extract_other)

lemma extract_sections:
  assumes "scte pid" "pid < 0x2000" "\<forall>ps \<in> set pss. pending_ok ps" "ready x pid cc"
  shows "\<exists>x'. extract_packets scte x (section_packets pid cc pss) = Some x' \<and>
    ready x' pid (next_cc cc (length (section_packets pid cc pss))) \<and>
    ex_out x' = ex_out x @ map (received pid) pss \<and> ex_errs x' = ex_errs x"
  using assms(3,4)
proof (induction pss arbitrary: x cc)
  case (Cons ps pss)
  let ?ts = "ts_packets (0 # ps_section ps) pid cc True"
  have ok: "pending_ok ps" using Cons.prems by simp
  obtain y where y: "extract_packets scte x ?ts = Some y"
    "delivered pid (cue_info (pending_cue ps) (ps_pts ps)) None x y (next_cc cc (length ?ts))"
    using extract_packetize [where scte = scte, OF assms(1,2) pending_ok_parses [OF ok] Cons.prems(2)] by blast
  have "ready y pid (next_cc cc (length ?ts))" using y(2) by (simp add: delivered_def)
  from Cons.IH [OF _ this] Cons.prems(1) obtain x' where
    "extract_packets scte y (section_packets pid (next_cc cc (length ?ts)) pss) = Some x'"
    "ready x' pid (next_cc (next_cc cc (length ?ts)) (length (section_packets pid (next_cc cc (length ?ts)) pss)))"
    "ex_out x' = ex_out y @ map (received pid) pss" "ex_errs x' = ex_errs y" by auto
  with y show ?case
    by (simp add: extract_packets_append Let_def next_cc_add delivered_def received_def)
qed simp

section \<open>Runs\<close>

datatype op = InsertCue cue | HeartbeatEvery int | Datagram bytes

fun run_op :: "op \<Rightarrow> injector \<Rightarrow> (bytes list \<times> injector) option" where
  "run_op (InsertCue c) i = Some ([], snd (Insert c i))"
| "run_op (HeartbeatEvery d) i = Some ([], SetHeartbeat d i)"
| "run_op (Datagram d) i = Process d i"

fun run_ops :: "op list \<Rightarrow> injector \<Rightarrow> (bytes list \<times> injector) option" where
  "run_ops [] i = Some ([], i)"
| "run_ops (opn # ops) i =
     do { (out, i) \<leftarrow> run_op opn i; (outs, i) \<leftarrow> run_ops ops i; Some (out @ outs, i) }"

text \<open>The cues a run accepts, with the PTS each was scheduled at.\<close>

fun accepted_op :: "op \<Rightarrow> injector \<Rightarrow> (cue \<times> u64) list" where
  "accepted_op (InsertCue c) i = (case fst (Insert c i) of Inr pts \<Rightarrow> [(c, pts)] | Inl _ \<Rightarrow> [])"
| "accepted_op _ i = []"

fun accepted :: "op list \<Rightarrow> injector \<Rightarrow> (cue \<times> u64) list" where
  "accepted [] i = []"
| "accepted (opn # ops) i =
     accepted_op opn i @ (case run_op opn i of Some (_, i) \<Rightarrow> accepted ops i | None \<Rightarrow> [])"

definition cues_of :: "pendingSection list \<Rightarrow> (cue \<times> u64) list" where
  "cues_of pss = concat (map (\<lambda>ps. case ps_cue ps of Some c \<Rightarrow> [(c, ps_pts ps)] | None \<Rightarrow> []) pss)"

lemma cues_of_append [simp]: "cues_of (a @ b) = cues_of a @ cues_of b"
  by (simp add: cues_of_def)

lemma cues_of_heartbeats: "list_all heartbeat hbs \<Longrightarrow> cues_of hbs = []"
  by (induction hbs) (simp_all add: cues_of_def heartbeat_def)

definition foreign :: "u16 \<Rightarrow> op \<Rightarrow> bool" where
  "foreign pid opn = (case opn of Datagram d \<Rightarrow> \<forall>p \<in> set (packets d). pktPID p \<noteq> pid | _ \<Rightarrow> True)"

lemma Insert_cases:
  obtains (err) e where "Insert c i = (Inl e, i)"
  | (ok) pts s where "Insert c i = (Inr pts, i\<lparr>ij_pending := ij_pending i @
      [\<lparr>ps_section = s, ps_cue = Some c, ps_pts = pts\<rparr>]\<rparr>)" "Encode c pts = Inr s"
      "pts = ij_lastPTS i \<or> pts = (ij_lastPTS i + msToTicks (if PreRollMs c = 0 then DefaultPreRollMs else PreRollMs c)) AND mask33"
proof -
  let ?sched = "Kind c \<noteq> KindSpliceNull \<and> \<not> Immediate c"
  let ?kind = "Kind c = KindSpliceInsert \<or> Kind c = KindTimeSignal \<or> Kind c = KindSpliceNull"
  let ?pre = "if PreRollMs c = 0 then DefaultPreRollMs else PreRollMs c"
  define pts where "pts = (if ?sched then (ij_lastPTS i + msToTicks ?pre) AND mask33 else ij_lastPTS i)"
  show thesis
  proof (cases "?kind \<and> \<not> (PreRollMs c < 0 \<or> DurationMs c < 0) \<and> \<not> (?sched \<and> \<not> ij_havePTS i)")
    case True
    then have I: "Insert c i = (case Encode c pts of Inl err \<Rightarrow> (Inl (EncodeError err), i)
        | Inr sec \<Rightarrow> (Inr pts, i\<lparr>ij_pending := ij_pending i @
            [\<lparr>ps_section = sec, ps_cue = Some c, ps_pts = pts\<rparr>]\<rparr>))"
      unfolding Insert_def Let_def pts_def by (simp only: if_False simp_thms)
    show thesis
    proof (cases "Encode c pts")
      case (Inl e)
      with I show thesis by (intro err) simp
    next
      case (Inr s)
      have "pts = ij_lastPTS i \<or> pts = (ij_lastPTS i + msToTicks ?pre) AND mask33"
        unfolding pts_def by (cases ?sched) (simp_all only: if_True if_False simp_thms)
      then show thesis by (rule ok [OF _ Inr, rotated]) (simp add: I Inr)
    qed
  next
    case False
    then consider "\<not> ?kind" | "?kind" "PreRollMs c < 0 \<or> DurationMs c < 0"
      | "?kind" "\<not> (PreRollMs c < 0 \<or> DurationMs c < 0)" "?sched \<and> \<not> ij_havePTS i" by blast
    then have "\<exists>e. Insert c i = (Inl e, i)"
      by cases (unfold Insert_def Let_def, simp_all)
    with err show thesis by blast
  qed
qed

lemma Insert_ok: "injector_ok i \<Longrightarrow> injector_ok (snd (Insert c i))"
  by (rule Insert_cases [of c i])
    (auto simp: injector_ok_def pending_ok_def pending_cue_def mask33_lt)

lemma SetHeartbeat_ok: "injector_ok i \<Longrightarrow> injector_ok (SetHeartbeat d i)"
  by (simp add: SetHeartbeat_def Let_def injector_ok_def)

text \<open>One operation: nothing panics, and a receiver that is ready for the next packet reports
  exactly the sections that left the queue.\<close>

lemma run_op_delivers:
  assumes "injector_ok i" "foreign (ij_pid i) opn" "ready x (ij_pid i) (ij_cc i)"
  shows "\<exists>out i' log x'. run_op opn i = Some (out, i') \<and> injector_ok i' \<and> ij_pid i' = ij_pid i \<and>
    extract_packets (\<lambda>q. q = ij_pid i) x (concat (map packets out)) = Some x' \<and>
    ready x' (ij_pid i) (ij_cc i') \<and> ex_errs x' = ex_errs x \<and>
    ex_out x' = ex_out x @ map (received (ij_pid i)) log \<and>
    cues_of (log @ ij_pending i') = cues_of (ij_pending i) @ accepted_op opn i \<and>
    ij_cuesSent i' = ij_cuesSent i + int (length (cues_of log))"
proof (cases opn)
  case (InsertCue c)
  show ?thesis
    by (rule Insert_cases [of c i])
      (use InsertCue assms Insert_ok [OF assms(1), of c] in
        \<open>auto intro!: exI [of _ "[]"] simp: cues_of_def\<close>)
next
  case (HeartbeatEvery d)
  then show ?thesis
    using assms SetHeartbeat_ok [OF assms(1), of d]
    by (auto intro!: exI [of _ "[]"] simp: cues_of_def SetHeartbeat_def Let_def)
next
  case (Datagram d)
  have pid: "ij_pid i < 0x2000" using assms(1) by (simp add: injector_ok_def)
  show ?thesis
  proof (rule Process_total [OF pid, of d])
    fix out ds i' j
    assume P: "Process d i = Some (out # ds, i')" "clocks_only i j" "injector_ok i \<Longrightarrow> injector_ok j"
      "passes_to (ij_pid i) d out (length d div PacketSize)"
      "concat (map packets ds) = section_packets (ij_pid i) (ij_cc i) (ij_pending j)"
      "ij_pending i' = []" "ij_pid i' = ij_pid i"
      "ij_cc i' = next_cc (ij_cc i) (length (section_packets (ij_pid i) (ij_cc i) (ij_pending j)))"
      "ij_cuesSent i' = ij_cuesSent i + int (length (filter (\<lambda>ps. \<not> heartbeat ps) (ij_pending j)))"
      "injector_ok i \<Longrightarrow> injector_ok i'"
    have "extract_packets (\<lambda>q. q = ij_pid i) x (packets out) = Some x"
      using passes_pids [OF P(4) pid] assms(2) Datagram by (intro extract_others) (fastforce simp: foreign_def)
    moreover have "\<forall>ps \<in> set (ij_pending j). pending_ok ps" using P(3) assms(1) by (simp add: injector_ok_def)
    then obtain x' where x': "extract_packets (\<lambda>q. q = ij_pid i) x (section_packets (ij_pid i) (ij_cc i) (ij_pending j)) = Some x'"
      "ready x' (ij_pid i) (ij_cc i')" "ex_out x' = ex_out x @ map (received (ij_pid i)) (ij_pending j)"
      "ex_errs x' = ex_errs x"
      using extract_sections [of "\<lambda>q. q = ij_pid i" "ij_pid i" "ij_pending j" x "ij_cc i"] pid assms(3) P(8) by auto
    moreover obtain hbs where "ij_pending j = ij_pending i @ hbs" "list_all heartbeat hbs"
      using P(2) by (auto simp: clocks_only_def)
    moreover have "length (filter (\<lambda>ps. \<not> heartbeat ps) pss) = length (cues_of pss)" for pss
      by (induction pss) (auto simp: cues_of_def heartbeat_def split: option.splits)
    ultimately show ?thesis
      using P assms(1) Datagram
      by (auto intro!: exI [of _ "ij_pending j"] simp: extract_packets_append cues_of_heartbeats)
  qed
qed

lemma run_ops_delivers:
  assumes "injector_ok i" "\<forall>opn \<in> set ops. foreign (ij_pid i) opn" "ready x (ij_pid i) (ij_cc i)"
  shows "\<exists>outs i' log x'. run_ops ops i = Some (outs, i') \<and> injector_ok i' \<and> ij_pid i' = ij_pid i \<and>
    extract_packets (\<lambda>q. q = ij_pid i) x (concat (map packets outs)) = Some x' \<and>
    ready x' (ij_pid i) (ij_cc i') \<and> ex_errs x' = ex_errs x \<and>
    ex_out x' = ex_out x @ map (received (ij_pid i)) log \<and>
    cues_of (log @ ij_pending i') = cues_of (ij_pending i) @ accepted ops i \<and>
    ij_cuesSent i' = ij_cuesSent i + int (length (cues_of log))"
  using assms
proof (induction ops arbitrary: i x)
  case Nil
  then show ?case by (auto intro!: exI [of _ "[]"] simp: cues_of_def)
next
  case (Cons opn ops)
  obtain out j log y where s: "run_op opn i = Some (out, j)" "injector_ok j" "ij_pid j = ij_pid i"
    "extract_packets (\<lambda>q. q = ij_pid i) x (concat (map packets out)) = Some y"
    "ready y (ij_pid i) (ij_cc j)" "ex_errs y = ex_errs x"
    "ex_out y = ex_out x @ map (received (ij_pid i)) log"
    "cues_of (log @ ij_pending j) = cues_of (ij_pending i) @ accepted_op opn i"
    "ij_cuesSent j = ij_cuesSent i + int (length (cues_of log))"
    using run_op_delivers [OF Cons.prems(1) _ Cons.prems(3), of opn] Cons.prems(2) by auto
  obtain outs i' log' x' where r: "run_ops ops j = Some (outs, i')" "injector_ok i'" "ij_pid i' = ij_pid i"
    "extract_packets (\<lambda>q. q = ij_pid i) y (concat (map packets outs)) = Some x'"
    "ready x' (ij_pid i) (ij_cc i')" "ex_errs x' = ex_errs y"
    "ex_out x' = ex_out y @ map (received (ij_pid i)) log'"
    "cues_of (log' @ ij_pending i') = cues_of (ij_pending j) @ accepted ops j"
    "ij_cuesSent i' = ij_cuesSent j + int (length (cues_of log'))"
    using Cons.IH [of j y] Cons.prems(2) s by auto
  from s(8) r(8) have "cues_of ((log @ log') @ ij_pending i') = cues_of (ij_pending i) @ accepted (opn # ops) i"
    using s(1) by (metis accepted.simps(2) append.assoc cues_of_append option.simps(5) prod.case)
  then show ?case
    using s r by (intro exI [of _ "out @ outs"] exI [of _ i'] exI [of _ "log @ log'"] exI [of _ x'])
      (simp add: extract_packets_append)
qed

section \<open>Reachable states\<close>

inductive reachable :: "u16 \<Rightarrow> injector \<Rightarrow> bool" for pid where
  start: "reachable pid (NewInjector pid)"
| insert: "reachable pid i \<Longrightarrow> Insert c i = (r, i') \<Longrightarrow> reachable pid i'"
| heartbeat: "reachable pid i \<Longrightarrow> reachable pid (SetHeartbeat d i)"
| process: "reachable pid i \<Longrightarrow> Process dgram i = Some (out, i') \<Longrightarrow> reachable pid i'"

inductive_cases reachable_processE: "reachable pid i"

lemma pid_mask_lt: "(pid :: u16) AND 0x1FFF < 0x2000"
proof -
  have "unat (pid AND 0x1FFF) \<le> 0x1FFF" using and_low_le [of pid "0x1FFF"] by simp
  then show ?thesis by (simp add: word_less_nat_alt)
qed

lemma NewInjector_ok: "injector_ok (NewInjector pid)"
  by (simp add: injector_ok_def NewInjector_def pid_mask_lt)

lemma reachable_ok: "reachable pid i \<Longrightarrow> injector_ok i \<and> ij_pid i = pid AND 0x1FFF"
proof (induction rule: reachable.induct)
  case start
  then show ?case by (simp add: NewInjector_ok) (simp add: NewInjector_def)
next
  case (insert i c r i')
  have "ij_pid (snd (Insert c i)) = ij_pid i" by (rule Insert_cases [of c i]) simp_all
  with Insert_ok [of i c] insert.IH show ?case unfolding insert.hyps(2) by simp
next
  case (heartbeat i d)
  moreover have "ij_pid (SetHeartbeat d i) = ij_pid i" by (simp add: SetHeartbeat_def Let_def)
  ultimately show ?case using SetHeartbeat_ok [of i d] by simp
next
  case (process i dgram out i')
  from process.IH have pid: "ij_pid i < 0x2000" unfolding injector_ok_def by blast
  show ?case by (rule Process_total [OF pid, of dgram]) (use process in auto)
qed

section \<open>Clock policies\<close>

lemma take_bit_forward: "take_bit 33 (take_bit 33 (a + k) - a) = take_bit 33 (k :: u64)"
  by (simp only: word_uint_eq_iff unsigned_take_bit_eq uint_word_ariths)
    (simp add: take_bit_eq_mod mod_mod_cancel mod_simps)

lemma onPTS_forward:
  assumes "ij_havePTS i" "ij_lastPTS i < 0x200000000" "k < 2 ^ 33"
    and v: "v = (ij_lastPTS i + of_nat k) AND mask33"
  shows "ij_lastPTS (onPTS v i) = (if k < 2 ^ 32 \<or> 2 ^ 33 - k > 900000 then v else ij_lastPTS i)"
proof -
  let ?d = "(v - ij_lastPTS i) AND mask33"
  have "?d = take_bit 33 (of_nat k)" unfolding v mask33_take take_bit_forward ..
  then have d: "?d = of_nat k"
    using assms(3) by (simp add: take_bit_word_small unat_of_nat)
  have uk: "unat (of_nat k :: u64) = k" using assms(3) by (simp add: unat_of_nat)
  have "(of_nat k :: u64) < push_bit 32 1 \<longleftrightarrow> k < 2 ^ 32"
    unfolding word_less_nat_alt uk by simp
  moreover have "push_bit 33 (1 :: u64) - of_nat k > reorderWindow \<longleftrightarrow> 2 ^ 33 - k > 900000"
  proof -
    have "(of_nat k :: u64) \<le> 0x200000000" unfolding word_le_nat_alt uk using assms(3) by simp
    then have "unat (0x200000000 - (of_nat k :: u64)) = 2 ^ 33 - k"
      by (simp add: unat_sub uk)
    then show ?thesis by (simp add: word_less_nat_alt reorderWindow_def)
  qed
  ultimately show ?thesis
    using assms(1) unfolding onPTS_def Let_def d by simp
qed

text \<open>A non-negative pre-roll in milliseconds, added at 90 ticks each modulo 2^33.\<close>

lemma scheduled_pts:
  assumes "0 \<le> ms"
  shows "unat ((a + msToTicks ms) AND mask33) = (unat a + 90 * nat ms) mod 2 ^ 33"
proof -
  have "uint (take_bit 33 (a + msToTicks ms)) = (uint a + 90 * ms) mod 2 ^ 33"
    unfolding msToTicks_def
    by (simp only: unsigned_take_bit_eq uint_word_ariths uint_word_of_int)
      (simp add: take_bit_eq_mod mod_mod_cancel mod_simps mult.commute)
  then have "int (unat ((a + msToTicks ms) AND mask33)) = int ((unat a + 90 * nat ms) mod 2 ^ 33)"
    using assms unfolding mask33_take by (simp add: of_nat_mod)
  then show ?thesis by (simp only: of_nat_eq_iff)
qed

definition valid_kind :: "cue \<Rightarrow> bool" where
  "valid_kind c \<longleftrightarrow> Kind c = KindSpliceInsert \<or> Kind c = KindTimeSignal \<or> Kind c = KindSpliceNull"

definition scheduled_cue :: "cue \<Rightarrow> bool" where
  "scheduled_cue c \<longleftrightarrow> Kind c \<noteq> KindSpliceNull \<and> \<not> Immediate c"

lemma Encode_valid: "valid_kind c \<Longrightarrow> \<exists>s. Encode c pts = Inr s"
  by (auto simp: Encode_def valid_kind_def Let_def)

section \<open>Correctness of the injector\<close>

text \<open>
  C1. Whatever sequence of inserts, heartbeat settings and datagrams an injector created by
  \<^verbatim>\<open>NewInjector\<close> is given, as long as no input packet uses its PID: no call panics, and a
  receiver that runs the extraction of \<^verbatim>\<open>ExtractSections\<close> over all output packets reports no
  error and, in order, the decoded form of exactly the sections that left the queue; the cues among
  them together with those still pending are the cues the inserts accepted, each once, at the PTS
  the insert returned, and \<^verbatim>\<open>cuesSent\<close> counts them.
\<close>

theorem injected_cues_are_received:
  assumes "\<forall>opn \<in> set ops. foreign (pid AND 0x1FFF) opn"
  shows "\<exists>outs i log x. run_ops ops (NewInjector pid) = Some (outs, i) \<and>
    extract_packets (\<lambda>q. q = pid AND 0x1FFF) extraction0 (concat (map packets outs)) = Some x \<and>
    ex_errs x = [] \<and> ex_out x = map (received (pid AND 0x1FFF)) log \<and>
    cues_of (log @ ij_pending i) = accepted ops (NewInjector pid) \<and>
    ij_cuesSent i = int (length (cues_of log))"
proof -
  have n: "ij_pid (NewInjector pid) = pid AND 0x1FFF" "ij_pending (NewInjector pid) = []"
    "ij_cuesSent (NewInjector pid) = 0" by (simp_all add: NewInjector_def)
  have "ready extraction0 (ij_pid (NewInjector pid)) (ij_cc (NewInjector pid))"
    by (simp add: ready_def extraction0_def)
  from run_ops_delivers [OF NewInjector_ok _ this, of ops] assms show ?thesis
    by (simp add: n extraction0_def cues_of_def) blast
qed

definition breakCue :: cue where
  "breakCue = nullCue\<lparr>Kind := KindSpliceInsert, Immediate := True, EventID := 7, DurationMs := 30000\<rparr>"

theorem injected_cues_are_received_witness:
  "\<exists>outs i log x. run_ops [InsertCue breakCue, Datagram []] (NewInjector 500) = Some (outs, i) \<and>
    extract_packets (\<lambda>q. q = 500) extraction0 (concat (map packets outs)) = Some x \<and>
    ex_errs x = [] \<and> ex_out x = map (received 500) log \<and>
    cues_of (log @ ij_pending i) = accepted [InsertCue breakCue, Datagram []] (NewInjector 500) \<and>
    ij_cuesSent i = int (length (cues_of log))"
proof -
  have "packets_from [] 0 = []" by (simp add: packets_from.simps PacketSize_def)
  then have "\<forall>opn \<in> set [InsertCue breakCue, Datagram []]. foreign (500 AND 0x1FFF) opn"
    by (simp add: foreign_def)
  from injected_cues_are_received [OF this] show ?thesis by simp
qed

text \<open>
  C2. \<^verbatim>\<open>Process\<close> never panics, in any reachable state and on any datagram, and its output is
  exactly this. The first output datagram is the input's packets, each passed on its own, followed by
  the bytes after the last whole packet. A packet is passed unchanged unless it is in sync, carries no
  transport error and is on the PMT PID announced at that point, which is the one the last valid PAT
  told, in this datagram or before; then it is replaced by its rewriting when \<^verbatim>\<open>rewritePMT\<close>
  gives one. Every whole packet of the output is the input's packet at that place or such a rewriting,
  of the same length. The PID the injector has learnt afterwards is the one of the last valid PAT. The
  datagrams that follow hold at least one byte and at most seven packets, and nothing is left pending.
\<close>

theorem Process_is_transparent:
  assumes "reachable pid i"
  shows "\<exists>out ds i'. Process dgram i = Some (out # ds, i') \<and>
    out = concat (fst (through (pid AND 0x1FFF) (announced i) (slots_from dgram 0))) @
      drop (length dgram div PacketSize * PacketSize) dgram \<and>
    passes_to (pid AND 0x1FFF) dgram out (length dgram div PacketSize) \<and>
    announced i' = snd (through (pid AND 0x1FFF) (announced i) (slots_from dgram 0)) \<and>
    (\<forall>d \<in> set ds. 0 < length d \<and> length d \<le> PacketsPerDatagram * PacketSize) \<and> ij_pending i' = []"
proof -
  have i: "ij_pid i = pid AND 0x1FFF" "ij_pid i < 0x2000"
    using reachable_ok [OF assms] unfolding injector_ok_def by blast+
  show ?thesis
    by (rule Process_total [OF i(2), of dgram]) (use i in \<open>auto simp: chunk_def\<close>)
qed

definition demoPAT :: bytes where
  "demoPAT = appendCRC [0x00, 0xB0, 0x0D, 0x00, 0x01, 0xC1, 0x00, 0x00, 0x00, 0x01, 0xF0, 0x00]"

definition demoPATPacket :: bytes where
  "demoPATPacket = [0x47, 0x40, 0x00, 0x10] @ 0 # demoPAT @ replicate 167 0xFF"

lemma demoPAT_facts:
  "length demoPAT = 16" "length demoPATPacket = PacketSize" "demoPAT ! 0 = 0" "demoPAT ! Suc 0 = 0xB0"
  "demoPAT ! 2 = 0x0D" "demoPAT ! 8 = 0" "demoPAT ! 9 = 1" "demoPAT ! 10 = 0xF0" "demoPAT ! 11 = 0"
  "CRC32 demoPAT = 0"
  by (simp_all add: demoPAT_def demoPATPacket_def PacketSize_def) (simp_all add: appendCRC_def)

lemma demoPAT_announces: "in_sync demoPATPacket" "pktPID demoPATPacket = 0" "announce a demoPATPacket = Some 0x1000"
proof -
  show s: "in_sync demoPATPacket" "pktPID demoPATPacket = 0"
    using demoPAT_facts(2) by (simp_all add: in_sync_def pktPID_def pid13_def demoPATPacket_def syncByte_def)
  have "section_of ([0x47, 0x40, 0x00, 0x10] @ 0 # demoPAT @ replicate 167 0xFF) 0x00 = Some demoPAT"
    by (rule section_of_framed(2))
      (simp_all add: payloadOffset_def pktPUSI_def PacketSize_def demoPAT_facts len12_def)
  then have "section_of demoPATPacket 0x00 = Some demoPAT" by (simp add: demoPATPacket_def)
  moreover have "parsePAT demoPAT = Some (Some 0x1000)"
    by (simp add: parsePAT_def demoPAT_facts pat_loop.simps pid13_def)
  ultimately show "announce a demoPATPacket = Some 0x1000"
    using s by (simp add: announce_def section_of_pat_def)
qed

lemma demoPMT_sync: "in_sync demoPMTPacket" "pktPID demoPMTPacket = 0x1000"
  using demoPMT_length(2) by (simp_all add: in_sync_def pktPID_def pid13_def demoPMTPacket_def syncByte_def)

text \<open>A PAT, the PMT it announces and three trailing bytes: the PMT is replaced.\<close>

theorem Process_is_transparent_witness:
  "\<exists>out ds i' np. Process (demoPATPacket @ demoPMTPacket @ [0x47, 0x00, 0x11]) (NewInjector 500) = Some (out # ds, i') \<and>
    rewritePMT demoPMTPacket 500 = Some (Some np, demoPMTInfo, True) \<and>
    out = demoPATPacket @ np @ [0x47, 0x00, 0x11] \<and> announced i' = Some 0x1000 \<and>
    (\<forall>d \<in> set ds. 0 < length d \<and> length d \<le> PacketsPerDatagram * PacketSize) \<and> ij_pending i' = []"
proof -
  let ?d = "demoPATPacket @ demoPMTPacket @ [0x47, 0x00, 0x11]"
  obtain np where np: "rewritePMT demoPMTPacket 500 = Some (Some np, demoPMTInfo, True)"
    using demoPMT_rewrite ..
  note l = demoPAT_facts(2) demoPMT_length(2)
  have n: "length ?d div PacketSize = 2" by (simp add: l) (simp add: PacketSize_def)
  have slots: "slots_from ?d 0 = [demoPATPacket, demoPMTPacket]"
  proof -
    have "[0..<2] = [0, 1 :: nat]" by (simp add: upt_rec)
    then show ?thesis unfolding slots_from_def n by (simp add: slot_def l)
  qed
  have "announce (Some 0x1000) demoPMTPacket = Some 0x1000"
    by (simp add: announce_def demoPMT_sync)
  moreover have "pass 500 None demoPATPacket = demoPATPacket" by (simp add: pass_def)
  moreover have "pass 500 (Some 0x1000) demoPMTPacket = np"
    by (simp add: pass_def demoPMT_sync replaced_def np)
  ultimately have t: "through 500 (announced (NewInjector 500)) (slots_from ?d 0) = ([demoPATPacket, np], Some 0x1000)"
    by (simp add: slots demoPAT_announces announced_def NewInjector_def)
  from Process_is_transparent [OF reachable.start [of 500], of ?d] show ?thesis
    unfolding n using np t by (auto simp: l)
qed

text \<open>
  C14. In every reachable state the injector's PID is the 13-bit PID it was created with, the
  continuity counter is a nibble, the last PTS, the last PCR and the heartbeat mark are 33-bit
  values, and every pending section is the encoding of its cue (a splice_null for a heartbeat) at a
  33-bit PTS.
\<close>

theorem injector_invariant:
  assumes "reachable pid i"
  shows "injector_ok i \<and> ij_pid i = pid AND 0x1FFF"
  using assms by (rule reachable_ok)

theorem injector_invariant_witness:
  "injector_ok (SetHeartbeat 5000000000 (NewInjector 500)) \<and> ij_pid (SetHeartbeat 5000000000 (NewInjector 500)) = 500 AND 0x1FFF"
  by (rule injector_invariant [OF reachable.heartbeat [OF reachable.start]])

text \<open>
  C33. Once a PTS is known, \<^verbatim>\<open>onPTS\<close> follows a PTS that lies less than 2^32 ticks ahead modulo
  2^33, follows one that lies more than 10 s (900000 ticks) behind, and ignores one that lies at
  most 10 s behind. The offset \<open>k\<close> is the distance ahead of the last PTS modulo 2^33.
\<close>

theorem onPTS_policy:
  assumes "ij_havePTS i" "ij_lastPTS i < 0x200000000" "k < 2 ^ 33"
    "v = (ij_lastPTS i + of_nat k) AND mask33"
  shows "ij_lastPTS (onPTS v i) = (if k < 2 ^ 32 \<or> 2 ^ 33 - k > 900000 then v else ij_lastPTS i)"
  using assms by (rule onPTS_forward)

theorem onPTS_policy_witness:
  "ij_lastPTS (onPTS 8589930992 ((NewInjector 500)\<lparr>ij_havePTS := True, ij_lastPTS := 0\<rparr>)) = 0"
proof -
  have "8589930992 = (ij_lastPTS ((NewInjector 500)\<lparr>ij_havePTS := True, ij_lastPTS := 0\<rparr>) + of_nat 8589930992) AND mask33"
    by (simp add: mask33_def)
  from onPTS_policy [OF _ _ _ this] show ?thesis by simp
qed

text \<open>
  C18. \<^verbatim>\<open>Insert\<close> of a cue of a known kind with non-negative times, when a video PTS is known or
  the cue needs none, succeeds: it appends one pending section, the section decodes to the cue at
  the returned PTS, and for a scheduled cue that PTS is the last video PTS plus 90 ticks per
  millisecond of pre-roll (4000 ms when none is given) modulo 2^33, whatever the pre-roll. In every
  other case it fails and leaves the injector as it was.
\<close>

theorem Insert_contract:
  assumes "pre = (if PreRollMs c = 0 then DefaultPreRollMs else PreRollMs c)"
  shows "if valid_kind c \<and> 0 \<le> PreRollMs c \<and> 0 \<le> DurationMs c \<and> (scheduled_cue c \<longrightarrow> ij_havePTS i)
    then \<exists>pts ps. Insert c i = (Inr pts, i\<lparr>ij_pending := ij_pending i @ [ps]\<rparr>) \<and> ps_cue ps = Some c \<and>
      ps_pts ps = pts \<and> Parse (ps_section ps) = Some (cue_info c pts, None) \<and>
      (scheduled_cue c \<longrightarrow> unat pts = (unat (ij_lastPTS i) + 90 * nat pre) mod 2 ^ 33)
    else \<exists>e. Insert c i = (Inl e, i)"
proof (cases "valid_kind c \<and> 0 \<le> PreRollMs c \<and> 0 \<le> DurationMs c \<and> (scheduled_cue c \<longrightarrow> ij_havePTS i)")
  case True
  define pts where "pts = (if scheduled_cue c then (ij_lastPTS i + msToTicks pre) AND mask33 else ij_lastPTS i)"
  obtain s where s: "Encode c pts = Inr s" using True Encode_valid by blast
  have "Insert c i = (Inr pts, i\<lparr>ij_pending := ij_pending i @ [\<lparr>ps_section = s, ps_cue = Some c, ps_pts = pts\<rparr>]\<rparr>)"
    using True s unfolding Insert_def Let_def pts_def valid_kind_def scheduled_cue_def assms
    by (simp only: if_False if_True simp_thms not_less not_le sum.case) auto
  moreover have "Parse s = Some (cue_info c pts, None)" using Parse_Encode [OF s, of "[]"] by simp
  moreover have "scheduled_cue c \<longrightarrow> unat pts = (unat (ij_lastPTS i) + 90 * nat pre) mod 2 ^ 33"
    using True by (simp add: pts_def scheduled_pts assms DefaultPreRollMs_def)
  ultimately show ?thesis unfolding if_P [OF True] by auto
next
  case False
  then consider "\<not> valid_kind c" | "valid_kind c" "PreRollMs c < 0 \<or> DurationMs c < 0"
    | "valid_kind c" "\<not> (PreRollMs c < 0 \<or> DurationMs c < 0)" "scheduled_cue c \<and> \<not> ij_havePTS i"
    by fastforce
  then have "\<exists>e. Insert c i = (Inl e, i)"
    by cases (unfold Insert_def Let_def valid_kind_def scheduled_cue_def, simp_all)
  then show ?thesis unfolding if_not_P [OF False] .
qed

theorem Insert_contract_witness:
  "\<exists>pts ps. Insert (breakCue\<lparr>Immediate := False\<rparr>) ((NewInjector 500)\<lparr>ij_havePTS := True, ij_lastPTS := 8589934000\<rparr>) =
      (Inr pts, (NewInjector 500)\<lparr>ij_havePTS := True, ij_lastPTS := 8589934000, ij_pending := [ps]\<rparr>) \<and>
    Parse (ps_section ps) = Some (cue_info (breakCue\<lparr>Immediate := False\<rparr>) pts, None) \<and> unat pts = 359408"
    (is "\<exists>pts ps. Insert ?c ?i = _ \<and> _")
proof -
  have c: "valid_kind ?c" "scheduled_cue ?c" "PreRollMs ?c = 0" "DurationMs ?c = 30000"
    by (simp_all add: valid_kind_def scheduled_cue_def breakCue_def nullCue_def kinds_distinct [symmetric])
  have i: "ij_havePTS ?i" "ij_lastPTS ?i = 8589934000" "ij_pending ?i = []"
    by (simp_all add: NewInjector_def)
  show ?thesis
    using Insert_contract [OF refl, of ?c ?i] unfolding c(3,4) i(2,3)
    by (auto simp: c i DefaultPreRollMs_def simp del: injector.update_convs)
qed

end
