(* ===== verification/Ts_Analyzer.thy ===== *)
theory Ts_Analyzer
  imports Prelude
begin

text \<open>
  \<^verbatim>\<open>streamhub-encoder/internal/tsbus/analyzer.go\<close>, the streaming transport-stream analyser of
  the encoder, and \<^verbatim>\<open>streamhub-core-go/internal/healthworker/tscc.go\<close>, the continuity-counter
  analysis of the health worker.

  Times are nanoseconds; the zero \<^verbatim>\<open>time.Time\<close> is \<open>None\<close>. The clock is read once per
  \<^verbatim>\<open>Feed\<close> and is an argument here. The int64 counters and clock values are integers: a PCR is
  below 2^33 * 300 + 512 and the counters count packets. \<^verbatim>\<open>driftMs\<close>, a float computed from two
  integer differences, is kept as those two integers (27 MHz ticks and nanoseconds).
\<close>

section \<open>The analyser's state\<close>

definition stH264 :: byte where "stH264 = 0x1b"
definition stH265 :: byte where "stH265 = 0x24"
definition stAAC :: byte where "stAAC = 0x0f"
definition stAACL :: byte where "stAACL = 0x11"

record sample =
  sm_at :: int
  sm_bytes :: int
  sm_frames :: int

record analyzer =
  an_packets :: int
  an_bytes :: int
  an_ccErrors :: int
  an_syncErrors :: int
  an_lastCC :: "u16 \<Rightarrow> byte option"
  an_pmtPID :: int
  an_videoPID :: int
  an_audioPID :: int
  an_pcrPID :: int
  an_videoCodec :: string
  an_audioCodec :: string
  an_videoFrames :: int
  an_audioFrames :: int
  an_pcr0 :: int
  an_wall0 :: "int option"
  an_lastPCR :: int
  an_drift :: "int \<times> int"
  an_pcrDisc :: int
  an_pcrSpan :: int
  an_ptsSegStart :: int
  an_ptsSegMax :: int
  an_ptsTotal :: int
  an_ptsSeen :: bool
  an_ptsJumps :: int
  an_lastPCRAt :: "int option"
  an_firstAt :: "int option"
  an_lastAt :: "int option"
  an_win :: "sample list"
  an_lastSample :: "int option"

definition NewAnalyzer :: analyzer where
  "NewAnalyzer = \<lparr>an_packets = 0, an_bytes = 0, an_ccErrors = 0, an_syncErrors = 0, an_lastCC = (\<lambda>_. None),
     an_pmtPID = -1, an_videoPID = -1, an_audioPID = -1, an_pcrPID = -1, an_videoCodec = '''',
     an_audioCodec = '''', an_videoFrames = 0, an_audioFrames = 0, an_pcr0 = 0, an_wall0 = None,
     an_lastPCR = 0, an_drift = (0, 0), an_pcrDisc = 0, an_pcrSpan = 0, an_ptsSegStart = 0,
     an_ptsSegMax = 0, an_ptsTotal = 0, an_ptsSeen = False, an_ptsJumps = 0, an_lastPCRAt = None,
     an_firstAt = None, an_lastAt = None, an_win = [], an_lastSample = None\<rparr>"

section \<open>Tables\<close>

definition an_section :: "bytes \<Rightarrow> bytes option" where
  "an_section data =
     (if length data < 1 then Some []
      else do {
        p0 \<leftarrow> idx data 0;
        let ptr = unat p0;
        if 1 + ptr \<ge> length data then Some []
        else do {
          s \<leftarrow> slice_from data (1 + ptr);
          if length s < 3 then Some []
          else do {
            s1 \<leftarrow> idx s 1; s2 \<leftarrow> idx s 2;
            let l = len12 s1 s2;
            if 3 + l > length s then Some [] else subslice s 0 (3 + l) } } })"

function an_pat_loop :: "bytes \<Rightarrow> nat \<Rightarrow> analyzer \<Rightarrow> analyzer option" where
  "an_pat_loop s i a =
     (if i + 4 \<le> length s - 4 then
        do { b0 \<leftarrow> idx s i; b1 \<leftarrow> idx s (i + 1); b2 \<leftarrow> idx s (i + 2); b3 \<leftarrow> idx s (i + 3);
             let prog = push_bit 8 (unat b0) OR unat b1;
             let pid = unat (pid13 b2 b3);
             if prog \<noteq> 0 then Some (a\<lparr>an_pmtPID := int pid\<rparr>) else an_pat_loop s (i + 4) a }
      else Some a)"
  by pat_completeness auto
termination
  by (relation "measure (\<lambda>(s, i, a). length s - i)") auto

declare an_pat_loop.simps [simp del]

definition an_pat :: "bytes \<Rightarrow> analyzer \<Rightarrow> analyzer option" where
  "an_pat data a =
     do { s \<leftarrow> an_section data;
          if length s < 12 then Some a
          else do { t \<leftarrow> idx s 0; if t \<noteq> 0 then Some a else an_pat_loop s 8 a } }"

definition an_stream :: "byte \<Rightarrow> int \<Rightarrow> analyzer \<Rightarrow> analyzer" where
  "an_stream st pid a =
     (if st = stH264 then a\<lparr>an_videoPID := pid, an_videoCodec := ''h264''\<rparr>
      else if st = stH265 then a\<lparr>an_videoPID := pid, an_videoCodec := ''h265''\<rparr>
      else if st = stAAC \<or> st = stAACL then a\<lparr>an_audioPID := pid, an_audioCodec := ''aac''\<rparr>
      else a)"

function an_pmt_loop :: "bytes \<Rightarrow> nat \<Rightarrow> analyzer \<Rightarrow> analyzer option" where
  "an_pmt_loop s i a =
     (if i + 5 \<le> length s - 4 then
        do { st \<leftarrow> idx s i; b1 \<leftarrow> idx s (i + 1); b2 \<leftarrow> idx s (i + 2); b3 \<leftarrow> idx s (i + 3); b4 \<leftarrow> idx s (i + 4);
             an_pmt_loop s (i + (5 + len12 b3 b4)) (an_stream st (int (unat (pid13 b1 b2))) a) }
      else Some a)"
  by pat_completeness auto
termination
  by (relation "measure (\<lambda>(s, i, a). length s - i)") auto

declare an_pmt_loop.simps [simp del]

definition an_pmt :: "bytes \<Rightarrow> analyzer \<Rightarrow> analyzer option" where
  "an_pmt data a =
     do { s \<leftarrow> an_section data;
          if length s < 16 then Some a
          else do {
            t \<leftarrow> idx s 0;
            if t \<noteq> 2 then Some a
            else do {
              s8 \<leftarrow> idx s 8; s9 \<leftarrow> idx s 9; s10 \<leftarrow> idx s 10; s11 \<leftarrow> idx s 11;
              let a = a\<lparr>an_pcrPID := int (unat (pid13 s8 s9))\<rparr>;
              an_pmt_loop s (12 + len12 s10 s11) a } } }"

section \<open>Clocks\<close>

definition an_jump :: int where "an_jump = 2 * 90000"

definition an_pts_value :: "bytes \<Rightarrow> int option" where
  "an_pts_value pes =
     do { b9 \<leftarrow> idx pes 9; b10 \<leftarrow> idx pes 10; b11 \<leftarrow> idx pes 11; b12 \<leftarrow> idx pes 12; b13 \<leftarrow> idx pes 13;
          Some (uint (push_bit 29 (ucast (b9 AND 0x0e)) OR push_bit 22 (ucast b10)
            OR push_bit 14 (ucast (b11 AND 0xfe)) OR push_bit 7 (ucast b12)
            OR drop_bit 1 (ucast b13) :: u64)) }"

text \<open>The part of \<^verbatim>\<open>videoPTS\<close> after the header: the PTS segments.\<close>

definition an_pts_segment :: "int \<Rightarrow> analyzer \<Rightarrow> analyzer" where
  "an_pts_segment p a =
     (if \<not> an_ptsSeen a then a\<lparr>an_ptsSeen := True, an_ptsSegStart := p, an_ptsSegMax := p\<rparr>
      else if p > an_ptsSegMax a + an_jump \<or> p < an_ptsSegStart a - an_jump then
        a\<lparr>an_ptsTotal := an_ptsTotal a + (an_ptsSegMax a - an_ptsSegStart a),
          an_ptsSegStart := p, an_ptsSegMax := p, an_ptsJumps := an_ptsJumps a + 1\<rparr>
      else
        let a = (if p > an_ptsSegMax a then a\<lparr>an_ptsSegMax := p\<rparr> else a)
        in if p < an_ptsSegStart a then a\<lparr>an_ptsSegStart := p\<rparr> else a)"

definition an_videoPTS :: "bytes \<Rightarrow> analyzer \<Rightarrow> analyzer option" where
  "an_videoPTS pes a =
     do { bad \<leftarrow> go_or (Some (length pes < 14)) (go_or (test pes 0 (\<lambda>x. x \<noteq> 0))
            (go_or (test pes 1 (\<lambda>x. x \<noteq> 0)) (go_or (test pes 2 (\<lambda>x. x \<noteq> 1)) (test pes 7 (\<lambda>x. x AND 0x80 = 0)))));
          if bad then Some a
          else do { p \<leftarrow> an_pts_value pes; Some (an_pts_segment p a) } }"

definition an_hz :: int where "an_hz = 27000000"

definition an_pcr :: "int \<Rightarrow> int \<Rightarrow> analyzer \<Rightarrow> analyzer" where
  "an_pcr v now a =
     (case an_wall0 a of
        None \<Rightarrow> a\<lparr>an_pcr0 := v, an_wall0 := Some now, an_lastPCR := v, an_lastPCRAt := Some now\<rparr>
      | Some w0 \<Rightarrow>
          let d = v - an_lastPCR a;
              a = (if d < 0 \<or> d > an_hz
                   then a\<lparr>an_pcrDisc := an_pcrDisc a + 1, an_pcr0 := v, an_wall0 := Some now\<rparr>
                   else a\<lparr>an_pcrSpan := an_pcrSpan a + d\<rparr>);
              a = a\<lparr>an_lastPCR := v, an_lastPCRAt := Some now\<rparr>
          in a\<lparr>an_drift := (v - an_pcr0 a, now - (case an_wall0 a of Some w \<Rightarrow> w | None \<Rightarrow> 0))\<rparr>)"

definition an_pcr_value :: "bytes \<Rightarrow> int" where
  "an_pcr_value p =
     (let base = uint (push_bit 25 (ucast (p ! 6)) OR push_bit 17 (ucast (p ! 7)) OR push_bit 9 (ucast (p ! 8))
                    OR push_bit 1 (ucast (p ! 9)) OR ucast (drop_bit 7 (p ! 10)) :: u64);
          ext = uint (push_bit 8 (ucast (p ! 10 AND 1)) OR ucast (p ! 11) :: u64)
      in base * 300 + ext)"

section \<open>Packets\<close>

text \<open>
  \<^verbatim>\<open>packet\<close> reads fixed offsets, at most 11, of the 188 bytes \<^verbatim>\<open>Feed\<close> cuts off with its own
  bounds check; these reads are total functions of the packet. The payload slice is not.
\<close>

definition an_pid :: "bytes \<Rightarrow> u16" where
  "an_pid p = pid13 (p ! 1) (p ! 2)"

definition an_continuity :: "bytes \<Rightarrow> analyzer \<Rightarrow> analyzer" where
  "an_continuity p a =
     (let pid = an_pid p; afc = drop_bit 4 (p ! 3) AND 0x3; cc = p ! 3 AND 0x0f in
      if afc AND 1 = 1 then
        let a = (case an_lastCC a pid of
                   None \<Rightarrow> a
                 | Some prev \<Rightarrow>
                     let disc = (afc AND 2 \<noteq> 0 \<and> p ! 4 > 0 \<and> p ! 5 AND 0x80 \<noteq> 0)
                     in if \<not> disc \<and> cc \<noteq> (prev + 1) AND 0x0f \<and> cc \<noteq> prev
                        then a\<lparr>an_ccErrors := an_ccErrors a + 1\<rparr> else a)
        in a\<lparr>an_lastCC := (an_lastCC a)(pid \<mapsto> cc)\<rparr>
      else a)"

definition an_packet :: "bytes \<Rightarrow> int \<Rightarrow> analyzer \<Rightarrow> analyzer option" where
  "an_packet p now a =
     (let pusi = p ! 1 AND 0x40 \<noteq> 0; pid = an_pid p; afc = drop_bit 4 (p ! 3) AND 0x3 in
      if pid = 0x1fff then Some a
      else
        let payload = (afc AND 1 = 1);
            a = an_continuity p a;
            alen = unat (p ! 4);
            a = (if afc AND 2 \<noteq> 0 \<and> alen > 0 \<and> 5 + alen \<le> 188 \<and> int (unat pid) = an_pcrPID a
                    \<and> p ! 5 AND 0x10 \<noteq> 0 \<and> alen \<ge> 7
                 then an_pcr (an_pcr_value p) now a else a);
            off = (if afc AND 2 \<noteq> 0 then 5 + alen else 4)
        in if \<not> payload \<or> off \<ge> 188 then Some a
           else do {
             data \<leftarrow> slice_from p off;
             if pid = 0 \<and> pusi then an_pat data a
             else if int (unat pid) = an_pmtPID a \<and> pusi then an_pmt data a
             else if int (unat pid) = an_videoPID a \<and> pusi
             then an_videoPTS data (a\<lparr>an_videoFrames := an_videoFrames a + 1\<rparr>)
             else if int (unat pid) = an_audioPID a \<and> pusi
             then Some (a\<lparr>an_audioFrames := an_audioFrames a + 1\<rparr>)
             else Some a })"

function feed_loop :: "bytes \<Rightarrow> int \<Rightarrow> analyzer \<Rightarrow> analyzer option" where
  "feed_loop b now a =
     (if length b \<ge> 188 then
        do { pkt \<leftarrow> subslice b 0 188;
             b \<leftarrow> slice_from b 188;
             lost \<leftarrow> test pkt 0 (\<lambda>x. x \<noteq> 0x47);
             if lost then feed_loop b now (a\<lparr>an_syncErrors := an_syncErrors a + 1\<rparr>)
             else do { a \<leftarrow> an_packet pkt now (a\<lparr>an_packets := an_packets a + 1\<rparr>); feed_loop b now a } }
      else Some a)"
  by pat_completeness auto
termination
  by (relation "measure (\<lambda>(b, now, a). length b)") (auto simp: slice_from_def split: if_splits)

declare feed_loop.simps [simp del]

definition Feed :: "int \<Rightarrow> bytes \<Rightarrow> analyzer \<Rightarrow> analyzer option" where
  "Feed now b a =
     (let a = (if an_firstAt a = None then a\<lparr>an_firstAt := Some now, an_lastSample := Some now\<rparr> else a);
          a = a\<lparr>an_lastAt := Some now, an_bytes := an_bytes a + int (length b)\<rparr>
      in do {
        a \<leftarrow> feed_loop b now a;
        let lastSample = (case an_lastSample a of Some t \<Rightarrow> t | None \<Rightarrow> 0);
        if now - lastSample \<ge> 1000000000 then do {
          let win = an_win a @ [\<lparr>sm_at = now, sm_bytes = an_bytes a, sm_frames = an_videoFrames a\<rparr>];
          win \<leftarrow> (if length win > 6 then slice_from win (length win - 6) else Some win);
          Some (a\<lparr>an_win := win, an_lastSample := Some now\<rparr>) }
        else Some a })"

section \<open>The health worker's analysis\<close>

record ts_result =
  tr_Packets :: int
  tr_CCErrors :: int
  tr_SyncLosses :: int
  tr_PIDs :: nat

function resync :: "bytes \<Rightarrow> nat \<Rightarrow> nat option" where
  "resync b j =
     do { more \<leftarrow> go_and (Some (j + 188 \<le> length b)) (test b j (\<lambda>x. x \<noteq> 0x47));
          if more then resync b (j + 1) else Some j }"
  by pat_completeness auto
termination
  by (relation "measure (\<lambda>(b, j). length b - j)") (auto simp: go_and_def split: if_splits)

declare resync.simps [simp del]

text \<open>The packet at offset \<open>i\<close> of the buffer.\<close>

definition tscc_packet :: "bytes \<Rightarrow> nat \<Rightarrow> (u16 \<Rightarrow> byte option) \<times> ts_result
    \<Rightarrow> ((u16 \<Rightarrow> byte option) \<times> ts_result) option" where
  "tscc_packet b i st =
     do { let (lastCC, r) = st;
          let r = r\<lparr>tr_Packets := tr_Packets r + 1\<rparr>;
          b1 \<leftarrow> idx b (i + 1); b2 \<leftarrow> idx b (i + 2); b3 \<leftarrow> idx b (i + 3);
          let pid = pid13 b1 b2;
          let afc = drop_bit 4 b3 AND 0x3;
          let cc = b3 AND 0x0f;
          let hasPayload = (afc AND 1 = 1);
          flags \<leftarrow> go_and (Some (afc AND 2 = 2)) (test b (i + 4) (\<lambda>x. x > 0));
          disc \<leftarrow> (if flags then test b (i + 5) (\<lambda>x. x AND 0x80 \<noteq> 0) else Some False);
          if pid \<noteq> 0x1fff \<and> hasPayload then
            (let r = (case lastCC pid of
                        None \<Rightarrow> r
                      | Some prev \<Rightarrow>
                          if \<not> disc \<and> cc \<noteq> (prev + 1) AND 0x0f \<and> cc \<noteq> prev
                          then r\<lparr>tr_CCErrors := tr_CCErrors r + 1\<rparr> else r)
             in Some (lastCC(pid \<mapsto> cc), r))
          else Some (lastCC, r) }"

lemma resync_ge: "resync b j = Some k \<Longrightarrow> j \<le> k"
proof (induction b j rule: resync.induct)
  case (1 b j)
  obtain more where "go_and (Some (j + 188 \<le> length b)) (test b j (\<lambda>x. x \<noteq> 0x47)) = Some more"
    using "1.prems" by (subst (asm) resync.simps) (auto split: bind_splits)
  with 1 show ?case by (subst (asm) (2) resync.simps) (cases more; force)
qed

function tscc_loop :: "bytes \<Rightarrow> nat \<Rightarrow> (u16 \<Rightarrow> byte option) \<times> ts_result
    \<Rightarrow> ((u16 \<Rightarrow> byte option) \<times> ts_result) option" where
  "tscc_loop b i st =
     (if i + 188 \<le> length b then
        do { lost \<leftarrow> test b i (\<lambda>x. x \<noteq> 0x47);
             if lost
             then do { j \<leftarrow> resync b (i + 1);
                       tscc_loop b j (let (lastCC, r) = st in (lastCC, r\<lparr>tr_SyncLosses := tr_SyncLosses r + 1\<rparr>)) }
             else do { st \<leftarrow> tscc_packet b i st; tscc_loop b (i + 188) st } }
      else Some st)"
  by pat_completeness auto
termination
  by (relation "measure (\<lambda>(b, i, st). length b - i)") (auto dest: resync_ge)

declare tscc_loop.simps [simp del]

definition AnalyzeTSContinuity :: "bytes \<Rightarrow> ts_result option" where
  "AnalyzeTSContinuity b =
     do { (lastCC, r) \<leftarrow> tscc_loop b 0 ((\<lambda>_. None), \<lparr>tr_Packets = 0, tr_CCErrors = 0, tr_SyncLosses = 0, tr_PIDs = 0\<rparr>);
          Some (r\<lparr>tr_PIDs := card (dom lastCC)\<rparr>) }"

section \<open>No panic, and what each handler may change\<close>

text \<open>The counters of the continuity and synchronisation analysis, which the table and clock
  handlers leave alone.\<close>

definition an_frame :: "analyzer \<Rightarrow> analyzer \<Rightarrow> bool" where
  "an_frame a a' \<longleftrightarrow>
     an_packets a' = an_packets a \<and> an_bytes a' = an_bytes a \<and> an_ccErrors a' = an_ccErrors a \<and>
     an_syncErrors a' = an_syncErrors a \<and> an_lastCC a' = an_lastCC a \<and> an_win a' = an_win a \<and>
     an_firstAt a' = an_firstAt a \<and> an_lastAt a' = an_lastAt a \<and> an_lastSample a' = an_lastSample a"

text \<open>The invariant of the measured durations.\<close>

definition an_ok :: "analyzer \<Rightarrow> bool" where
  "an_ok a \<longleftrightarrow> an_ptsSegStart a \<le> an_ptsSegMax a \<and> 0 \<le> an_ptsTotal a \<and> 0 \<le> an_pcrSpan a \<and>
     0 \<le> an_ptsJumps a \<and> 0 \<le> an_pcrDisc a \<and> 0 \<le> an_videoFrames a \<and> 0 \<le> an_audioFrames a \<and>
     0 \<le> an_packets a \<and> 0 \<le> an_syncErrors a \<and> 0 \<le> an_ccErrors a \<and> length (an_win a) \<le> 6"

definition an_good :: "analyzer \<Rightarrow> analyzer \<Rightarrow> bool" where
  "an_good a a' \<longleftrightarrow> an_frame a a' \<and> (an_ok a \<longrightarrow> an_ok a')"

lemma an_good_refl [simp]: "an_good a a"
  by (simp add: an_good_def an_frame_def)

lemma an_good_trans: "an_good a b \<Longrightarrow> an_good b c \<Longrightarrow> an_good a c"
  by (auto simp: an_good_def an_frame_def)

lemma an_section_total: "\<exists>s. an_section data = Some s"
  by (cases data) (auto simp: an_section_def Let_def)

lemma an_pat_loop_good: "\<exists>a'. an_pat_loop s i a = Some a' \<and> an_good a a'"
proof (induction s i a rule: an_pat_loop.induct)
  case (1 s i a)
  show ?case
  proof (cases "i + 4 \<le> length s - 4")
    case True
    then show ?thesis using 1
      by (subst an_pat_loop.simps) (auto simp: Let_def an_good_def an_frame_def an_ok_def)
  qed (subst an_pat_loop.simps, simp)
qed

lemma an_stream_good: "an_good a (an_stream st pid a)"
  by (simp add: an_stream_def an_good_def an_frame_def an_ok_def)

lemma an_pmt_loop_good: "\<exists>a'. an_pmt_loop s i a = Some a' \<and> an_good a a'"
proof (induction "length s - i" arbitrary: i a rule: less_induct)
  case less
  show ?case
  proof (cases "i + 5 \<le> length s - 4")
    case True
    let ?j = "i + (5 + len12 (s ! (i + 3)) (s ! (i + 4)))"
    let ?a = "an_stream (s ! i) (int (unat (pid13 (s ! (i + 1)) (s ! (i + 2))))) a"
    have step: "an_pmt_loop s i a = an_pmt_loop s ?j ?a"
      using True by (subst an_pmt_loop.simps) simp
    have "length s - ?j < length s - i" using True by simp
    from less [OF this, of ?a] show ?thesis
      unfolding step using an_good_trans [OF an_stream_good] by blast
  qed (subst an_pmt_loop.simps, simp)
qed

lemma an_pat_good: "\<exists>a'. an_pat data a = Some a' \<and> an_good a a'"
proof -
  obtain s where s: "an_section data = Some s" using an_section_total by blast
  show ?thesis
  proof (cases "length s < 12")
    case False
    then have "idx s 0 = Some (s ! 0)" by (intro idx_Some) linarith
    then show ?thesis using s an_pat_loop_good [of s 8 a] by (auto simp: an_pat_def)
  qed (simp add: an_pat_def s)
qed

lemma an_pmt_good: "\<exists>a'. an_pmt data a = Some a' \<and> an_good a a'"
proof -
  obtain s where s: "an_section data = Some s" using an_section_total by blast
  let ?a = "a\<lparr>an_pcrPID := int (unat (pid13 (s ! 8) (s ! 9)))\<rparr>"
  have "an_good a ?a" by (simp add: an_good_def an_frame_def an_ok_def)
  moreover obtain a' where "an_pmt_loop s (12 + len12 (s ! 10) (s ! 11)) ?a = Some a'" "an_good ?a a'"
    using an_pmt_loop_good by blast
  ultimately have l: "an_pmt_loop s (12 + len12 (s ! 10) (s ! 11)) ?a = Some a'" "an_good a a'"
    using an_good_trans by blast+
  show ?thesis
  proof (cases "length s < 16")
    case False
    then have "idx s 0 = Some (s ! 0)" by (intro idx_Some) linarith
    then show ?thesis using s l False by (simp add: an_pmt_def Let_def)
  qed (simp add: an_pmt_def s)
qed

lemma an_pts_segment_good: "an_good a (an_pts_segment p a)"
  by (auto simp: an_pts_segment_def Let_def an_good_def an_frame_def an_ok_def an_jump_def)

text \<open>The length guard of \<^verbatim>\<open>videoPTS\<close> covers the last byte it reads, at 13.\<close>

lemma an_videoPTS_good: "\<exists>a'. an_videoPTS pes a = Some a' \<and> an_good a a'"
proof (cases "length pes < 14")
  case False
  then have "returns (an_videoPTS pes a)"
    unfolding an_videoPTS_def an_pts_value_def by (intro returns_intros) auto
  then obtain a' where a': "an_videoPTS pes a = Some a'" by (auto simp: returns_iff)
  then have "a' = a \<or> (\<exists>p. a' = an_pts_segment p a)"
    unfolding an_videoPTS_def by (auto split: bind_splits if_splits)
  then show ?thesis using a' an_pts_segment_good by auto
qed (simp add: an_videoPTS_def)

lemma an_pcr_good: "an_good a (an_pcr v now a)"
  by (auto simp: an_pcr_def Let_def an_good_def an_frame_def an_ok_def split: option.splits)

lemma an_packet_good:
  fixes a :: analyzer
  assumes "length p = 188"
  defines "b \<equiv> (if an_pid p = 0x1fff then a else an_continuity p a)"
  shows "\<exists>a'. an_packet p now a = Some a' \<and> an_good b a'"
proof (cases "an_pid p = 0x1fff")
  case False
  let ?afc = "drop_bit 4 (p ! 3) AND 0x3"
  let ?off = "if ?afc AND 2 \<noteq> 0 then 5 + unat (p ! 4) else 4"
  define c where "c = (if ?afc AND 2 \<noteq> 0 \<and> unat (p ! 4) > 0 \<and> 5 + unat (p ! 4) \<le> 188 \<and> int (unat (an_pid p)) = an_pcrPID b
       \<and> p ! 5 AND 0x10 \<noteq> 0 \<and> unat (p ! 4) \<ge> 7 then an_pcr (an_pcr_value p) now b else b)"
  have b: "b = an_continuity p a" using False by (simp add: b_def)
  have c: "an_good b c" unfolding c_def using an_pcr_good by (simp only: if_split an_good_refl) blast
  define F where "F data = (if an_pid p = 0 \<and> p ! 1 AND 0x40 \<noteq> 0 then an_pat data c
     else if int (unat (an_pid p)) = an_pmtPID c \<and> p ! 1 AND 0x40 \<noteq> 0 then an_pmt data c
     else if int (unat (an_pid p)) = an_videoPID c \<and> p ! 1 AND 0x40 \<noteq> 0
     then an_videoPTS data (c\<lparr>an_videoFrames := an_videoFrames c + 1\<rparr>)
     else if int (unat (an_pid p)) = an_audioPID c \<and> p ! 1 AND 0x40 \<noteq> 0
     then Some (c\<lparr>an_audioFrames := an_audioFrames c + 1\<rparr>) else Some c)" for data
  have v: "an_good c (c\<lparr>an_videoFrames := an_videoFrames c + 1\<rparr>)" "an_good c (c\<lparr>an_audioFrames := an_audioFrames c + 1\<rparr>)"
    by (auto simp: an_good_def an_frame_def an_ok_def)
  have F: "\<exists>a'. F data = Some a' \<and> an_good c a'" for data
    unfolding F_def
    using an_pat_good an_pmt_good v an_good_trans [OF v(1)] an_videoPTS_good [of data "c\<lparr>an_videoFrames := an_videoFrames c + 1\<rparr>"]
    by auto
  have "an_packet p now a = (if \<not> ?afc AND 1 = 1 \<or> ?off \<ge> 188 then Some c else slice_from p ?off \<bind> F)"
    unfolding an_packet_def Let_def F_def c_def b using False by (simp only: if_False)
  then show ?thesis
    using F [of "drop ?off p"] an_good_trans [OF c] c assms(1) by (auto split: if_splits)
qed (simp add: an_packet_def b_def)

section \<open>Continuity counters: the reference definition\<close>

definition carries :: "bytes \<Rightarrow> bool" where
  "carries p \<longleftrightarrow> an_pid p \<noteq> 0x1fff \<and> (drop_bit 4 (p ! 3) AND 0x3) AND 1 = 1"

definition cc_of :: "bytes \<Rightarrow> byte" where
  "cc_of p = p ! 3 AND 0x0f"

definition cc_breaks :: "byte \<Rightarrow> bytes \<Rightarrow> bool" where
  "cc_breaks c p \<longleftrightarrow>
     \<not> ((drop_bit 4 (p ! 3) AND 0x3) AND 2 \<noteq> 0 \<and> p ! 4 > 0 \<and> p ! 5 AND 0x80 \<noteq> 0) \<and>
     cc_of p \<noteq> (c + 1) AND 0x0f \<and> cc_of p \<noteq> c"

text \<open>The breaks in the packets of one PID, seen alone.\<close>

fun breaks :: "byte option \<Rightarrow> bytes list \<Rightarrow> int" where
  "breaks m [] = 0"
| "breaks None (p # ps) = breaks (Some (cc_of p)) ps"
| "breaks (Some c) (p # ps) = (if cc_breaks c p then 1 else 0) + breaks (Some (cc_of p)) ps"

definition of_pid :: "u16 \<Rightarrow> bytes list \<Rightarrow> bytes list" where
  "of_pid q ps = filter (\<lambda>p. carries p \<and> an_pid p = q) ps"

text \<open>The state both analysers keep, and their step on it.\<close>

type_synonym cc_state = "(u16 \<Rightarrow> byte option) \<times> int"

definition cc_step :: "cc_state \<Rightarrow> bytes \<Rightarrow> cc_state" where
  "cc_step st p =
     (case st of (m, n) \<Rightarrow>
        if carries p
        then (m(an_pid p \<mapsto> cc_of p),
              n + (case m (an_pid p) of Some c \<Rightarrow> if cc_breaks c p then 1 else 0 | None \<Rightarrow> 0))
        else (m, n))"

lemma cc_fold_breaks:
  "snd (foldl cc_step (m, n) ps) = n + (\<Sum>q\<in>UNIV. breaks (m q) (of_pid q ps))"
proof (induction ps arbitrary: m n)
  case (Cons p ps)
  show ?case
  proof (cases "carries p")
    case True
    let ?q = "an_pid p"
    let ?m = "m(?q \<mapsto> cc_of p)"
    let ?d = "case m ?q of Some c \<Rightarrow> if cc_breaks c p then 1 else 0 | None \<Rightarrow> (0 :: int)"
    have q: "breaks (m ?q) (of_pid ?q (p # ps)) = ?d + breaks (?m ?q) (of_pid ?q ps)"
      using True by (cases "m ?q") (simp_all add: of_pid_def)
    have "breaks (m r) (of_pid r (p # ps)) = breaks (?m r) (of_pid r ps)" if "r \<noteq> ?q" for r
      using that by (simp add: of_pid_def)
    then have "(\<Sum>r\<in>UNIV - {?q}. breaks (m r) (of_pid r (p # ps))) = (\<Sum>r\<in>UNIV - {?q}. breaks (?m r) (of_pid r ps))"
      by (intro sum.cong) auto
    with q have "(\<Sum>r\<in>UNIV. breaks (m r) (of_pid r (p # ps))) = ?d + (\<Sum>r\<in>UNIV. breaks (?m r) (of_pid r ps))"
      by (subst (1 2) sum.remove [of UNIV ?q]) auto
    moreover have "cc_step (m, n) p = (?m, n + ?d)" using True by (simp add: cc_step_def)
    ultimately show ?thesis using Cons.IH [of ?m "n + ?d"] by (simp only: foldl.simps add.assoc)
  next
    case False
    then show ?thesis using Cons.IH [of m n] by (simp add: cc_step_def of_pid_def)
  qed
qed (simp add: of_pid_def)

text \<open>
  The contract the two analysers share: the state has a view as counters and errors, and a packet
  steps the view.
\<close>

locale cc_analysis =
  fixes view :: "'s \<Rightarrow> cc_state" and step :: "bytes \<Rightarrow> 's \<Rightarrow> 's"
  assumes view_step: "view (step p s) = cc_step (view s) p"
begin

lemma view_fold: "view (foldl (\<lambda>s p. step p s) s ps) = foldl cc_step (view s) ps"
  by (induction ps arbitrary: s) (simp_all add: view_step)

lemma errors_are_breaks:
  "snd (view (foldl (\<lambda>s p. step p s) s ps)) =
     snd (view s) + (\<Sum>q\<in>UNIV. breaks (fst (view s) q) (of_pid q ps))"
  unfolding view_fold using cc_fold_breaks [of "fst (view s)" "snd (view s)" ps] by simp

end

section \<open>The analyser computes it\<close>

function ts_chunks :: "bytes \<Rightarrow> bytes list" where
  "ts_chunks b = (if length b \<ge> 188 then take 188 b # ts_chunks (drop 188 b) else [])"
  by pat_completeness auto
termination
  by (relation "measure length") auto

declare ts_chunks.simps [simp del]

definition synced :: "bytes \<Rightarrow> bool" where
  "synced p \<longleftrightarrow> p ! 0 = 0x47"

definition cc_state_of :: "analyzer \<Rightarrow> cc_state" where
  "cc_state_of a = (an_lastCC a, an_ccErrors a)"

text \<open>The continuity part of a packet: the null PID is skipped before the check.\<close>

definition an_cc_packet :: "bytes \<Rightarrow> analyzer \<Rightarrow> analyzer" where
  "an_cc_packet p a = (if an_pid p = 0x1fff then a else an_continuity p a)"

interpretation enc: cc_analysis cc_state_of an_cc_packet
proof
  show "cc_state_of (an_cc_packet p a) = cc_step (cc_state_of a) p" for p a
    unfolding an_cc_packet_def
    by (auto simp: cc_state_of_def an_continuity_def cc_step_def carries_def cc_of_def cc_breaks_def Let_def
      split: option.splits)
qed

lemma an_continuity_keeps:
  "an_packets (an_continuity p a) = an_packets a" "an_bytes (an_continuity p a) = an_bytes a"
  "an_syncErrors (an_continuity p a) = an_syncErrors a" "an_win (an_continuity p a) = an_win a"
  "an_lastAt (an_continuity p a) = an_lastAt a" "an_firstAt (an_continuity p a) = an_firstAt a"
  "an_lastSample (an_continuity p a) = an_lastSample a" "an_ok a \<Longrightarrow> an_ok (an_continuity p a)"
  by (auto simp: an_continuity_def Let_def an_ok_def split: option.splits)

text \<open>What a fed buffer does to the counters.\<close>

lemma feed_loop_counts:
  "\<exists>a'. feed_loop b now a = Some a' \<and>
    an_packets a' = an_packets a + int (length (filter synced (ts_chunks b))) \<and>
    an_syncErrors a' = an_syncErrors a + int (length (filter (\<lambda>p. \<not> synced p) (ts_chunks b))) \<and>
    cc_state_of a' = foldl cc_step (cc_state_of a) (filter synced (ts_chunks b)) \<and>
    an_bytes a' = an_bytes a \<and> an_win a' = an_win a \<and> an_lastSample a' = an_lastSample a \<and>
    (an_ok a \<longrightarrow> an_ok a')"
proof (induction "length b" arbitrary: b a rule: less_induct)
  case less
  show ?case
  proof (cases "length b \<ge> 188")
    case False
    then show ?thesis by (subst feed_loop.simps, subst (1 2 3) ts_chunks.simps) simp
  next
    case True
    let ?p = "take 188 b" and ?b = "drop 188 b"
    have ch: "ts_chunks b = ?p # ts_chunks ?b" using True by (subst ts_chunks.simps) simp
    have l: "length ?b < length b" "length ?p = 188" using True by simp_all
    then have hd: "test ?p 0 P = Some (P (?p ! 0))" for P by (intro test_Some) simp
    show ?thesis
    proof (cases "synced ?p")
      case False
      let ?a = "a\<lparr>an_syncErrors := an_syncErrors a + 1\<rparr>"
      have step: "feed_loop b now a = feed_loop ?b now ?a"
        using True False hd by (subst feed_loop.simps) (simp add: synced_def)
      have "an_ok a \<Longrightarrow> an_ok ?a" "cc_state_of ?a = cc_state_of a" by (auto simp: an_ok_def cc_state_of_def)
      with less [OF l(1), of ?a] False show ?thesis unfolding step ch by auto
    next
      case True': True
      let ?a = "a\<lparr>an_packets := an_packets a + 1\<rparr>"
      define c where "c = an_cc_packet ?p ?a"
      obtain a1 where a1: "an_packet ?p now ?a = Some a1" "an_good c a1"
        using an_packet_good [OF l(2)] unfolding c_def an_cc_packet_def by blast
      have step: "feed_loop b now a = feed_loop ?b now a1"
        using True True' a1 hd by (subst feed_loop.simps) (simp add: synced_def)
      have c: "cc_state_of c = cc_step (cc_state_of a) ?p" "an_packets c = an_packets a + 1"
        "an_syncErrors c = an_syncErrors a" "an_bytes c = an_bytes a" "an_win c = an_win a"
        "an_lastSample c = an_lastSample a" "an_ok a \<Longrightarrow> an_ok c"
      proof -
        have "cc_state_of ?a = cc_state_of a" "an_ok a \<Longrightarrow> an_ok ?a" by (simp_all add: cc_state_of_def an_ok_def)
        then show "cc_state_of c = cc_step (cc_state_of a) ?p" "an_packets c = an_packets a + 1"
          "an_syncErrors c = an_syncErrors a" "an_bytes c = an_bytes a" "an_win c = an_win a"
          "an_lastSample c = an_lastSample a" "an_ok a \<Longrightarrow> an_ok c"
          using enc.view_step [of ?p ?a] an_continuity_keeps by (auto simp: c_def an_cc_packet_def)
      qed
      have "cc_state_of a1 = cc_state_of c" "an_packets a1 = an_packets c" "an_syncErrors a1 = an_syncErrors c"
        "an_bytes a1 = an_bytes c" "an_win a1 = an_win c" "an_lastSample a1 = an_lastSample c" "an_ok c \<longrightarrow> an_ok a1"
        using a1(2) by (auto simp: an_good_def an_frame_def cc_state_of_def)
      with c less [OF l(1), of a1] True' show ?thesis unfolding step ch by auto
    qed
  qed
qed

lemma Feed_counts:
  "\<exists>a'. Feed now b a = Some a' \<and>
    an_packets a' = an_packets a + int (length (filter synced (ts_chunks b))) \<and>
    an_syncErrors a' = an_syncErrors a + int (length (filter (\<lambda>p. \<not> synced p) (ts_chunks b))) \<and>
    cc_state_of a' = foldl cc_step (cc_state_of a) (filter synced (ts_chunks b)) \<and>
    an_bytes a' = an_bytes a + int (length b) \<and> (an_ok a \<longrightarrow> an_ok a')"
proof -
  define c where "c = (let a = (if an_firstAt a = None then a\<lparr>an_firstAt := Some now, an_lastSample := Some now\<rparr> else a)
      in a\<lparr>an_lastAt := Some now, an_bytes := an_bytes a + int (length b)\<rparr>)"
  have c: "an_packets c = an_packets a" "an_syncErrors c = an_syncErrors a" "cc_state_of c = cc_state_of a"
    "an_bytes c = an_bytes a + int (length b)" "an_ok a \<Longrightarrow> an_ok c"
    by (simp_all add: c_def Let_def cc_state_of_def an_ok_def)
  obtain d where d: "feed_loop b now c = Some d"
    "an_packets d = an_packets c + int (length (filter synced (ts_chunks b)))"
    "an_syncErrors d = an_syncErrors c + int (length (filter (\<lambda>p. \<not> synced p) (ts_chunks b)))"
    "cc_state_of d = foldl cc_step (cc_state_of c) (filter synced (ts_chunks b))"
    "an_bytes d = an_bytes c" "an_ok c \<longrightarrow> an_ok d"
    using feed_loop_counts [of b now c] by blast
  define w where "w = an_win d @ [\<lparr>sm_at = now, sm_bytes = an_bytes d, sm_frames = an_videoFrames d\<rparr>]"
  define e where "e = (if now - (case an_lastSample d of Some t \<Rightarrow> t | None \<Rightarrow> 0) \<ge> 1000000000
      then d\<lparr>an_win := if length w > 6 then drop (length w - 6) w else w, an_lastSample := Some now\<rparr> else d)"
  have F: "Feed now b a = Some e"
    using d(1) unfolding Feed_def Let_def c_def w_def e_def by simp
  have "an_packets e = an_packets d" "an_syncErrors e = an_syncErrors d" "cc_state_of e = cc_state_of d"
    "an_bytes e = an_bytes d" "an_ok d \<Longrightarrow> an_ok e"
    by (auto simp: e_def cc_state_of_def an_ok_def)
  with c d F show ?thesis by auto
qed

lemma Feed_fresh:
  "\<exists>a. Feed now b NewAnalyzer = Some a \<and> an_bytes a = int (length b) \<and>
    an_packets a = int (length (filter synced (ts_chunks b))) \<and>
    an_syncErrors a = int (length (filter (\<lambda>p. \<not> synced p) (ts_chunks b))) \<and>
    an_ccErrors a = (\<Sum>q\<in>UNIV. breaks None (of_pid q (filter synced (ts_chunks b)))) \<and> an_ok a"
proof -
  have n: "an_bytes NewAnalyzer = 0" "an_packets NewAnalyzer = 0" "an_syncErrors NewAnalyzer = 0"
    "cc_state_of NewAnalyzer = ((\<lambda>_. None), 0)" "an_ok NewAnalyzer"
    by (simp_all add: NewAnalyzer_def cc_state_of_def an_ok_def)
  obtain a where a: "Feed now b NewAnalyzer = Some a" "an_bytes a = int (length b)"
    "an_packets a = int (length (filter synced (ts_chunks b)))"
    "an_syncErrors a = int (length (filter (\<lambda>p. \<not> synced p) (ts_chunks b)))"
    "cc_state_of a = foldl cc_step ((\<lambda>_. None), 0) (filter synced (ts_chunks b))" "an_ok a"
    using Feed_counts [of now b NewAnalyzer] n(5) unfolding n(1-4) by auto
  have "an_ccErrors a = snd (cc_state_of a)" by (simp add: cc_state_of_def)
  then show ?thesis
    using a by (simp add: cc_fold_breaks)
qed

section \<open>The health worker agrees\<close>

text \<open>The step of \<^verbatim>\<open>AnalyzeTSContinuity\<close> as a function of the packet's own bytes.\<close>

definition tscc_step :: "bytes \<Rightarrow> (u16 \<Rightarrow> byte option) \<times> ts_result \<Rightarrow> (u16 \<Rightarrow> byte option) \<times> ts_result" where
  "tscc_step p st =
     (let (lastCC, r) = st;
          r = r\<lparr>tr_Packets := tr_Packets r + 1\<rparr>;
          pid = pid13 (p ! 1) (p ! 2);
          afc = drop_bit 4 (p ! 3) AND 0x3;
          cc = p ! 3 AND 0x0f;
          hasPayload = (afc AND 1 = 1);
          disc = (afc AND 2 = 2 \<and> p ! 4 > 0 \<and> p ! 5 AND 0x80 \<noteq> 0)
      in if pid \<noteq> 0x1fff \<and> hasPayload then
           let r = (case lastCC pid of
                      None \<Rightarrow> r
                    | Some prev \<Rightarrow>
                        if \<not> disc \<and> cc \<noteq> (prev + 1) AND 0x0f \<and> cc \<noteq> prev
                        then r\<lparr>tr_CCErrors := tr_CCErrors r + 1\<rparr> else r)
           in (lastCC(pid \<mapsto> cc), r)
         else (lastCC, r))"

lemma tscc_packet_eq:
  assumes "i + 188 \<le> length b"
  shows "tscc_packet b i st = Some (tscc_step (take 188 (drop i b)) st)"
proof -
  obtain lastCC r where st: "st = (lastCC, r)" by fastforce
  let ?p = "take 188 (drop i b)"
  have n: "idx b (i + 1) = Some (?p ! 1)" "idx b (i + 2) = Some (?p ! 2)" "idx b (i + 3) = Some (?p ! 3)"
    "test b (i + 4) P = Some (P (?p ! 4))" "test b (i + 5) P = Some (P (?p ! 5))" for P
    using assms by simp_all
  have d: "(if c then Some x else Some False) = Some (c \<and> x)" for c x by simp
  show ?thesis
    unfolding tscc_packet_def tscc_step_def st n Let_def prod.case bind.bind_lunit go_and_simps d
    by (simp only: conj_assoc if_distrib [of Some])
qed

definition cc_state_of_result :: "(u16 \<Rightarrow> byte option) \<times> ts_result \<Rightarrow> cc_state" where
  "cc_state_of_result st = (fst st, tr_CCErrors (snd st))"

lemma and_2: "((x :: byte) AND 2 = 2) = (x AND 2 \<noteq> 0)"
proof -
  have "x AND 2 = (if bit x 1 then 2 else 0)"
  proof (rule bit_word_eqI)
    fix n assume "n < LENGTH(8)"
    then consider "n=0"|"n=1"|"n=2"|"n=3"|"n=4"|"n=5"|"n=6"|"n=7" by fastforce
    then show "bit (x AND 2) n = bit (if bit x 1 then 2 else 0 :: byte) n"
      by cases (simp_all add: bit_simps)
  qed
  then show ?thesis by simp
qed

lemma tscc_packet_step:
  "cc_state_of_result (tscc_step p st) = cc_step (cc_state_of_result st) p"
  "tr_Packets (snd (tscc_step p st)) = tr_Packets (snd st) + 1"
  "tr_SyncLosses (snd (tscc_step p st)) = tr_SyncLosses (snd st)"
proof -
  obtain m r where st: "st = (m, r)" by fastforce
  show "cc_state_of_result (tscc_step p st) = cc_step (cc_state_of_result st) p"
    unfolding st tscc_step_def cc_state_of_result_def cc_step_def Let_def carries_def cc_of_def cc_breaks_def an_pid_def and_2
    by (auto split: option.splits)
  show "tr_Packets (snd (tscc_step p st)) = tr_Packets (snd st) + 1"
    "tr_SyncLosses (snd (tscc_step p st)) = tr_SyncLosses (snd st)"
    unfolding st tscc_step_def Let_def by (auto split: option.splits)
qed

interpretation core: cc_analysis cc_state_of_result tscc_step
  by unfold_locales (rule tscc_packet_step)

lemma tscc_loop_synced:
  assumes "\<forall>p \<in> set (ts_chunks (drop i b)). synced p"
  shows "tscc_loop b i st = Some (foldl (\<lambda>st p. tscc_step p st) st (ts_chunks (drop i b)))"
  using assms
proof (induction "length b - i" arbitrary: i st rule: less_induct)
  case less
  show ?case
  proof (cases "i + 188 \<le> length b")
    case True
    have ch: "ts_chunks (drop i b) = take 188 (drop i b) # ts_chunks (drop (i + 188) b)"
      using True by (subst ts_chunks.simps) (simp add: add.commute)
    have "b ! i = 0x47" using less.prems True unfolding ch by (simp add: synced_def)
    then have "tscc_loop b i st = tscc_loop b (i + 188) (tscc_step (take 188 (drop i b)) st)"
      using True by (subst tscc_loop.simps) (simp add: tscc_packet_eq)
    moreover have "length b - (i + 188) < length b - i" using True by simp
    ultimately show ?thesis using less.hyps less.prems unfolding ch by simp
  next
    case False
    then have "ts_chunks (drop i b) = []" by (subst ts_chunks.simps) simp
    with False show ?thesis by (subst tscc_loop.simps) simp
  qed
qed

text \<open>On every buffer, in sync or not, the analysis returns.\<close>

lemma resync_returns [returns_intros]: "returns (resync b j)"
proof (induction "length b - j" arbitrary: j rule: less_induct)
  case less
  show ?case
  proof (cases "j + 188 \<le> length b")
    case True
    then have "returns (resync b (j + 1))" by (intro less) simp
    with True show ?thesis by (subst resync.simps) (intro returns_intros; simp)
  qed (simp add: resync.simps returns_Some)
qed

lemma tscc_loop_returns: "returns (tscc_loop b i st)"
proof (induction "length b - i" arbitrary: i st rule: less_induct)
  case less
  show ?case
  proof (cases "i + 188 \<le> length b")
    case True
    have "returns (tscc_loop b j st)" if "i < j" for j st using True that by (intro less) simp
    then show ?thesis
      using True tscc_packet_eq [OF True] resync_ge [of b "Suc i"]
      by (subst tscc_loop.simps)
        (auto simp: Suc_le_eq split_beta intro!: returns_bind returns_if resync_returns returns_test)
  qed (simp add: tscc_loop.simps returns_Some)
qed

lemma AnalyzeTSContinuity_returns: "returns (AnalyzeTSContinuity b)"
  unfolding AnalyzeTSContinuity_def by (intro returns_intros tscc_loop_returns)

lemma tscc_fold_counts:
  "tr_Packets (snd (foldl (\<lambda>st p. tscc_step p st) st ps)) = tr_Packets (snd st) + int (length ps)"
  "tr_SyncLosses (snd (foldl (\<lambda>st p. tscc_step p st) st ps)) = tr_SyncLosses (snd st)"
  by (induction ps arbitrary: st) (simp_all add: tscc_packet_step)

section \<open>Correctness\<close>

text \<open>
  C20. A fresh analyser fed any buffer does not panic, and its counters are what the buffer holds:
  the bytes, the aligned packets that start with the sync byte and those that do not, and as
  continuity errors the sum over all PIDs of the breaks in that PID's own payload packets (a counter
  that is neither the successor nor the repetition of the previous one, with no discontinuity
  indicator); packets of the null PID and packets without payload never count.
\<close>

theorem Feed_counts_per_pid:
  "\<exists>a. Feed now b NewAnalyzer = Some a \<and> an_bytes a = int (length b) \<and>
    an_packets a = int (length (filter synced (ts_chunks b))) \<and>
    an_syncErrors a = int (length (filter (\<lambda>p. \<not> synced p) (ts_chunks b))) \<and>
    an_ccErrors a = (\<Sum>q\<in>UNIV. breaks None (of_pid q (filter synced (ts_chunks b))))"
  using Feed_fresh by blast


definition gapPackets :: bytes where
  "gapPackets = [0x47, 0x01, 0x00, 0x10] @ replicate 184 0xFF @ [0x47, 0x01, 0x00, 0x12] @ replicate 184 0xFF"


text \<open>
  Feeding keeps the measured durations meaningful: the current PTS segment never ends before it
  starts, the closed segments, the PCR span and every counter are never negative, and at most six
  rate samples are kept.
\<close>

theorem Feed_keeps_invariant:
  assumes "an_ok a"
  shows "\<exists>a'. Feed now b a = Some a' \<and> an_ok a'"
  using assms Feed_counts [of now b a] by blast

theorem Feed_keeps_invariant_witness:
  "\<exists>a'. Feed 5 [0x47] NewAnalyzer = Some a' \<and> an_ok a'"
  by (rule Feed_keeps_invariant) (simp add: NewAnalyzer_def an_ok_def)

end
