(* ===== verification/Ts_Bus.thy ===== *)
theory Ts_Bus
  imports Scte35_Injector Ts_Analyzer
begin


text \<open>
  \<^verbatim>\<open>streamhub-encoder/internal/tsbus/bus.go\<close>: the fan-out of every datagram to the sinks, with
  the optional injector before it and the analyser behind it, and the composition of the injector
  with the analyser.

  Whether the write of a datagram to a sink succeeds is up to the network: it is the parameter
  \<open>wr\<close> of the sink and the number of the datagram. The analyser reads the clock at each
  datagram: parameter \<open>clk\<close>.
\<close>

section \<open>The bus\<close>

record sink =
  sk_port :: int
  sk_sent :: int
  sk_dropped :: int

record bus =
  bs_sinks :: "string \<Rightarrow> sink option"
  bs_an :: analyzer
  bs_inj :: "injector option"

definition NewBus :: bus where
  "NewBus = \<lparr>bs_sinks = (\<lambda>_. None), bs_an = NewAnalyzer, bs_inj = None\<rparr>"

definition AddSink :: "string \<Rightarrow> int \<Rightarrow> bus \<Rightarrow> bus" where
  "AddSink sid port b = b\<lparr>bs_sinks := (bs_sinks b)(sid \<mapsto> \<lparr>sk_port = port, sk_sent = 0, sk_dropped = 0\<rparr>)\<rparr>"

definition RemoveSink :: "string \<Rightarrow> bus \<Rightarrow> bus" where
  "RemoveSink sid b = b\<lparr>bs_sinks := (bs_sinks b)(sid := None)\<rparr>"

definition SetInjector :: "injector option \<Rightarrow> bus \<Rightarrow> bus" where
  "SetInjector i b = b\<lparr>bs_inj := i\<rparr>"

definition ResetStats :: "bus \<Rightarrow> bus" where
  "ResetStats b = b\<lparr>bs_an := NewAnalyzer\<rparr>"

definition write_sink :: "bool \<Rightarrow> sink \<Rightarrow> sink" where
  "write_sink ok s = (if ok then s\<lparr>sk_sent := sk_sent s + 1\<rparr> else s\<lparr>sk_dropped := sk_dropped s + 1\<rparr>)"

text \<open>One datagram to every sink, then to the analyser.\<close>

definition bus_send :: "(string \<Rightarrow> nat \<Rightarrow> bool) \<Rightarrow> (nat \<Rightarrow> int) \<Rightarrow> nat \<Rightarrow> bytes \<Rightarrow> bus \<Rightarrow> bus option" where
  "bus_send wr clk n pkt b =
     do { let b = b\<lparr>bs_sinks := (\<lambda>sid. map_option (write_sink (wr sid n)) (bs_sinks b sid))\<rparr>;
          an \<leftarrow> Feed (clk n) pkt (bs_an b);
          Some (b\<lparr>bs_an := an\<rparr>) }"

fun bus_send_all :: "(string \<Rightarrow> nat \<Rightarrow> bool) \<Rightarrow> (nat \<Rightarrow> int) \<Rightarrow> nat \<Rightarrow> bytes list \<Rightarrow> bus \<Rightarrow> (nat \<times> bus) option" where
  "bus_send_all wr clk n [] b = Some (n, b)"
| "bus_send_all wr clk n (pkt # pkts) b =
     do { b \<leftarrow> bus_send wr clk n pkt b; bus_send_all wr clk (n + 1) pkts b }"

text \<open>The body of the receive loop for one datagram.\<close>

definition bus_receive :: "(string \<Rightarrow> nat \<Rightarrow> bool) \<Rightarrow> (nat \<Rightarrow> int) \<Rightarrow> nat \<Rightarrow> bytes \<Rightarrow> bus \<Rightarrow> (nat \<times> bus) option" where
  "bus_receive wr clk n buf b =
     do { (dgrams, b) \<leftarrow>
            (case bs_inj b of
               None \<Rightarrow> Some ([buf], b)
             | Some i \<Rightarrow> do { (ds, i) \<leftarrow> Process buf i; Some (ds, b\<lparr>bs_inj := Some i\<rparr>) });
          bus_send_all wr clk n dgrams b }"

section \<open>Packets of a buffer\<close>

lemma ts_chunks_slots: "ts_chunks b = map (\<lambda>k. slot b (k * PacketSize)) [0..<length b div PacketSize]"
proof (induction "length b" arbitrary: b rule: less_induct)
  case less
  show ?case
  proof (cases "length b \<ge> 188")
    case True
    let ?b = "drop 188 b"
    have d: "length b div 188 = Suc (length ?b div 188)" using True by (simp add: le_div_geq)
    have "ts_chunks b = take 188 b # ts_chunks ?b" using True by (subst ts_chunks.simps) simp
    also have "ts_chunks ?b = map (\<lambda>k. slot ?b (k * PacketSize)) [0..<length ?b div PacketSize]"
      using True by (intro less) simp
    also have "\<dots> = map (\<lambda>k. slot b (k * PacketSize)) (map Suc [0..<length ?b div PacketSize])"
      by (simp add: slot_def PacketSize_def add.commute)
    finally show ?thesis
      unfolding PacketSize_def d upt_conv_Cons [OF zero_less_Suc] map_Suc_upt
      by (simp add: slot_def PacketSize_def)
  next
    case False
    then show ?thesis by (subst ts_chunks.simps) (simp add: PacketSize_def)
  qed
qed

lemma ts_chunks_concat:
  assumes "\<And>p. p \<in> set ps \<Longrightarrow> length p = PacketSize"
  shows "ts_chunks (concat ps) = ps"
  using assms
proof (induction ps)
  case (Cons p ps)
  then have p: "length p = 188" by (simp add: PacketSize_def)
  have "ts_chunks (p @ concat ps) = p # ts_chunks (concat ps)"
    using p by (subst ts_chunks.simps) simp
  with Cons show ?case by simp
qed (simp add: ts_chunks.simps)

section \<open>The rewritten PMT looks the same to the analyser\<close>

text \<open>The features of a packet the continuity analysis reads.\<close>

definition cc_view :: "bytes \<Rightarrow> bool \<times> u16 \<times> bool \<times> byte \<times> bool" where
  "cc_view p = (synced p, an_pid p, carries p, cc_of p, discontinuity p)"

lemma cc_breaks_view: "cc_breaks c p \<longleftrightarrow> \<not> discontinuity p \<and> cc_of p \<noteq> (c + 1) AND 0x0f \<and> cc_of p \<noteq> c"
  by (simp add: cc_breaks_def discontinuity_def afc_adaptation)

lemma payload_bit: "payloadOffset p \<noteq> None \<Longrightarrow> (drop_bit 4 (p ! 3) AND 0x3) AND 1 = 1"
proof -
  assume "payloadOffset p \<noteq> None"
  then have "(drop_bit 4 (p ! 3) AND 0x3) AND 1 \<noteq> 0"
    by (auto simp: payloadOffset_def Let_def split: if_splits)
  moreover have "(x AND 1 = 0) \<or> (x AND 1 = 1)" for x :: byte
    by (simp add: and_one_eq mod_2_eq_odd)
  ultimately show ?thesis by blast
qed

lemma rewritten_cc_view:
  assumes "rewritten_as pid p q" "pid < 0x2000"
  shows "cc_view q = cc_view p"
proof -
  have e: "same_envelope p q"
    using rewritePMT_correct [of p pid q] assms by (auto simp: rewritten_as_def in_sync_def)
  then have n: "q ! 0 = p ! 0" "q ! 1 = p ! 1" "q ! 2 = p ! 2"
    using nth_take [of 0 3 p] nth_take [of 0 3 q] nth_take [of 1 3 p] nth_take [of 1 3 q]
      nth_take [of 2 3 p] nth_take [of 2 3 q] by (simp_all add: same_envelope_def)
  have "carries p \<longleftrightarrow> an_pid p \<noteq> 0x1fff" "carries q \<longleftrightarrow> an_pid q \<noteq> 0x1fff"
    using payload_bit e by (simp_all add: carries_def same_envelope_def)
  then show ?thesis
    using e n by (simp add: cc_view_def synced_def an_pid_def cc_of_def same_envelope_def)
qed

lemma passes_cc_view:
  assumes "passes_to pid d out (length d div PacketSize)" "pid < 0x2000"
  shows "map cc_view (ts_chunks out) = map cc_view (ts_chunks d)"
proof -
  have "length out = length d" using assms(1) by (simp add: passes_to_def)
  moreover have "cc_view (slot out (k * PacketSize)) = cc_view (slot d (k * PacketSize))"
    if "k < length d div PacketSize" for k
    using assms that rewritten_cc_view by (auto simp: passes_to_def packet_ok_def)
  ultimately show ?thesis by (simp add: ts_chunks_slots)
qed


section \<open>The injected packets are continuous\<close>

lemma cc_step_view: "cc_view p = cc_view q \<Longrightarrow> cc_step st p = cc_step st q"
  by (cases st) (auto simp: cc_view_def cc_step_def cc_breaks_view split: option.splits)

lemma cc_fold_view:
  "map cc_view ps = map cc_view qs \<Longrightarrow>
    foldl cc_step st (filter synced ps) = foldl cc_step st (filter synced qs)"
proof (induction ps arbitrary: qs st)
  case (Cons p ps)
  then obtain q qs' where q: "qs = q # qs'" "cc_view p = cc_view q" "map cc_view ps = map cc_view qs'"
    by (cases qs) auto
  then have "synced p = synced q" by (simp add: cc_view_def)
  then show ?case using Cons.IH [OF q(3)] q cc_step_view [OF q(2)] by simp
qed simp

text \<open>The counter value last seen on a PID is the one before \<open>cc\<close>.\<close>

definition cc_sync :: "u16 \<Rightarrow> byte \<Rightarrow> cc_state \<Rightarrow> bool" where
  "cc_sync pid cc st \<longleftrightarrow> (case fst st pid of None \<Rightarrow> True | Some c \<Rightarrow> (c + 1) AND 0x0f = cc)"

text \<open>Two analyses that agree on everything but one PID.\<close>

definition agree_but :: "u16 \<Rightarrow> cc_state \<Rightarrow> cc_state \<Rightarrow> bool" where
  "agree_but pid st st' \<longleftrightarrow> snd st = snd st' \<and> (\<forall>q. q \<noteq> pid \<longrightarrow> fst st q = fst st' q)"

lemma agree_but_refl [simp]: "agree_but pid st st"
  by (simp add: agree_but_def)

lemma agree_but_trans: "agree_but pid a b \<Longrightarrow> agree_but pid b c \<Longrightarrow> agree_but pid a c"
  by (simp add: agree_but_def)

lemma cc_step_other:
  assumes "an_pid p \<noteq> pid"
  shows "agree_but pid st st' \<Longrightarrow> agree_but pid (cc_step st p) (cc_step st' p)"
    "cc_sync pid cc (cc_step st p) = cc_sync pid cc st"
  using assms by (auto simp: agree_but_def cc_step_def cc_sync_def split: prod.splits option.splits)

lemma cc_fold_other:
  assumes "\<And>p. p \<in> set ps \<Longrightarrow> an_pid p \<noteq> pid"
  shows "agree_but pid st st' \<Longrightarrow> agree_but pid (foldl cc_step st ps) (foldl cc_step st' ps)"
    "cc_sync pid cc (foldl cc_step st ps) = cc_sync pid cc st"
  using assms by (induction ps arbitrary: st st') (simp_all add: cc_step_other)

lemma ts_header_view:
  assumes "pid < 0x2000" "cc < 16"
  shows "synced (ts_header pid cc f @ t)" "an_pid (ts_header pid cc f @ t) = pid"
    "cc_of (ts_header pid cc f @ t) = cc" "\<not> discontinuity (ts_header pid cc f @ t)"
proof -
  have "unat (cc AND 0x0F) = unat cc" using assms(2) by (simp add: nibble_unat word_less_nat_alt)
  then have n: "cc AND 0x0F = cc" by (simp only: word_unat_eq_iff)
  show "synced (ts_header pid cc f @ t)" by (simp add: synced_def ts_header_def syncByte_def)
  show "an_pid (ts_header pid cc f @ t) = pid"
    using ts_header_fields(1) [OF assms(1)] by (simp add: an_pid_def pktPID_def)
  show "cc_of (ts_header pid cc f @ t) = cc"
    using ts_header_fields(4) [OF assms(1), of cc f t] n by (simp add: cc_of_def)
  have "(0x10 OR (cc AND 0x0F)) AND 0x20 = 0" by (simp add: bit.conj_disj_distrib2 and.assoc)
  then show "\<not> discontinuity (ts_header pid cc f @ t)" by (simp add: discontinuity_def ts_header_def)
qed

lemma ts_header_carries:
  assumes "pid < 0x1fff"
  shows "carries (ts_header pid cc f @ t)"
proof -
  have pid: "pid < 0x2000" using assms by (simp add: word_less_nat_alt)
  have "an_pid (ts_header pid cc f @ t) = pid"
    using ts_header_fields(1) [OF pid] by (simp add: an_pid_def pktPID_def)
  then show ?thesis
    using payload_bit [of "ts_header pid cc f @ t"] ts_header_fields(3) [OF pid] assms by (simp add: carries_def)
qed

lemma cc_step_next:
  fixes t :: bytes
  assumes "pid < 0x1fff" "cc < 16" "cc_sync pid cc st"
  shows "agree_but pid (cc_step st (ts_header pid cc f @ t)) st"
    "cc_sync pid ((cc + 1) AND 0x0f) (cc_step st (ts_header pid cc f @ t))"
proof -
  have pid: "pid < 0x2000" using assms(1) by (simp add: word_less_nat_alt)
  note v = ts_header_view [OF pid assms(2), of f t] ts_header_carries [OF assms(1), of cc f t]
  show "agree_but pid (cc_step st (ts_header pid cc f @ t)) st"
    using assms(3) v by (auto simp: agree_but_def cc_step_def cc_sync_def cc_breaks_view split: prod.splits option.splits)
  show "cc_sync pid ((cc + 1) AND 0x0f) (cc_step st (ts_header pid cc f @ t))"
    using v by (simp add: cc_step_def cc_sync_def split: prod.splits)
qed

lemma cc_fold_ts_packets:
  assumes "pid < 0x1fff" "cc < 16" "cc_sync pid cc st"
  shows "agree_but pid (foldl cc_step st (ts_packets payload pid cc f)) st"
    "cc_sync pid (next_cc cc (length (ts_packets payload pid cc f))) (foldl cc_step st (ts_packets payload pid cc f))"
proof -
  have "agree_but pid (foldl cc_step st (ts_packets payload pid cc f)) st \<and>
    cc_sync pid (next_cc cc (length (ts_packets payload pid cc f))) (foldl cc_step st (ts_packets payload pid cc f))"
    using assms(2,3)
  proof (induction "length payload" arbitrary: payload cc f st rule: less_induct)
    case less
    show ?case
    proof (cases "payload = []")
      case False
      let ?t = "take 184 payload @ replicate (184 - length payload) 0xFF"
      let ?c = "(cc + 1) AND 0x0F"
      let ?st = "cc_step st (ts_header pid cc f @ ?t)"
      have ch: "ts_packets payload pid cc f = (ts_header pid cc f @ ?t) # ts_packets (drop 184 payload) pid ?c False"
        using False by (subst ts_packets.simps) simp
      note n = cc_step_next [OF assms(1) less.prems, of f ?t]
      have "length (drop 184 payload) < length payload" using False by simp
      from less.hyps [OF this nibble_lt n(2), of False] n(1) show ?thesis
        unfolding ch by (auto intro: agree_but_trans)
    qed (use less.prems in \<open>simp add: ts_packets.simps\<close>)
  qed
  then show "agree_but pid (foldl cc_step st (ts_packets payload pid cc f)) st"
    "cc_sync pid (next_cc cc (length (ts_packets payload pid cc f))) (foldl cc_step st (ts_packets payload pid cc f))"
    by auto
qed

lemma cc_fold_sections:
  assumes "pid < 0x1fff" "cc < 16" "cc_sync pid cc st"
  shows "agree_but pid (foldl cc_step st (section_packets pid cc pss)) st \<and>
    cc_sync pid (next_cc cc (length (section_packets pid cc pss))) (foldl cc_step st (section_packets pid cc pss))"
  using assms(2,3)
proof (induction pss arbitrary: cc st)
  case (Cons ps pss)
  let ?ts = "ts_packets (0 # ps_section ps) pid cc True"
  note n = cc_fold_ts_packets [OF assms(1) Cons.prems, of "0 # ps_section ps" True]
  have "next_cc cc (length ?ts) < 16" using Cons.prems(1) by (rule next_cc_lt)
  from Cons.IH [OF this n(2)] n(1) show ?case
    by (auto simp: Let_def next_cc_add intro: agree_but_trans)
qed simp

section \<open>Runs of the bus\<close>

lemma bus_send_all_total:
  "\<exists>b'. bus_send_all wr clk n ds b = Some (n + length ds, b') \<and> bs_inj b' = bs_inj b \<and>
    cc_state_of (bs_an b') = foldl cc_step (cc_state_of (bs_an b)) (filter synced (concat (map ts_chunks ds))) \<and>
    (an_ok (bs_an b) \<longrightarrow> an_ok (bs_an b')) \<and>
    an_bytes (bs_an b') = an_bytes (bs_an b) + int (length (concat ds)) \<and>
    (\<forall>sid. bs_sinks b' sid = map_option (\<lambda>s. foldl (\<lambda>s k. write_sink (wr sid k) s) s [n..<n + length ds]) (bs_sinks b sid))"
proof (induction ds arbitrary: n b)
  case (Cons d ds)
  obtain a where a: "Feed (clk n) d (bs_an b) = Some a"
    "cc_state_of a = foldl cc_step (cc_state_of (bs_an b)) (filter synced (ts_chunks d))"
    "an_ok (bs_an b) \<longrightarrow> an_ok a" "an_bytes a = an_bytes (bs_an b) + int (length d)"
    using Feed_counts [of "clk n" d "bs_an b"] by blast
  let ?b = "b\<lparr>bs_sinks := (\<lambda>sid. map_option (write_sink (wr sid n)) (bs_sinks b sid)), bs_an := a\<rparr>"
  have s: "bus_send wr clk n d b = Some ?b" by (simp add: bus_send_def a(1))
  have u: "[n..<n + length (d # ds)] = n # [n + 1..<(n + 1) + length ds]" by (subst upt_rec) simp
  show ?case
    using Cons.IH [of "n + 1" ?b] a unfolding u
    by (auto simp: s option.map_comp comp_def)
qed (simp add: option.map_ident)

datatype bus_op = BusDatagram bytes | BusInsert cue | BusHeartbeat int

definition with_injector :: "(injector \<Rightarrow> injector) \<Rightarrow> bus \<Rightarrow> bus" where
  "with_injector f b = b\<lparr>bs_inj := map_option f (bs_inj b)\<rparr>"

fun bus_run :: "(string \<Rightarrow> nat \<Rightarrow> bool) \<Rightarrow> (nat \<Rightarrow> int) \<Rightarrow> nat \<Rightarrow> bus_op list \<Rightarrow> bus \<Rightarrow> (nat \<times> bus) option" where
  "bus_run wr clk n [] b = Some (n, b)"
| "bus_run wr clk n (BusDatagram d # ops) b =
     do { (n, b) \<leftarrow> bus_receive wr clk n d b; bus_run wr clk n ops b }"
| "bus_run wr clk n (BusInsert c # ops) b = bus_run wr clk n ops (with_injector (\<lambda>i. snd (Insert c i)) b)"
| "bus_run wr clk n (BusHeartbeat t # ops) b = bus_run wr clk n ops (with_injector (SetHeartbeat t) b)"

fun bus_input :: "bus_op list \<Rightarrow> bytes list" where
  "bus_input [] = []"
| "bus_input (BusDatagram d # ops) = ts_chunks d @ bus_input ops"
| "bus_input (opn # ops) = bus_input ops"

lemma Insert_keeps: "ij_pid (snd (Insert c i)) = ij_pid i" "ij_cc (snd (Insert c i)) = ij_cc i"
  by (rule Insert_cases [of c i]; simp)+

lemma SetHeartbeat_keeps: "ij_pid (SetHeartbeat t i) = ij_pid i" "ij_cc (SetHeartbeat t i) = ij_cc i"
  by (simp_all add: SetHeartbeat_def Let_def)

lemma bus_receive_continuous:
  assumes "bs_inj b = Some i" "injector_ok i" "ij_pid i < 0x1fff"
    "\<forall>p \<in> set (ts_chunks d). synced p \<longrightarrow> an_pid p \<noteq> ij_pid i"
    "cc_sync (ij_pid i) (ij_cc i) (cc_state_of (bs_an b))" "agree_but (ij_pid i) (cc_state_of (bs_an b)) st"
  shows "\<exists>n' b' i'. bus_receive wr clk n d b = Some (n', b') \<and> bs_inj b' = Some i' \<and> injector_ok i' \<and>
    ij_pid i' = ij_pid i \<and> cc_sync (ij_pid i) (ij_cc i') (cc_state_of (bs_an b')) \<and>
    agree_but (ij_pid i) (cc_state_of (bs_an b')) (foldl cc_step st (filter synced (ts_chunks d)))"
proof -
  have pid: "ij_pid i < 0x2000" and cc: "ij_cc i < 16" using assms(2) unfolding injector_ok_def by blast+
  obtain out ds i' and j :: injector where P: "Process d i = Some (out # ds, i')" "passes_to (ij_pid i) d out (length d div PacketSize)"
    "\<exists>pss. ds = map concat pss \<and> concat pss = section_packets (ij_pid i) (ij_cc i) (ij_pending j)"
    "ij_pid i' = ij_pid i" "injector_ok i'"
    "ij_cc i' = next_cc (ij_cc i) (length (section_packets (ij_pid i) (ij_cc i) (ij_pending j)))"
  proof (rule Process_total [OF pid, of d])
    fix out ds i' and j :: injector
    assume a: "Process d i = Some (out # ds, i')" "passes_to (ij_pid i) d out (length d div PacketSize)"
      "\<exists>pss. ds = map concat pss \<and> concat pss = section_packets (ij_pid i) (ij_cc i) (ij_pending j)"
      "ij_pid i' = ij_pid i" "injector_ok i \<Longrightarrow> injector_ok i'"
      "ij_cc i' = next_cc (ij_cc i) (length (section_packets (ij_pid i) (ij_cc i) (ij_pending j)))"
    show thesis by (rule that [OF a(1-4) a(5) [OF assms(2)] a(6)])
  qed
  let ?ps = "section_packets (ij_pid i) (ij_cc i) (ij_pending j)"
  let ?b = "b\<lparr>bs_inj := Some i'\<rparr>"
  obtain b' where b': "bus_send_all wr clk n (out # ds) ?b = Some (n + length (out # ds), b')" "bs_inj b' = Some i'"
    "cc_state_of (bs_an b') = foldl cc_step (cc_state_of (bs_an b)) (filter synced (concat (map ts_chunks (out # ds))))"
    using bus_send_all_total [of wr clk n "out # ds" ?b] by auto
  have sec: "concat (map ts_chunks ds) = ?ps" "filter synced ?ps = ?ps"
  proof -
    obtain pss where pss: "ds = map concat pss" "concat pss = ?ps" using P(3) by blast
    have ok: "in_sync p" if "p \<in> set (concat pss)" for p
      using that section_packets_in_sync [OF pid] pss(2) by auto
    have "ts_chunks (concat qs) = qs" if "qs \<in> set pss" for qs
      using that ok by (intro ts_chunks_concat) (auto simp: in_sync_def)
    then have "map ts_chunks ds = pss" unfolding pss(1) by (induction pss) simp_all
    then show "concat (map ts_chunks ds) = ?ps" using pss by simp
    show "filter synced ?ps = ?ps"
      using ok pss(2) by (auto simp: filter_id_conv in_sync_def synced_def syncByte_def)
  qed
  define st1 where "st1 = foldl cc_step (cc_state_of (bs_an b)) (filter synced (ts_chunks d))"
  have "cc_state_of (bs_an b') = foldl cc_step st1 ?ps"
    unfolding b'(3) st1_def using cc_fold_view [OF passes_cc_view [OF P(2) pid]] sec by simp
  moreover have "cc_sync (ij_pid i) (ij_cc i) st1"
    "agree_but (ij_pid i) st1 (foldl cc_step st (filter synced (ts_chunks d)))"
    unfolding st1_def using cc_fold_other [of "filter synced (ts_chunks d)" "ij_pid i"] assms(4-6) by auto
  moreover note cc_fold_sections [OF assms(3) cc this(1), of "ij_pending j"]
  ultimately have "cc_sync (ij_pid i) (ij_cc i') (cc_state_of (bs_an b'))"
    "agree_but (ij_pid i) (cc_state_of (bs_an b')) (foldl cc_step st (filter synced (ts_chunks d)))"
    unfolding P(6) by (auto intro: agree_but_trans)
  moreover have "bus_receive wr clk n d b = Some (n + length (out # ds), b')"
    using b'(1) by (simp add: bus_receive_def assms(1) P(1))
  ultimately show ?thesis using P b'(2) by blast
qed

lemma bus_run_continuous:
  assumes "bs_inj b = Some i" "injector_ok i" "ij_pid i < 0x1fff"
    "\<forall>p \<in> set (bus_input ops). synced p \<longrightarrow> an_pid p \<noteq> ij_pid i"
    "cc_sync (ij_pid i) (ij_cc i) (cc_state_of (bs_an b))" "agree_but (ij_pid i) (cc_state_of (bs_an b)) st"
  shows "\<exists>n' b'. bus_run wr clk n ops b = Some (n', b') \<and>
    agree_but (ij_pid i) (cc_state_of (bs_an b')) (foldl cc_step st (filter synced (bus_input ops)))"
  using assms
proof (induction ops arbitrary: n b i st)
  case (Cons opn ops)
  show ?case
  proof (cases opn)
    case (BusDatagram d)
    obtain n' b' i' where s: "bus_receive wr clk n d b = Some (n', b')" "bs_inj b' = Some i'" "injector_ok i'"
      "ij_pid i' = ij_pid i" "cc_sync (ij_pid i) (ij_cc i') (cc_state_of (bs_an b'))"
      "agree_but (ij_pid i) (cc_state_of (bs_an b')) (foldl cc_step st (filter synced (ts_chunks d)))"
      using bus_receive_continuous [of b i d st wr clk n] Cons.prems BusDatagram by auto
    show ?thesis
      using Cons.IH [of b' i' "foldl cc_step st (filter synced (ts_chunks d))" n'] s Cons.prems BusDatagram by auto
  next
    case (BusInsert c)
    then show ?thesis
      using Cons.IH [of "with_injector (\<lambda>i. snd (Insert c i)) b" "snd (Insert c i)" st n] Cons.prems
      by (simp add: with_injector_def Insert_ok Insert_keeps)
  next
    case (BusHeartbeat t)
    then show ?thesis
      using Cons.IH [of "with_injector (SetHeartbeat t) b" "SetHeartbeat t i" st n] Cons.prems
      by (simp add: with_injector_def SetHeartbeat_ok SetHeartbeat_keeps)
  qed
qed simp

section \<open>Correctness of the composition\<close>

text \<open>
  C6. Splicing cues into a stream adds no continuity error: for a fresh bus with an injector on a PID
  that the input does not use (and that is not the null PID), any sequence of datagrams, inserts and
  heartbeat settings runs without a panic, and the analyser behind the injector counts exactly the
  continuity errors of the input, PID by PID.
\<close>

theorem injection_adds_no_cc_errors:
  assumes "pid AND 0x1FFF < 0x1FFF"
    "\<forall>p \<in> set (bus_input ops). synced p \<longrightarrow> an_pid p \<noteq> pid AND 0x1FFF"
  shows "\<exists>n b. bus_run wr clk 0 ops (SetInjector (Some (NewInjector pid)) NewBus) = Some (n, b) \<and>
    an_ccErrors (bs_an b) = (\<Sum>q\<in>UNIV. breaks None (of_pid q (filter synced (bus_input ops))))"
proof -
  let ?b = "SetInjector (Some (NewInjector pid)) NewBus"
  have i: "bs_inj ?b = Some (NewInjector pid)" "ij_pid (NewInjector pid) = pid AND 0x1FFF"
    "cc_state_of (bs_an ?b) = ((\<lambda>_. None), 0)"
    by (simp_all add: SetInjector_def NewBus_def NewInjector_def NewAnalyzer_def cc_state_of_def)
  have "cc_sync (ij_pid (NewInjector pid)) (ij_cc (NewInjector pid)) (cc_state_of (bs_an ?b))"
    unfolding i(3) by (simp add: cc_sync_def)
  then obtain n b where b: "bus_run wr clk 0 ops ?b = Some (n, b)"
    "agree_but (pid AND 0x1FFF) (cc_state_of (bs_an b)) (foldl cc_step ((\<lambda>_. None), 0) (filter synced (bus_input ops)))"
    using bus_run_continuous [OF i(1) NewInjector_ok, of ops "((\<lambda>_. None), 0)" wr clk 0] assms
    unfolding i(2,3) by auto
  then have "an_ccErrors (bs_an b) = snd (foldl cc_step ((\<lambda>_. None), 0) (filter synced (bus_input ops)))"
    by (simp add: agree_but_def cc_state_of_def)
  with b(1) show ?thesis by (simp add: cc_fold_breaks)
qed

theorem injection_adds_no_cc_errors_witness:
  "\<exists>n b. bus_run (\<lambda>_ _. True) (\<lambda>_. 0) 0 [BusInsert breakCue, BusDatagram gapPackets]
      (SetInjector (Some (NewInjector 500)) NewBus) = Some (n, b) \<and>
    an_ccErrors (bs_an b) =
      (\<Sum>q\<in>UNIV. breaks None (of_pid q (filter synced (bus_input [BusInsert breakCue, BusDatagram gapPackets]))))"
proof (rule injection_adds_no_cc_errors)
  show "(500 :: u16) AND 0x1FFF < 0x1FFF" by simp
  show "\<forall>p \<in> set (bus_input [BusInsert breakCue, BusDatagram gapPackets]). synced p \<longrightarrow> an_pid p \<noteq> 500 AND 0x1FFF"
    by (simp add: gapPackets_def ts_chunks.simps an_pid_def pid13_def)
qed

text \<open>
  The fan-out is fair and isolated: handling a datagram never panics, and each sink's counters
  change only by its own write results, one per output datagram, so what it received plus what it
  lost grows by the number of datagrams sent, whatever happens to the other sinks.
\<close>

theorem sinks_are_isolated:
  "\<exists>b'. bus_send_all wr clk n ds b = Some (n + length ds, b') \<and>
    (\<forall>sid. map_option (\<lambda>s. (sk_sent s, sk_dropped s)) (bs_sinks b' sid) =
       map_option (\<lambda>s. (sk_sent s + int (length (filter (wr sid) [n..<n + length ds])),
         sk_dropped s + int (length (filter (\<lambda>k. \<not> wr sid k) [n..<n + length ds])))) (bs_sinks b sid))"
proof -
  have count: "sk_sent (foldl (\<lambda>s k. write_sink (w k) s) s ks) = sk_sent s + int (length (filter w ks)) \<and>
      sk_dropped (foldl (\<lambda>s k. write_sink (w k) s) s ks) = sk_dropped s + int (length (filter (\<lambda>k. \<not> w k) ks))"
    for w ks and s :: sink
    by (induction ks arbitrary: s) (simp_all add: write_sink_def)
  obtain b' where "bus_send_all wr clk n ds b = Some (n + length ds, b')"
    "\<forall>sid. bs_sinks b' sid = map_option (\<lambda>s. foldl (\<lambda>s k. write_sink (wr sid k) s) s [n..<n + length ds]) (bs_sinks b sid)"
    using bus_send_all_total [of wr clk n ds b] by blast
  then show ?thesis by (simp add: option.map_comp comp_def count)
qed

end
