(* ===== verification/Go_Strings.thy ===== *)
theory Go_Strings
  imports Prelude
begin

text \<open>
  The functions of Go's \<^verbatim>\<open>strings\<close> and \<^verbatim>\<open>strconv\<close> packages that the string-handling components
  use. A Go string is its sequence of bytes: a \<open>string\<close>, one \<open>char\<close> for each byte. Decimal
  conversion (\<^verbatim>\<open>strconv.Itoa\<close>, \<^verbatim>\<open>strconv.ParseUint\<close>), prefixes, joins and splits are total
  functions here; an error result is \<open>None\<close>.
\<close>

section \<open>Decimal numbers\<close>

definition digit_char :: "nat \<Rightarrow> char" where
  "digit_char d = char_of (48 + d)"

definition is_digit :: "char \<Rightarrow> bool" where
  "is_digit c \<longleftrightarrow> 48 \<le> (of_char c :: nat) \<and> (of_char c :: nat) \<le> 57"

text \<open>\<^verbatim>\<open>strconv.Itoa\<close> of a non-negative number.\<close>

fun itoa :: "nat \<Rightarrow> string" where
  "itoa n = (if n < 10 then [digit_char n] else itoa (n div 10) @ [digit_char (n mod 10)])"

declare itoa.simps [simp del]

text \<open>\<^verbatim>\<open>strconv.Itoa\<close> of any integer.\<close>

definition itoa_int :: "int \<Rightarrow> string" where
  "itoa_int i = (if i < 0 then CHR ''-'' # itoa (nat (- i)) else itoa (nat i))"

definition dec_val :: "string \<Rightarrow> nat" where
  "dec_val s = foldl (\<lambda>a c. 10 * a + (of_char c - 48)) 0 s"

text \<open>\<^verbatim>\<open>strconv.ParseUint(s, 10, bits)\<close>: one or more digits, no sign, no separator.\<close>

definition ParseUint :: "string \<Rightarrow> nat \<Rightarrow> nat option" where
  "ParseUint s bits =
     (if s = [] \<or> \<not> list_all is_digit s then None
      else if dec_val s < 2 ^ bits then Some (dec_val s) else None)"

text \<open>\<^verbatim>\<open>strconv.Atoi\<close>: an optional sign and digits, within 64 bits.\<close>

definition Atoi :: "string \<Rightarrow> int option" where
  "Atoi s =
     (let neg = (s \<noteq> [] \<and> hd s = CHR ''-'');
          t = (if s \<noteq> [] \<and> (hd s = CHR ''-'' \<or> hd s = CHR ''+'') then tl s else s)
      in case ParseUint t 64 of
           None \<Rightarrow> None
         | Some n \<Rightarrow>
             if neg then (if int n \<le> 2 ^ 63 then Some (- int n) else None)
             else if int n < 2 ^ 63 then Some (int n) else None)"

lemma of_digit_char: "d < 10 \<Longrightarrow> of_char (digit_char d) = 48 + d"
  by (simp add: digit_char_def)

lemma is_digit_digit_char [simp]: "d < 10 \<Longrightarrow> is_digit (digit_char d)"
  by (simp add: is_digit_def of_digit_char)

lemma digit_char_of_digit: "is_digit c \<Longrightarrow> digit_char (of_char c - 48) = c"
  by (simp add: is_digit_def digit_char_def)

lemma is_digit_less: "is_digit c \<Longrightarrow> of_char c - 48 < (10 :: nat)"
  unfolding is_digit_def by linarith

lemma digit_char_0 [simp]: "digit_char 0 = CHR ''0''"
  by code_simp

lemma dec_val_Nil [simp]: "dec_val [] = 0"
  by (simp add: dec_val_def)

lemma dec_val_snoc: "dec_val (s @ [c]) = 10 * dec_val s + (of_char c - 48)"
  by (simp add: dec_val_def)

lemma itoa_not_Nil [simp]: "itoa n \<noteq> []"
  by (subst itoa.simps) simp

lemma itoa_digits [simp]: "list_all is_digit (itoa n)"
proof (induction n rule: less_induct)
  case (less n)
  then show ?case by (subst itoa.simps) simp
qed

lemma dec_val_itoa [simp]: "dec_val (itoa n) = n"
proof (induction n rule: less_induct)
  case (less n)
  show ?case
  proof (cases "n < 10")
    case True
    then show ?thesis
      by (subst itoa.simps) (simp add: dec_val_def of_digit_char)
  next
    case False
    then have "dec_val (itoa (n div 10)) = n div 10" by (intro less) simp
    with False show ?thesis
      by (subst itoa.simps) (simp add: dec_val_snoc of_digit_char)
  qed
qed

lemma itoa_inject [simp]: "itoa m = itoa n \<longleftrightarrow> m = n"
  by (metis dec_val_itoa)

lemma ParseUint_itoa: "n < 2 ^ bits \<Longrightarrow> ParseUint (itoa n) bits = Some n"
  by (simp add: ParseUint_def)

lemma length_itoa_le: "n < 10 ^ k \<Longrightarrow> 0 < k \<Longrightarrow> length (itoa n) \<le> k"
proof (induction k arbitrary: n)
  case (Suc k)
  show ?case
  proof (cases "n < 10")
    case True
    then show ?thesis by (subst itoa.simps) simp
  next
    case False
    with Suc.prems have "0 < k" by (cases k) auto
    moreover have "n div 10 < 10 ^ k" using Suc.prems by (simp add: less_mult_imp_div_less mult.commute)
    ultimately have "length (itoa (n div 10)) \<le> k" using Suc.IH by blast
    with False show ?thesis by (subst itoa.simps) simp
  qed
qed simp

lemma dec_val_less: "list_all is_digit s \<Longrightarrow> dec_val s < 10 ^ length s"
proof (induction s rule: rev_induct)
  case (snoc c s)
  then have "dec_val s < 10 ^ length s" "of_char c - 48 < (10 :: nat)"
    using is_digit_less [of c] by simp_all
  then show ?case unfolding dec_val_snoc by simp
qed simp

text \<open>A digit string without a superfluous leading zero is the decimal form of its value.\<close>

lemma itoa_dec_val:
  "list_all is_digit s \<Longrightarrow> s \<noteq> [] \<Longrightarrow> length s = 1 \<or> hd s \<noteq> CHR ''0'' \<Longrightarrow> itoa (dec_val s) = s"
proof (induction s rule: rev_induct)
  case (snoc c s)
  have c: "is_digit c" using snoc.prems by simp
  show ?case
  proof (cases "s = []")
    case True
    with c show ?thesis
      by (subst itoa.simps) (simp add: dec_val_def is_digit_less digit_char_of_digit)
  next
    case False
    with snoc.prems have hd: "hd s \<noteq> CHR ''0''" and s: "list_all is_digit s" by simp_all
    with False snoc.IH have IH: "itoa (dec_val s) = s" by simp
    have "dec_val s \<noteq> 0"
    proof
      assume "dec_val s = 0"
      with IH have "s = itoa 0" by simp
      then have "s = [digit_char 0]" by (subst (asm) itoa.simps) simp
      with hd show False by simp
    qed
    then have "\<not> dec_val (s @ [c]) < 10" by (simp add: dec_val_snoc)
    moreover have "dec_val (s @ [c]) div 10 = dec_val s" "dec_val (s @ [c]) mod 10 = of_char c - 48"
      using is_digit_less [OF c] by (simp_all add: dec_val_snoc)
    ultimately show ?thesis
      using IH c by (subst itoa.simps) (simp add: digit_char_of_digit)
  qed
qed simp

lemma hd_itoa: "length (itoa n) = 1 \<or> hd (itoa n) \<noteq> CHR ''0''"
proof (induction n rule: less_induct)
  case (less n)
  show ?case
  proof (cases "n < 10")
    case True
    then show ?thesis by (subst itoa.simps) simp
  next
    case False
    then have "hd (itoa (n div 10)) \<noteq> CHR ''0''"
    proof -
      consider "length (itoa (n div 10)) = 1" | "hd (itoa (n div 10)) \<noteq> CHR ''0''"
        using less [of "n div 10"] False by auto
      then show ?thesis
      proof cases
        case 1
        then obtain c where c: "itoa (n div 10) = [c]" by (auto simp: length_Suc_conv)
        then have "n div 10 = of_char c - 48"
          using dec_val_itoa [of "n div 10"] by (simp add: dec_val_def)
        moreover have "n div 10 \<noteq> 0" using False by simp
        ultimately show ?thesis using c by auto
      qed
    qed
    moreover have "itoa n = itoa (n div 10) @ [digit_char (n mod 10)]"
      using False by (subst itoa.simps) simp
    ultimately show ?thesis by simp
  qed
qed

section \<open>Substrings\<close>

lemma find_SomeD: "find P xs = Some x \<Longrightarrow> x \<in> set xs \<and> P x"
  by (induction xs) (auto split: if_splits)

text \<open>\<^verbatim>\<open>strings.Index(s, c)\<close> for a single byte \<open>c\<close>.\<close>

fun index_char :: "char \<Rightarrow> string \<Rightarrow> nat option" where
  "index_char c [] = None"
| "index_char c (x # s) = (if x = c then Some 0 else map_option Suc (index_char c s))"

text \<open>\<^verbatim>\<open>strings.Join\<close>.\<close>

fun join :: "string \<Rightarrow> string list \<Rightarrow> string" where
  "join sep [] = []"
| "join sep [s] = s"
| "join sep (s # t # ss) = s @ sep @ join sep (t # ss)"

lemma index_char_SomeD:
  "index_char c s = Some i \<Longrightarrow> i < length s \<and> s ! i = c \<and> c \<notin> set (take i s)"
  by (induction s arbitrary: i) (auto split: if_splits)

lemma index_char_None: "index_char c s = None \<longleftrightarrow> c \<notin> set s"
  by (induction s) auto

lemma index_char_append: "c \<notin> set a \<Longrightarrow> index_char c (a @ c # b) = Some (length a)"
  by (induction a) auto

text \<open>\<^verbatim>\<open>strings.HasPrefix\<close>, \<^verbatim>\<open>HasSuffix\<close>, \<^verbatim>\<open>TrimPrefix\<close>, \<^verbatim>\<open>TrimSuffix\<close>.\<close>

definition HasPrefix :: "string \<Rightarrow> string \<Rightarrow> bool" where
  "HasPrefix s p = (take (length p) s = p)"

definition HasSuffix :: "string \<Rightarrow> string \<Rightarrow> bool" where
  "HasSuffix s p = HasPrefix (rev s) (rev p)"

definition TrimPrefix :: "string \<Rightarrow> string \<Rightarrow> string" where
  "TrimPrefix s p = (if HasPrefix s p then drop (length p) s else s)"

definition TrimSuffix :: "string \<Rightarrow> string \<Rightarrow> string" where
  "TrimSuffix s p = (if HasSuffix s p then take (length s - length p) s else s)"

text \<open>The value of a hexadecimal digit.\<close>

definition unhex :: "char \<Rightarrow> nat option" where
  "unhex c =
     (let n = (of_char c :: nat)
      in if 48 \<le> n \<and> n \<le> 57 then Some (n - 48)
         else if 97 \<le> n \<and> n \<le> 102 then Some (n - 87)
         else if 65 \<le> n \<and> n \<le> 70 then Some (n - 55)
         else None)"

text \<open>\<^verbatim>\<open>strings.Contains\<close>.\<close>

fun Contains :: "string \<Rightarrow> string \<Rightarrow> bool" where
  "Contains [] p = (p = [])"
| "Contains (c # s) p = (HasPrefix (c # s) p \<or> Contains s p)"

text \<open>\<^verbatim>\<open>strings.Cut(s, c)\<close>: the parts around the first \<open>c\<close>; the flag tells whether there is one.\<close>

definition Cut :: "string \<Rightarrow> char \<Rightarrow> string \<times> string \<times> bool" where
  "Cut s c = (case index_char c s of
                Some i \<Rightarrow> (take i s, drop (Suc i) s, True)
              | None \<Rightarrow> (s, [], False))"

text \<open>\<^verbatim>\<open>strings.Split(s, c)\<close>.\<close>

fun Split :: "string \<Rightarrow> char \<Rightarrow> string list" where
  "Split [] c = [[]]"
| "Split (x # s) c =
     (if x = c then [] # Split s c
      else case Split s c of p # ps \<Rightarrow> (x # p) # ps | [] \<Rightarrow> [[x]])"

text \<open>\<^verbatim>\<open>strings.Trim(s, c)\<close> for a cutset of one byte.\<close>

definition Trim :: "string \<Rightarrow> char \<Rightarrow> string" where
  "Trim s c = rev (dropWhile (\<lambda>x. x = c) (rev (dropWhile (\<lambda>x. x = c) s)))"

lemma HasPrefix_iff: "HasPrefix s p \<longleftrightarrow> (\<exists>t. s = p @ t)"
  unfolding HasPrefix_def by (metis append_eq_conv_conj append_take_drop_id)

lemma Split_not_Nil [simp]: "Split s c \<noteq> []"
  by (induction s) (auto split: list.splits)

lemma join_Split: "join [c] (Split s c) = s"
proof (induction s)
  case (Cons x s)
  obtain p ps where ps: "Split s c = p # ps" by (cases "Split s c") auto
  then have "s = join [c] (p # ps)" using Cons by simp
  with ps show ?case by (cases ps) auto
qed simp

lemma Split_parts: "p \<in> set (Split s c) \<Longrightarrow> c \<notin> set p"
proof (induction s arbitrary: p)
  case (Cons x s)
  obtain q qs where "Split s c = q # qs" by (cases "Split s c") auto
  with Cons show ?case by (auto split: if_splits)
qed simp

lemma Split_join:
  "ps \<noteq> [] \<Longrightarrow> (\<And>p. p \<in> set ps \<Longrightarrow> c \<notin> set p) \<Longrightarrow> Split (join [c] ps) c = ps"
proof (induction ps)
  case (Cons p ps)
  have one: "Split p' c = [p']" if "c \<notin> set p'" for p' using that by (induction p') auto
  have app: "Split (p' @ c # t) c = p' # Split t c" if "c \<notin> set p'" for p' t
    using that by (induction p') auto
  show ?case
  proof (cases ps)
    case Nil
    with Cons.prems one show ?thesis by simp
  next
    case (Cons q qs)
    then have "Split (join [c] (p # ps)) c = p # Split (join [c] ps) c"
      using Cons.prems app by simp
    with Cons.IH Cons.prems \<open>ps = q # qs\<close> show ?thesis by simp
  qed
qed simp

section \<open>White space and letter case\<close>

text \<open>
  The UTF-8 encodings of the white space of \<^verbatim>\<open>unicode.IsSpace\<close>. \<^verbatim>\<open>strings.TrimSpace\<close> removes them at
  both ends; a partial encoding is not white space.
\<close>

definition space_seqs :: "string list" where
  "space_seqs =
     map (\<lambda>n. [char_of n]) [9, 10, 11, 12, 13, 32 :: nat] @
     [[CHR 0xC2, CHR 0x85], [CHR 0xC2, CHR 0xA0], [CHR 0xE1, CHR 0x9A, CHR 0x80],
      [CHR 0xE2, CHR 0x80, CHR 0xA8], [CHR 0xE2, CHR 0x80, CHR 0xA9], [CHR 0xE2, CHR 0x80, CHR 0xAF],
      [CHR 0xE2, CHR 0x81, CHR 0x9F], [CHR 0xE3, CHR 0x80, CHR 0x80]] @
     map (\<lambda>n. [CHR 0xE2, CHR 0x80, char_of n]) [128 ..< 139 :: nat]"

function strip_seqs :: "string list \<Rightarrow> string \<Rightarrow> string" where
  "strip_seqs seqs s =
     (case find (\<lambda>p. p \<noteq> [] \<and> HasPrefix s p) seqs of
        Some p \<Rightarrow> strip_seqs seqs (drop (length p) s)
      | None \<Rightarrow> s)"
  by pat_completeness auto

lemma strip_decreases: "find (\<lambda>p. p \<noteq> [] \<and> HasPrefix s p) seqs = Some p \<Longrightarrow> length (drop (length p) s) < length s"
  by (drule find_SomeD) (auto simp: HasPrefix_iff)

termination strip_seqs
  by (relation "measure (\<lambda>(_, s). length s)") (simp_all add: strip_decreases del: length_drop)

declare strip_seqs.simps [simp del]

definition TrimSpace :: "string \<Rightarrow> string" where
  "TrimSpace s = rev (strip_seqs (map rev space_seqs) (rev (strip_seqs space_seqs s)))"

text \<open>Text that starts and ends with printable ASCII is left alone.\<close>

definition printable :: "char \<Rightarrow> bool" where
  "printable c \<longleftrightarrow> 32 < (of_char c :: nat) \<and> of_char c < (128 :: nat)"

lemma strip_seqs_id:
  assumes "list_all (\<lambda>p. p \<noteq> [] \<and> \<not> printable (hd p)) seqs" "s \<noteq> []" "printable (hd s)"
  shows "strip_seqs seqs s = s"
proof -
  have "\<not> HasPrefix s p" if "p \<in> set seqs" for p
    using assms that by (cases p; cases s) (auto simp: list_all_iff HasPrefix_def)
  then have "find (\<lambda>p. p \<noteq> [] \<and> HasPrefix s p) seqs = None" by (auto simp: find_None_iff)
  then show ?thesis by (subst strip_seqs.simps) simp
qed

lemma TrimSpace_id:
  assumes "s \<noteq> []" "printable (hd s)" "printable (last s)"
  shows "TrimSpace s = s"
proof -
  have "list_all (\<lambda>p. p \<noteq> [] \<and> \<not> printable (hd p)) space_seqs"
    "list_all (\<lambda>p. p \<noteq> [] \<and> \<not> printable (hd p)) (map rev space_seqs)" by code_simp+
  with assms show ?thesis by (simp add: TrimSpace_def strip_seqs_id hd_rev)
qed

text \<open>
  \<^verbatim>\<open>strings.ToLower\<close> and \<^verbatim>\<open>ToUpper\<close>: the fast path of the library for ASCII text; the Unicode tables
  used on any other text are the argument \<open>u\<close>.
\<close>

definition is_ascii :: "string \<Rightarrow> bool" where
  "is_ascii s = list_all (\<lambda>c. of_char c < (128 :: nat)) s"

definition lower_char :: "char \<Rightarrow> char" where
  "lower_char c = (if 65 \<le> (of_char c :: nat) \<and> of_char c \<le> (90 :: nat) then char_of (of_char c + (32 :: nat)) else c)"

definition upper_char :: "char \<Rightarrow> char" where
  "upper_char c = (if 97 \<le> (of_char c :: nat) \<and> of_char c \<le> (122 :: nat) then char_of (of_char c - (32 :: nat)) else c)"

definition ToLower :: "(string \<Rightarrow> string) \<Rightarrow> string \<Rightarrow> string" where
  "ToLower u s = (if is_ascii s then map lower_char s else u s)"

definition ToUpper :: "(string \<Rightarrow> string) \<Rightarrow> string \<Rightarrow> string" where
  "ToUpper u s = (if is_ascii s then map upper_char s else u s)"

text \<open>
  \<^verbatim>\<open>strings.EqualFold\<close> against an ASCII string. Besides the two cases of an ASCII letter, the only characters that
  fold to one are U+017F for \<^verbatim>\<open>s\<close> and U+212A for \<^verbatim>\<open>k\<close>, here as their UTF-8 bytes.
\<close>

fun fold_ascii :: "string \<Rightarrow> string" where
  "fold_ascii (a # b # s) =
     (if a = CHR 0xC5 \<and> b = CHR 0xBF then CHR ''s'' # fold_ascii s
      else if a = CHR 0xE2 \<and> b = CHR 0x84 \<and> take 1 s = [CHR 0xAA] then CHR ''k'' # fold_ascii (drop 1 s)
      else lower_char a # fold_ascii (b # s))"
| "fold_ascii s = map lower_char s"

definition EqualFold :: "string \<Rightarrow> string \<Rightarrow> bool" where
  "EqualFold s t = (fold_ascii s = fold_ascii t)"

section \<open>UTF-8\<close>

text \<open>
  The width of the first rune of a non-empty string, as \<^verbatim>\<open>utf8.DecodeRuneInString\<close> reports it: an
  invalid encoding has width one.
\<close>

definition cont_byte :: "nat \<Rightarrow> nat \<Rightarrow> string \<Rightarrow> nat \<Rightarrow> bool" where
  "cont_byte lo hi s i = (i < length s \<and> lo \<le> of_char (s ! i) \<and> of_char (s ! i) \<le> hi)"

definition rune_width :: "string \<Rightarrow> nat" where
  "rune_width s =
     (let b = of_char (hd s) :: nat;
          c2 = (\<lambda>lo hi. cont_byte lo hi s 1);
          c3 = cont_byte 128 191 s 2;
          c4 = cont_byte 128 191 s 3
      in if 194 \<le> b \<and> b \<le> 223 \<and> c2 128 191 then 2
         else if (b = 224 \<and> c2 160 191 \<or> b = 237 \<and> c2 128 159 \<or>
                  225 \<le> b \<and> b \<le> 239 \<and> b \<noteq> 237 \<and> c2 128 191) \<and> c3 then 3
         else if (b = 240 \<and> c2 144 191 \<or> b = 244 \<and> c2 128 143 \<or>
                  241 \<le> b \<and> b \<le> 243 \<and> c2 128 191) \<and> c3 \<and> c4 then 4
         else 1)"

lemma rune_width_pos: "0 < rune_width s"
  by (simp add: rune_width_def Let_def)

text \<open>\<^verbatim>\<open>len([]rune(s))\<close>.\<close>

function rune_count :: "string \<Rightarrow> nat" where
  "rune_count s = (if s = [] then 0 else Suc (rune_count (drop (rune_width s) s)))"
  by pat_completeness auto

termination rune_count
  by (relation "measure length") (auto simp: rune_width_pos)

declare rune_count.simps [simp del]

lemma rune_count_le: "rune_count s \<le> length s"
proof (induction "length s" arbitrary: s rule: less_induct)
  case less
  show ?case
  proof (cases "s = []")
    case False
    then have "rune_count (drop (rune_width s) s) \<le> length (drop (rune_width s) s)"
      using rune_width_pos [of s] by (intro less) simp
    with False rune_width_pos [of s] show ?thesis
      by (subst rune_count.simps) (cases s; simp)
  qed (simp add: rune_count.simps)
qed

end
