(* ===== verification/Js_Value.thy ===== *)
theory Js_Value
  imports Go_Strings "HOL-Library.AList" "HOL-Library.Multiset"
begin

text \<open>
  The JavaScript value model of \<^verbatim>\<open>streamhub-core-go/internal/platform/yamljs\<close>: the values a
  decoded JSON document holds (\<^verbatim>\<open>value.go\<close>), the coercions \<^verbatim>\<open>!!v\<close>, \<^verbatim>\<open>a ?? b\<close> and \<^verbatim>\<open>String(v)\<close>
  (\<^verbatim>\<open>coerce.go\<close>, \<^verbatim>\<open>load.go\<close>) and \<^verbatim>\<open>Number.prototype.toString\<close> (\<^verbatim>\<open>types.go\<close>).

  \<^item> An object \<^verbatim>\<open>*Map\<close> is the list of its pairs in insertion order; the two Go fields \<^verbatim>\<open>keys\<close> and
    \<^verbatim>\<open>vals\<close> are its first components and its lookup. The invariant \<open>map_ok\<close> (no key twice) is
    what \<^verbatim>\<open>Set\<close> and \<^verbatim>\<open>Delete\<close> keep.
  \<^item> A finite non-zero \<^verbatim>\<open>float64\<close> is represented by its sign, its shortest round-trip digits and its
    decimal exponent, which is what \<^verbatim>\<open>strconv.FormatFloat(f, 'e', -1, 64)\<close> returns for it.
  \<^item> Dates do not occur in decoded JSON and are left out.
\<close>

section \<open>Values\<close>

datatype float64 =
    NaN
  | Inf bool \<comment> \<open>negative?\<close>
  | Zero bool
  | Fin bool string int \<comment> \<open>sign, digits \<open>d1 d2 \<dots>\<close>, exponent of \<open>d1.d2\<dots>\<close>\<close>

datatype jsval =
    Undefined
  | Null
  | Bool bool
  | Number float64
  | Str string
  | Arr "jsval list"
  | Obj "(string \<times> jsval) list"

type_synonym jsmap = "(string \<times> jsval) list"

definition IsUndefined :: "jsval \<Rightarrow> bool" where
  "IsUndefined v = (v = Undefined)"

section \<open>Objects\<close>

definition map_ok :: "jsmap \<Rightarrow> bool" where
  "map_ok m = distinct (map fst m)"

definition NewMap :: jsmap where
  "NewMap = []"

definition Len :: "jsmap \<Rightarrow> nat" where
  "Len m = length m"

definition Has :: "jsmap \<Rightarrow> string \<Rightarrow> bool" where
  "Has m k = (map_of m k \<noteq> None)"

definition Lookup :: "jsmap \<Rightarrow> string \<Rightarrow> jsval option" where
  "Lookup m k = map_of m k"

definition Get :: "jsmap \<Rightarrow> string \<Rightarrow> jsval" where
  "Get m k = (case map_of m k of Some v \<Rightarrow> v | None \<Rightarrow> Undefined)"

text \<open>\<^verbatim>\<open>m[k] = v\<close>: an existing key keeps its position, a new one goes last.\<close>

fun Set :: "jsmap \<Rightarrow> string \<Rightarrow> jsval \<Rightarrow> jsmap" where
  "Set [] k v = [(k, v)]"
| "Set (p # m) k v = (if fst p = k then (k, v) # m else p # Set m k v)"

text \<open>\<^verbatim>\<open>delete m[k]\<close>: the first (and only) occurrence is cut out.\<close>

fun Delete :: "jsmap \<Rightarrow> string \<Rightarrow> jsmap" where
  "Delete [] k = []"
| "Delete (p # m) k = (if fst p = k then m else p # Delete m k)"

text \<open>
  A canonical array index: the decimal form of a number below \<open>2\<^sup>3\<^sup>2 - 1\<close>. The second guard of
  the source, on the length, keeps \<^verbatim>\<open>ParseUint\<close> from overflowing.
\<close>

definition arrayIndex :: "string \<Rightarrow> nat option" where
  "arrayIndex k =
     (if k = [] \<or> 10 < length k \<or> (1 < length k \<and> hd k = CHR ''0'') then None
      else if \<not> list_all is_digit k then None
      else (case ParseUint k 64 of
              None \<Rightarrow> None
            | Some n \<Rightarrow> if 4294967295 - 1 < n then None else Some n))"

text \<open>\<^verbatim>\<open>Object.keys(m)\<close>. \<^verbatim>\<open>sort.Slice\<close> is not stable, but distinct keys have distinct indices.\<close>

definition Keys :: "jsmap \<Rightarrow> string list" where
  "Keys m = (let ks = map fst m;
                 is = filter (\<lambda>k. arrayIndex k \<noteq> None) ks;
                 rest = filter (\<lambda>k. arrayIndex k = None) ks
             in if is = [] then rest else sort_key (\<lambda>k. the (arrayIndex k)) is @ rest)"

section \<open>Coercions\<close>

fun Truthy :: "jsval \<Rightarrow> bool" where
  "Truthy Undefined = False"
| "Truthy Null = False"
| "Truthy (Bool b) = b"
| "Truthy (Number f) = (case f of NaN \<Rightarrow> False | Zero _ \<Rightarrow> False | _ \<Rightarrow> True)"
| "Truthy (Str s) = (s \<noteq> [])"
| "Truthy (Arr _) = True"
| "Truthy (Obj _) = True"

definition IsNullish :: "jsval \<Rightarrow> bool" where
  "IsNullish v = (v = Null \<or> IsUndefined v)"

definition Coalesce :: "jsval \<Rightarrow> jsval \<Rightarrow> jsval" where
  "Coalesce a b = (if IsNullish a then b else a)"

text \<open>\<^verbatim>\<open>Number.prototype.toString\<close>; \<open>n\<close> is the position of the decimal point after the first digit.\<close>

fun JSNumberString :: "float64 \<Rightarrow> string" where
  "JSNumberString NaN = ''NaN''"
| "JSNumberString (Inf neg) = (if neg then ''-Infinity'' else ''Infinity'')"
| "JSNumberString (Zero _) = ''0''"
| "JSNumberString (Fin neg digits x) =
     (let sign = (if neg then ''-'' else '''');
          k = int (length digits);
          n = x + 1
      in if k \<le> n \<and> n \<le> 21 then sign @ digits @ replicate (nat (n - k)) CHR ''0''
         else if 0 < n \<and> n \<le> 21 then sign @ take (nat n) digits @ ''.'' @ drop (nat n) digits
         else if - 6 < n \<and> n \<le> 0 then sign @ ''0.'' @ replicate (nat (- n)) CHR ''0'' @ digits
         else let e = n - 1;
                  es = (if e < 0 then ''-'' else ''+'')
              in if k = 1 then sign @ digits @ ''e'' @ es @ itoa (nat \<bar>e\<bar>)
                 else sign @ take 1 digits @ ''.'' @ drop 1 digits @ ''e'' @ es @ itoa (nat \<bar>e\<bar>))"

text \<open>\<^verbatim>\<open>String(v)\<close> of everything but an array.\<close>

fun jsScalar :: "jsval \<Rightarrow> string" where
  "jsScalar Null = ''null''"
| "jsScalar Undefined = ''undefined''"
| "jsScalar (Bool b) = (if b then ''true'' else ''false'')"
| "jsScalar (Number f) = JSNumberString f"
| "jsScalar (Str s) = s"
| "jsScalar (Obj _) = ''[object Object]''"
| "jsScalar (Arr _) = ''''"

text \<open>\<^verbatim>\<open>keyString\<close> on an array; \<open>None\<close> is its error, a nested array.\<close>

fun keyParts :: "jsval list \<Rightarrow> string list option" where
  "keyParts [] = Some []"
| "keyParts (e # es) =
     (case e of
        Arr _ \<Rightarrow> None
      | _ \<Rightarrow> map_option ((#) (if IsNullish e then '''' else jsScalar e)) (keyParts es))"

definition keyString :: "jsval \<Rightarrow> string option" where
  "keyString v = (case v of Arr es \<Rightarrow> map_option (join '','') (keyParts es) | _ \<Rightarrow> Some (jsScalar v))"

definition jsString :: "jsval \<Rightarrow> string" where
  "jsString v = (case keyString v of Some s \<Rightarrow> s | None \<Rightarrow> '''')"

definition IsPlainObject :: "jsval \<Rightarrow> bool" where
  "IsPlainObject v = (case v of Obj _ \<Rightarrow> True | _ \<Rightarrow> False)"

definition IsObject :: "jsval \<Rightarrow> bool" where
  "IsObject v = (case v of Obj _ \<Rightarrow> True | Arr _ \<Rightarrow> True | _ \<Rightarrow> False)"

section \<open>Array indices and key order\<close>

lemma arrayIndex_iff: "arrayIndex k = Some n \<longleftrightarrow> k = itoa n \<and> n < 2 ^ 32 - 1"
proof
  assume "arrayIndex k = Some n"
  then have k: "k \<noteq> []" "\<not> (1 < length k \<and> hd k = CHR ''0'')" "list_all is_digit k"
    and n: "ParseUint k 64 = Some n" "n \<le> 4294967294"
    by (auto simp: arrayIndex_def split: if_splits option.splits)
  from k(1,2) have "length k = 1 \<or> hd k \<noteq> CHR ''0''" by (cases k) auto
  with k have "itoa (dec_val k) = k" by (intro itoa_dec_val)
  moreover from n(1) have "n = dec_val k" by (auto simp: ParseUint_def split: if_splits)
  ultimately show "k = itoa n \<and> n < 2 ^ 32 - 1" using n(2) by simp
next
  assume n: "k = itoa n \<and> n < 2 ^ 32 - 1"
  then have "length (itoa n) \<le> 10" by (intro length_itoa_le) simp_all
  moreover have "ParseUint (itoa n) 64 = Some n" using n by (intro ParseUint_itoa) simp
  ultimately show "arrayIndex k = Some n"
    using n hd_itoa [of n] by (auto simp: arrayIndex_def)
qed

lemma arrayIndex_inj: "inj_on (\<lambda>k. the (arrayIndex k)) {k. arrayIndex k \<noteq> None}"
  by (rule inj_onI) (metis (mono_tags, lifting) arrayIndex_iff mem_Collect_eq option.collapse)

lemma itoa_arrayIndex: "arrayIndex k \<noteq> None \<Longrightarrow> itoa (the (arrayIndex k)) = k"
  by (metis arrayIndex_iff option.collapse)

lemma Keys_split:
  "Keys m = sort_key (\<lambda>k. the (arrayIndex k)) (filter (\<lambda>k. arrayIndex k \<noteq> None) (map fst m))
              @ filter (\<lambda>k. arrayIndex k = None) (map fst m)"
  by (simp add: Keys_def Let_def)

lemma mset_Keys: "mset (Keys m) = mset (map fst m)"
  unfolding Keys_split mset_append mset_sort mset_filter
  using multiset_partition [of "mset (map fst m)" "\<lambda>k. arrayIndex k \<noteq> None"] by simp

lemma set_Keys [simp]: "set (Keys m) = fst ` set m"
  using mset_eq_setD [OF mset_Keys [of m]] by simp

lemma distinct_Keys: "map_ok m \<Longrightarrow> distinct (Keys m)"
  unfolding map_ok_def using mset_eq_imp_distinct_iff [OF mset_Keys] by blast

lemma Keys_indices:
  assumes "map_ok m"
  shows "\<exists>is. sorted_wrt (<) is \<and> Keys m = map itoa is @ filter (\<lambda>k. arrayIndex k = None) (map fst m)"
proof -
  let ?ks = "filter (\<lambda>k. arrayIndex k \<noteq> None) (map fst m)"
  let ?key = "\<lambda>k. the (arrayIndex k)"
  let ?s = "sort_key ?key ?ks"
  have dist: "distinct ?s" using assms by (simp add: map_ok_def)
  have idx: "arrayIndex k \<noteq> None" if "k \<in> set ?s" for k using that by simp
  have "inj_on ?key (set ?s)" by (rule inj_on_subset [OF arrayIndex_inj]) auto
  with dist have "distinct (map ?key ?s)" by (simp add: distinct_map)
  then have "sorted_wrt (<) (map ?key ?s)" by (simp add: strict_sorted_iff)
  moreover have "map itoa (map ?key ?s) = ?s"
    unfolding map_map by (rule map_idI) (unfold o_apply, rule itoa_arrayIndex [OF idx])
  ultimately show ?thesis unfolding Keys_split by (intro exI [of _ "map ?key ?s"]) simp
qed

section \<open>The contract of an object\<close>

text \<open>
  What the users of an object rely on: reading after a write, after a delete and of a fresh object,
  the keys a write or a delete leaves, and that the invariant is kept. Reads are independent of the
  order of writes to different keys.
\<close>

locale js_object =
  fixes get :: "'m \<Rightarrow> string \<Rightarrow> jsval"
    and put :: "'m \<Rightarrow> string \<Rightarrow> jsval \<Rightarrow> 'm"
    and del :: "'m \<Rightarrow> string \<Rightarrow> 'm"
    and keyset :: "'m \<Rightarrow> string set"
    and wf :: "'m \<Rightarrow> bool"
    and fresh :: 'm
  assumes wf_fresh: "wf fresh"
    and wf_put: "wf m \<Longrightarrow> wf (put m k v)"
    and wf_del: "wf m \<Longrightarrow> wf (del m k)"
    and get_fresh: "get fresh k = Undefined"
    and get_put: "wf m \<Longrightarrow> get (put m k v) k' = (if k' = k then v else get m k')"
    and get_del: "wf m \<Longrightarrow> get (del m k) k' = (if k' = k then Undefined else get m k')"
    and keys_fresh: "keyset fresh = {}"
    and keys_put: "wf m \<Longrightarrow> keyset (put m k v) = insert k (keyset m)"
    and keys_del: "wf m \<Longrightarrow> keyset (del m k) = keyset m - {k}"
begin

definition puts :: "'m \<Rightarrow> (string \<times> jsval) list \<Rightarrow> 'm" where
  "puts m kvs = foldl (\<lambda>m (k, v). put m k v) m kvs"

lemma puts_Cons [simp]: "puts m ((k, v) # kvs) = puts (put m k v) kvs"
  by (simp add: puts_def)

lemma puts_Nil [simp]: "puts m [] = m"
  by (simp add: puts_def)

lemma wf_puts: "wf m \<Longrightarrow> wf (puts m kvs)"
  by (induction kvs arbitrary: m) (auto simp: wf_put)

lemma get_puts:
  "wf m \<Longrightarrow> get (puts m kvs) k = (case map_of (rev kvs) k of Some v \<Rightarrow> v | None \<Rightarrow> get m k)"
proof (induction kvs arbitrary: m)
  case (Cons kv kvs)
  obtain j v where "kv = (j, v)" by force
  with Cons show ?case
    by (auto simp: wf_put get_put map_add_def split: option.splits)
qed simp

lemma keys_puts: "wf m \<Longrightarrow> keyset (puts m kvs) = keyset m \<union> fst ` set kvs"
proof (induction kvs arbitrary: m)
  case (Cons kv kvs)
  obtain j v where "kv = (j, v)" by force
  with Cons show ?case by (simp add: wf_put keys_put)
qed simp

end

lemma map_of_Set: "map_of (Set m k v) = (map_of m)(k \<mapsto> v)"
  by (induction m) auto

lemma fst_Set: "fst ` set (Set m k v) = insert k (fst ` set m)"
  by (induction m) auto

lemma map_ok_Set: "map_ok m \<Longrightarrow> map_ok (Set m k v)"
proof (induction m)
  case (Cons p m)
  then show ?case using fst_Set [of m k v] by (auto simp: map_ok_def)
qed (simp add: map_ok_def)

lemma Set_keys: "map fst (Set m k v) = map fst m @ (if Has m k then [] else [k])"
  by (induction m) (auto simp: Has_def)

lemma Delete_filter: "map_ok m \<Longrightarrow> Delete m k = filter (\<lambda>p. fst p \<noteq> k) m"
proof (induction m)
  case (Cons p m)
  show ?case
  proof (cases "fst p = k")
    case True
    with Cons.prems have "k \<notin> fst ` set m" by (simp add: map_ok_def)
    then have "filter (\<lambda>q. fst q \<noteq> k) m = m" by (intro filter_True) (metis imageI)
    with True show ?thesis by simp
  next
    case False
    with Cons show ?thesis by (simp add: map_ok_def)
  qed
qed simp

lemma map_ok_Delete: "map_ok m \<Longrightarrow> map_ok (Delete m k)"
  by (subst Delete_filter) (simp_all add: map_ok_def distinct_map_filter)

lemma map_of_filter_other:
  "map_of (filter (\<lambda>p. fst p \<noteq> k) m) k' = (if k' = k then None else map_of m k')"
  by (induction m) auto

lemma map_of_Delete: "map_ok m \<Longrightarrow> map_of (Delete m k) k' = (if k' = k then None else map_of m k')"
  by (simp only: Delete_filter map_of_filter_other)

lemma fst_Delete: "map_ok m \<Longrightarrow> fst ` set (Delete m k) = fst ` set m - {k}"
  by (subst Delete_filter) (auto simp: image_iff)

interpretation obj: js_object Get Set Delete "\<lambda>m. set (Keys m)" map_ok NewMap
  by unfold_locales
    (auto simp: NewMap_def map_ok_Set map_ok_Delete map_of_Set map_of_Delete fst_Set fst_Delete Get_def,
     simp_all add: map_ok_def)

section \<open>Numbers as strings\<close>

text \<open>The numbers \<^verbatim>\<open>FormatFloat\<close> can return: digits without a zero at either end.\<close>

fun num_ok :: "float64 \<Rightarrow> bool" where
  "num_ok (Fin _ ds _) =
     (ds \<noteq> [] \<and> list_all is_digit ds \<and> hd ds \<noteq> CHR ''0'' \<and> last ds \<noteq> CHR ''0'')"
| "num_ok _ = True"

text \<open>A reader of the forms \<open>JSNumberString\<close> writes, as the specification of what they denote.\<close>

definition read_unsigned :: "bool \<Rightarrow> string \<Rightarrow> float64" where
  "read_unsigned neg b =
     (case index_char CHR ''e'' b of
        Some i \<Rightarrow>
          let es = drop (Suc i) b;
              e = int (dec_val (tl es))
          in Fin neg (filter (\<lambda>c. c \<noteq> CHR ''.'') (take i b)) (if hd es = CHR ''-'' then - e else e)
      | None \<Rightarrow>
          (case index_char CHR ''.'' b of
             None \<Rightarrow> Fin neg (rev (dropWhile (\<lambda>c. c = CHR ''0'') (rev b))) (int (length b) - 1)
           | Some i \<Rightarrow>
               let f = drop (Suc i) b
               in if take i b = ''0''
                  then Fin neg (dropWhile (\<lambda>c. c = CHR ''0'') f)
                         (- int (length (takeWhile (\<lambda>c. c = CHR ''0'') f)) - 1)
                  else Fin neg (take i b @ f) (int i - 1)))"

definition read_number :: "string \<Rightarrow> float64" where
  "read_number s =
     (if s = ''NaN'' then NaN else if s = ''Infinity'' then Inf False
      else if s = ''-Infinity'' then Inf True else if s = ''0'' then Zero False
      else if hd s = CHR ''-'' then read_unsigned True (tl s) else read_unsigned False s)"

lemma digit_not_sep:
  "is_digit c \<Longrightarrow> c \<noteq> CHR ''e'' \<and> c \<noteq> CHR ''.'' \<and> c \<noteq> CHR ''-'' \<and> c \<noteq> CHR ''N'' \<and> c \<noteq> CHR ''I''"
  by (auto simp: is_digit_def)

lemma digits_not_sep:
  assumes "list_all is_digit ds"
  shows "CHR ''e'' \<notin> set ds" "CHR ''.'' \<notin> set ds" "CHR ''-'' \<notin> set ds"
  using assms digit_not_sep by (auto simp: list_all_iff)

lemma filter_digits: "list_all is_digit ds \<Longrightarrow> filter (\<lambda>c. c \<noteq> CHR ''.'') ds = ds"
  by (rule filter_True) (auto simp: list_all_iff dest: digit_not_sep)

lemma strip_zeros:
  "ds \<noteq> [] \<Longrightarrow> last ds \<noteq> CHR ''0'' \<Longrightarrow>
   rev (dropWhile (\<lambda>c. c = CHR ''0'') (rev (ds @ replicate z CHR ''0''))) = ds"
  by (cases ds rule: rev_exhaust) (simp_all add: dropWhile_append)

lemma lead_zeros:
  assumes "ds \<noteq> []" "hd ds \<noteq> CHR ''0''"
  shows "dropWhile (\<lambda>c. c = CHR ''0'') (replicate z CHR ''0'' @ ds) = ds"
    and "takeWhile (\<lambda>c. c = CHR ''0'') (replicate z CHR ''0'' @ ds) = replicate z CHR ''0''"
proof -
  obtain d ds' where "ds = d # ds'" "d \<noteq> CHR ''0''" using assms by (cases ds) auto
  then show "dropWhile (\<lambda>c. c = CHR ''0'') (replicate z CHR ''0'' @ ds) = ds"
    and "takeWhile (\<lambda>c. c = CHR ''0'') (replicate z CHR ''0'' @ ds) = replicate z CHR ''0''"
    by (induction z) simp_all
qed

text \<open>The unsigned text of a number, the four forms of the source.\<close>

definition num_body :: "string \<Rightarrow> int \<Rightarrow> string" where
  "num_body ds x = JSNumberString (Fin False ds x)"

lemma JSNumberString_Fin:
  "JSNumberString (Fin neg ds x) = (if neg then ''-'' else '''') @ num_body ds x"
  by (simp add: num_body_def Let_def)

lemma read_num_body:
  assumes "num_ok (Fin neg ds x)"
  shows "read_unsigned neg (num_body ds x) = Fin neg ds x"
proof -
  from assms have ds: "ds \<noteq> []" "list_all is_digit ds" "hd ds \<noteq> CHR ''0''" "last ds \<noteq> CHR ''0''"
    by simp_all
  note sep = digits_not_sep [OF ds(2)]
  have tk: "c \<notin> set (take i ds)" "c \<notin> set (drop i ds)" if "c \<notin> set ds" for c i
    using that in_set_takeD in_set_dropD by metis+
  consider (whole) "int (length ds) \<le> x + 1" "x + 1 \<le> 21"
    | (point) "x + 1 < int (length ds)" "0 < x + 1" "x + 1 \<le> 21"
    | (small) "- 6 < x + 1" "x + 1 \<le> 0"
    | (expo) "\<not> (0 < x + 1 \<and> x + 1 \<le> 21)" "\<not> (- 6 < x + 1 \<and> x + 1 \<le> 0)"
    by linarith
  then show ?thesis
  proof cases
    case whole
    let ?b = "ds @ replicate (nat (x + 1 - int (length ds))) CHR ''0''"
    have b: "num_body ds x = ?b" using whole by (simp add: num_body_def Let_def)
    have "index_char CHR ''e'' ?b = None" "index_char CHR ''.'' ?b = None"
      using sep by (auto simp: index_char_None)
    moreover have "int (length ?b) - 1 = x" using whole by simp
    ultimately show ?thesis
      unfolding b read_unsigned_def by (simp only: option.case strip_zeros [OF ds(1,4)])
  next
    case point
    let ?i = "nat (x + 1)"
    have b: "num_body ds x = take ?i ds @ CHR ''.'' # drop ?i ds"
      using point by (simp add: num_body_def Let_def)
    have len: "length (take ?i ds) = ?i" using point by simp
    have "index_char CHR ''e'' (num_body ds x) = None"
      unfolding b using sep by (auto simp: index_char_None tk)
    moreover have "index_char CHR ''.'' (num_body ds x) = Some ?i"
      unfolding b using index_char_append [OF tk(1) [OF sep(2)], of ?i "drop ?i ds"] len by simp
    moreover have "take ?i (num_body ds x) = take ?i ds" "drop (Suc ?i) (num_body ds x) = drop ?i ds"
      unfolding b using len by simp_all
    moreover have "take ?i ds \<noteq> ''0''" using ds(1,3) point by (cases ds) (auto simp: take_Cons')
    moreover have "int ?i - 1 = x" using point by simp
    ultimately show ?thesis unfolding read_unsigned_def by (simp add: Let_def)
  next
    case small
    let ?z = "nat (- (x + 1))"
    have b: "num_body ds x = CHR ''0'' # CHR ''.'' # replicate ?z CHR ''0'' @ ds"
    proof -
      have "\<not> int (length ds) \<le> x + 1" using ds(1) small by (cases ds) auto
      then show ?thesis using small by (simp add: num_body_def Let_def)
    qed
    have "index_char CHR ''e'' (num_body ds x) = None" unfolding b using sep by (auto simp: index_char_None)
    moreover have "index_char CHR ''.'' (num_body ds x) = Some 1" unfolding b by simp
    moreover have "- int ?z - 1 = x" using small by simp
    ultimately show ?thesis
      unfolding read_unsigned_def by (simp add: b Let_def lead_zeros [OF ds(1,3)])
  next
    case expo
    let ?m = "if length ds = 1 then ds else take 1 ds @ ''.'' @ drop 1 ds"
    let ?t = "(if x < 0 then CHR ''-'' else CHR ''+'') # itoa (nat \<bar>x\<bar>)"
    have b: "num_body ds x = ?m @ CHR ''e'' # ?t" 
    proof -
      have "\<not> (int (length ds) \<le> x + 1 \<and> x + 1 \<le> 21)" using ds(1) expo by (cases ds) auto
      with expo show ?thesis by (auto simp: num_body_def Let_def)
    qed
    have m: "CHR ''e'' \<notin> set ?m" using sep(1) by (auto simp: tk)
    have "filter (\<lambda>c. c \<noteq> CHR ''.'') (take 1 ds) = take 1 ds"
      "filter (\<lambda>c. c \<noteq> CHR ''.'') (drop 1 ds) = drop 1 ds"
      using sep(2) by (auto intro!: filter_True dest: in_set_takeD in_set_dropD)
    then have f: "filter (\<lambda>c. c \<noteq> CHR ''.'') ?m = ds" using filter_digits [OF ds(2)] by simp
    have i: "index_char CHR ''e'' (num_body ds x) = Some (length ?m)"
      unfolding b by (rule index_char_append [OF m])
    have tk: "take (length ?m) (num_body ds x) = ?m" "drop (Suc (length ?m)) (num_body ds x) = ?t"
      unfolding b by simp_all
    show ?thesis
      unfolding read_unsigned_def i option.case Let_def tk f by simp
  qed
qed

lemma num_body_head:
  assumes "num_ok (Fin neg ds x)"
  obtains c t where "num_body ds x = c # t" "is_digit c" "c = CHR ''0'' \<longrightarrow> t \<noteq> []"
proof -
  from assms obtain d ds' where "ds = d # ds'" "is_digit d" "d \<noteq> CHR ''0''" by (cases ds) auto
  moreover have "is_digit CHR ''0''" by (simp add: is_digit_def)
  moreover have "nat n = Suc (nat (n - 1))" if "0 < n" for n using that by simp
  ultimately have "\<exists>c t. num_body ds x = c # t \<and> is_digit c \<and> (c = CHR ''0'' \<longrightarrow> t \<noteq> [])"
    by (auto simp: num_body_def Let_def take_Cons')
  then show ?thesis using that by blast
qed

lemma read_JSNumberString:
  assumes "num_ok (Fin neg ds x)"
  shows "read_number (JSNumberString (Fin neg ds x)) = Fin neg ds x"
proof -
  obtain c t where b: "num_body ds x = c # t" and c: "is_digit c" "c = CHR ''0'' \<longrightarrow> t \<noteq> []"
    using num_body_head [OF assms] .
  have "c \<noteq> CHR ''-''" "c \<noteq> CHR ''N''" "c \<noteq> CHR ''I''" using c(1) digit_not_sep by simp_all
  then show ?thesis
    using read_num_body [OF assms] c(2) unfolding JSNumberString_Fin b
    by (cases neg) (auto simp add: read_number_def)
qed

section \<open>Properties\<close>

text \<open>
  \<^verbatim>\<open>arrayIndex\<close> accepts exactly the canonical array indices of JavaScript: \<open>k\<close> is accepted with
  value \<open>n\<close> if and only if \<open>k\<close> is the decimal form of \<open>n\<close> and \<open>n\<close> is below \<open>2\<^sup>3\<^sup>2 - 1\<close>. No leading
  zero, no sign, no overflow of the 64-bit parse.
\<close>

theorem arrayIndex_canonical: "arrayIndex k = Some n \<longleftrightarrow> k = itoa n \<and> n < 2 ^ 32 - 1"
  by (rule arrayIndex_iff)

text \<open>
  \<^verbatim>\<open>Map.Keys\<close> is \<^verbatim>\<open>Object.keys\<close>: on an object without duplicate keys it lists every key once, the
  array indices first in strictly ascending numeric order, then all other keys in insertion order.
\<close>

theorem Keys_order:
  assumes "map_ok m"
  shows "mset (Keys m) = mset (map fst m) \<and> distinct (Keys m) \<and>
         (\<exists>is. sorted_wrt (<) is \<and> Keys m = map itoa is @ filter (\<lambda>k. arrayIndex k = None) (map fst m))"
  using mset_Keys distinct_Keys [OF assms] Keys_indices [OF assms] by blast

theorem Keys_order_witness:
  "map_ok [(''b'', Null), (''10'', Null), (''a'', Null), (''9'', Null)] \<and>
   Keys [(''b'', Null), (''10'', Null), (''a'', Null), (''9'', Null)] = [''9'', ''10'', ''b'', ''a''] \<and>
   distinct (Keys [(''b'', Null), (''10'', Null), (''a'', Null), (''9'', Null)])"
proof -
  let ?m = "[(''b'', Null), (''10'', Null), (''a'', Null), (''9'', Null)]"
  have "map_ok ?m" by (simp add: map_ok_def)
  moreover have "Keys ?m = [''9'', ''10'', ''b'', ''a'']"
    by (simp add: Keys_def arrayIndex_def ParseUint_def is_digit_def dec_val_def)
  ultimately show ?thesis using Keys_order [of ?m] by simp
qed

text \<open>
  The contract of an object after any sequence of writes to a fresh object: reading a key returns
  the last value written to it (\<^verbatim>\<open>undefined\<close> if there was none), the keys are exactly those written,
  no key is duplicated, and a deleted key reads as \<^verbatim>\<open>undefined\<close> and is no longer listed while every
  other key still reads the same.
\<close>

theorem object_reads_last_write:
  "let m = foldl (\<lambda>m (k, v). Set m k v) NewMap kvs in
     map_ok m \<and> set (Keys m) = fst ` set kvs \<and>
     Get m k = (case map_of (rev kvs) k of Some v \<Rightarrow> v | None \<Rightarrow> Undefined) \<and>
     map_ok (Delete m j) \<and> set (Keys (Delete m j)) = fst ` set kvs - {j} \<and>
     Get (Delete m j) k = (if k = j then Undefined else Get m k)"
proof -
  note puts = obj.puts_def [of NewMap kvs, symmetric]
  have "map_ok (obj.puts NewMap kvs)" by (intro obj.wf_puts obj.wf_fresh)
  then show ?thesis
    unfolding Let_def puts
    by (simp only: obj.get_puts [OF obj.wf_fresh] obj.keys_puts [OF obj.wf_fresh] obj.wf_del
        obj.get_del obj.keys_del obj.get_fresh obj.keys_fresh Un_empty_left simp_thms)
qed

text \<open>
  Numbers survive their string form: reading what \<^verbatim>\<open>JSNumberString\<close> writes for a number in shortest
  digits gives back its sign, digits and exponent in each of the four notations (integer, decimal
  point, leading zeros, exponent), so different numbers have different strings; only the two zeros
  share one.
\<close>

theorem JSNumberString_roundtrip:
  "num_ok f \<Longrightarrow> read_number (JSNumberString f) = (case f of Zero _ \<Rightarrow> Zero False | _ \<Rightarrow> f)"
  using read_JSNumberString by (cases f) (auto simp: read_number_def simp del: JSNumberString.simps(4))

theorem JSNumberString_roundtrip_witness:
  "JSNumberString (Fin True ''125'' (- 8)) = ''-1.25e-8'' \<and>
   read_number ''-1.25e-8'' = Fin True ''125'' (- 8)"
proof -
  have e: "JSNumberString (Fin True ''125'' (- 8)) = ''-1.25e-8''"
    by (simp add: itoa.simps [of 8] digit_char_def) code_simp
  have "num_ok (Fin True ''125'' (- 8))" by (simp add: is_digit_def)
  from JSNumberString_roundtrip [OF this] show ?thesis unfolding e by simp
qed

end
