(* ===== verification/Flow_Graph.thy ===== *)
theory Flow_Graph
  imports Js_Value
begin

text \<open>
  The workflow walk of \<^verbatim>\<open>streamhub-core-go/internal/streamflow/graph.go\<close>: a stored graph of boxes and
  edges is validated (ids, endpoints, no cycle, by a depth-first search with three colours) and then
  executed breadth first from a start box, each box at most once, following the edges of the port
  that fired. Boxes and edges are values of the JavaScript model; running a box is a parameter.
\<close>

section \<open>Reading boxes and edges\<close>

record graph =
  Boxes :: "jsval list"
  Edges :: "jsval list"

datatype 'e graph_error =
    EmptyBoxId
  | DuplicateBox string
  | EdgeFromUnknown string
  | EdgeToUnknown string
  | Cycle string
  | StartNotInGraph string
  | ExceededMaxSteps int
  | ExecError 'e \<comment> \<open>the error of the context or of the box that ran\<close>

definition asObject :: "jsval \<Rightarrow> jsmap" where
  "asObject v = (case v of Obj m \<Rightarrow> m | _ \<Rightarrow> NewMap)"

definition as_array :: "jsval \<Rightarrow> jsval list" where
  "as_array v = (case v of Arr xs \<Rightarrow> xs | _ \<Rightarrow> [])"

definition normalizeGraph :: "jsval \<Rightarrow> graph" where
  "normalizeGraph v =
     (let g = asObject v
      in \<lparr>Boxes = as_array (Get g ''boxes''), Edges = as_array (Get g ''edges'')\<rparr>)"

definition field :: "jsval \<Rightarrow> string \<Rightarrow> jsval" where
  "field v key = (case v of Obj m \<Rightarrow> Get m key | _ \<Rightarrow> Undefined)"

definition as_str :: "jsval \<Rightarrow> string option" where
  "as_str v = (case v of Str s \<Rightarrow> Some s | _ \<Rightarrow> None)"

definition str_or_empty :: "jsval \<Rightarrow> string" where
  "str_or_empty v = (case as_str v of Some s \<Rightarrow> s | None \<Rightarrow> [])"

definition boxID :: "jsval \<Rightarrow> string" where
  "boxID b = str_or_empty (field b ''id'')"

definition boxType :: "jsval \<Rightarrow> string" where
  "boxType b = str_or_empty (field b ''type'')"

definition endpointBox :: "jsval \<Rightarrow> string" where
  "endpointBox ep =
     (let s = jsString (Coalesce ep (Str []))
      in case index_char CHR '':'' s of Some i \<Rightarrow> take i s | None \<Rightarrow> s)"

definition noPort :: string where
  "noPort = [CHR 0x00]"

definition endpointPort :: "jsval \<Rightarrow> jsval \<Rightarrow> string \<Rightarrow> string" where
  "endpointPort ep explicit def =
     (if \<not> IsUndefined explicit \<and> explicit \<noteq> Str [] then
        (case explicit of Str s \<Rightarrow> s | _ \<Rightarrow> noPort)
      else let s = jsString (Coalesce ep (Str []))
           in case index_char CHR '':'' s of Some i \<Rightarrow> drop (i + 1) s | None \<Rightarrow> def)"

definition edgeFromBox :: "jsval \<Rightarrow> string" where
  "edgeFromBox e = endpointBox (field e ''from'')"

definition edgeFromPort :: "jsval \<Rightarrow> string" where
  "edgeFromPort e = endpointPort (field e ''from'') (field e ''fromPort'') ''out''"

definition edgeToBox :: "jsval \<Rightarrow> string" where
  "edgeToBox e = endpointBox (field e ''to'')"

section \<open>Depth-first search\<close>

datatype colour = White | Grey | Black

type_synonym colours = "string \<Rightarrow> colour"
type_synonym adjacency = "(string \<times> string list) list"

definition adj_of :: "adjacency \<Rightarrow> string \<Rightarrow> string list" where
  "adj_of adj node = (case map_of adj node of Some ns \<Rightarrow> ns | None \<Rightarrow> [])"

text \<open>The white nodes that have an adjacency entry: what the search can still colour.\<close>

definition whites :: "adjacency \<Rightarrow> colours \<Rightarrow> string set" where
  "whites adj c = {n \<in> fst ` set adj. c n = White}"

function visit :: "adjacency \<Rightarrow> string \<Rightarrow> colours \<Rightarrow> string option \<times> colours"
  and visit_next :: "adjacency \<Rightarrow> string list \<Rightarrow> colours \<Rightarrow> string option \<times> colours" where
  "visit adj node c =
     (case visit_next adj (adj_of adj node) (c(node := Grey)) of
        (Some err, c') \<Rightarrow> (Some err, c')
      | (None, c') \<Rightarrow> (None, c'(node := Black)))"
| "visit_next adj [] c = (None, c)"
| "visit_next adj (nxt # ns) c =
     (case c nxt of
        Grey \<Rightarrow> (Some nxt, c)
      | White \<Rightarrow> (case visit adj nxt c of
                   (Some err, c') \<Rightarrow> (Some err, c')
                 | (None, c') \<Rightarrow> visit_next adj ns c')
      | Black \<Rightarrow> visit_next adj ns c)"
  by pat_completeness auto

lemma visit_colours:
  "visit_visit_next_dom (Inl (adj, node, c)) \<Longrightarrow> snd (visit adj node c) n = White \<Longrightarrow> c n = White"
  "visit_visit_next_dom (Inr (adj, ns, c)) \<Longrightarrow> snd (visit_next adj ns c) n = White \<Longrightarrow> c n = White"
proof (induction adj node c and adj ns c rule: visit_visit_next.pinduct)
  case (1 adj node c)
  obtain e c' where v: "visit_next adj (adj_of adj node) (c(node := Grey)) = (e, c')" by force
  with 1 have "c' n = White \<Longrightarrow> (c(node := Grey)) n = White" by (simp add: fun_upd_def)
  with 1 v show ?case by (cases e; cases "n = node") (simp_all add: visit.psimps)
next
  case (2 adj c)
  then show ?case by (simp add: visit_next.psimps)
next
  case (3 adj nxt ns c)
  obtain e c' where "visit adj nxt c = (e, c')" by force
  with 3 show ?case by (simp add: visit_next.psimps split: option.splits colour.splits)
qed

lemma finite_whites [simp]: "finite (whites adj c)"
  by (simp add: whites_def)

lemma whites_mono: "(\<And>n. c' n = White \<Longrightarrow> c n = White) \<Longrightarrow> card (whites adj c') \<le> card (whites adj c)"
  by (rule card_mono) (auto simp: whites_def)

lemma whites_grey_less:
  "nxt \<in> fst ` set adj \<Longrightarrow> c nxt = White \<Longrightarrow> card (whites adj (c(nxt := Grey))) < card (whites adj c)"
  by (rule psubset_card_mono) (auto simp: whites_def)

lemma adj_of_outside: "nxt \<notin> fst ` set adj \<Longrightarrow> adj_of adj nxt = []"
  by (simp add: adj_of_def map_of_eq_None_iff [symmetric] del: map_of_eq_None_iff)

text \<open>
  The measure of the search: the white nodes left, then the successors still to be looked at. The
  weights put the call on a node without an adjacency entry below the list it stands in.
\<close>

fun search_whites :: "adjacency \<times> string \<times> colours + adjacency \<times> string list \<times> colours \<Rightarrow> nat" where
  "search_whites (Inl (adj, node, c)) = card (whites adj (c(node := Grey)))"
| "search_whites (Inr (adj, ns, c)) = card (whites adj c)"

fun search_succs :: "adjacency \<times> string \<times> colours + adjacency \<times> string list \<times> colours \<Rightarrow> nat" where
  "search_succs (Inl (adj, node, c)) = 2 * length (adj_of adj node) + 1"
| "search_succs (Inr (adj, ns, c)) = 2 * length ns"

termination visit
proof (relation "measures [search_whites, search_succs]")
  fix adj :: adjacency and nxt ns and c :: colours
  assume "c nxt = White"
  then show "(Inl (adj, nxt, c), Inr (adj, nxt # ns, c)) \<in> measures [search_whites, search_succs]"
    using whites_grey_less [of nxt adj c] adj_of_outside [of nxt adj] whites_mono [of "c(nxt := Grey)" c adj]
    by (cases "nxt \<in> fst ` set adj") (auto simp: le_less split: if_splits)
next
  fix adj :: adjacency and nxt ns and c :: colours and x y
  assume "c nxt = White" "(x, y) = visit adj nxt c" "x = None" "visit_visit_next_dom (Inl (adj, nxt, c))"
  then have "card (whites adj y) \<le> card (whites adj c)"
    using visit_colours(1) [of adj nxt c] by (intro whites_mono) (metis snd_conv)
  then show "(Inr (adj, ns, y), Inr (adj, nxt # ns, c)) \<in> measures [search_whites, search_succs]"
    by (auto simp: le_less)
qed auto

declare visit.simps [simp del] visit_next.simps [simp del]

section \<open>Validation\<close>

text \<open>\<^verbatim>\<open>adj[from] = append(adj[from], to)\<close> when \<^verbatim>\<open>from\<close> is a box.\<close>

fun adj_append :: "adjacency \<Rightarrow> string \<Rightarrow> string \<Rightarrow> adjacency" where
  "adj_append [] from to = []"
| "adj_append ((n, ns) # adj) from to =
     (if n = from then (n, ns @ [to]) # adj else (n, ns) # adj_append adj from to)"

definition adjacency_of :: "graph \<Rightarrow> adjacency" where
  "adjacency_of g =
     foldl (\<lambda>adj e. adj_append adj (edgeFromBox e) (edgeToBox e)) (map (\<lambda>b. (boxID b, [])) (Boxes g)) (Edges g)"

fun visit_boxes :: "adjacency \<Rightarrow> jsval list \<Rightarrow> colours \<Rightarrow> string option" where
  "visit_boxes adj [] c = None"
| "visit_boxes adj (b # bs) c =
     (if c (boxID b) = White
      then (case visit adj (boxID b) c of
              (Some err, _) \<Rightarrow> Some err
            | (None, c') \<Rightarrow> visit_boxes adj bs c')
      else visit_boxes adj bs c)"

definition assertAcyclic :: "graph \<Rightarrow> 'e graph_error option" where
  "assertAcyclic g = map_option Cycle (visit_boxes (adjacency_of g) (Boxes g) (\<lambda>_. White))"

fun check_ids :: "jsval list \<Rightarrow> string set \<Rightarrow> 'e graph_error + string set" where
  "check_ids [] ids = Inr ids"
| "check_ids (b # bs) ids =
     (case as_str (field b ''id'') of
        None \<Rightarrow> Inl EmptyBoxId
      | Some i \<Rightarrow> if i = [] then Inl EmptyBoxId
                  else if i \<in> ids then Inl (DuplicateBox i)
                  else check_ids bs (insert i ids))"

fun check_edges :: "jsval list \<Rightarrow> string set \<Rightarrow> 'e graph_error option" where
  "check_edges [] ids = None"
| "check_edges (e # es) ids =
     (if edgeFromBox e \<notin> ids then Some (EdgeFromUnknown (edgeFromBox e))
      else if edgeToBox e \<notin> ids then Some (EdgeToUnknown (edgeToBox e))
      else check_edges es ids)"

definition validateGraph :: "graph \<Rightarrow> 'e graph_error option" where
  "validateGraph g =
     (case check_ids (Boxes g) {} of
        Inl err \<Rightarrow> Some err
      | Inr ids \<Rightarrow> (case check_edges (Edges g) ids of
                      Some err \<Rightarrow> Some err
                    | None \<Rightarrow> assertAcyclic g))"

section \<open>Execution\<close>

text \<open>
  \<^verbatim>\<open>exec\<close> runs a box in a state and returns the port that fired or an error, with the new state;
  \<open>ctx_err\<close> is \<^verbatim>\<open>ctx.Err()\<close>. Both are parameters.
\<close>


definition fired :: "graph \<Rightarrow> string \<Rightarrow> string \<Rightarrow> string set \<Rightarrow> string list" where
  "fired g bid port executed =
     map edgeToBox (filter (\<lambda>e. edgeFromBox e = bid \<and> edgeFromPort e = port \<and> edgeToBox e \<notin> executed) (Edges g))"

definition byID :: "graph \<Rightarrow> string \<Rightarrow> jsval option" where
  "byID g = map_of (rev (map (\<lambda>b. (boxID b, b)) (Boxes g)))"

function run_loop :: "graph \<Rightarrow> (jsval \<Rightarrow> 's \<Rightarrow> ('e + string) \<times> 's) \<Rightarrow> ('s \<Rightarrow> 'e option) \<Rightarrow> int \<Rightarrow>
    string list \<Rightarrow> string set \<Rightarrow> int \<Rightarrow> 's \<Rightarrow> 'e graph_error option \<times> 's" where
  "run_loop g exec ctx_err maxSteps [] executed executions s = (None, s)"
| "run_loop g exec ctx_err maxSteps (bid # queue) executed executions s =
     (if bid \<in> executed then run_loop g exec ctx_err maxSteps queue executed executions s
      else case byID g bid of
        None \<Rightarrow> run_loop g exec ctx_err maxSteps queue executed executions s
      | Some box \<Rightarrow>
          if executions + 1 > maxSteps then (Some (ExceededMaxSteps maxSteps), s)
          else (case ctx_err s of
            Some err \<Rightarrow> (Some (ExecError err), s)
          | None \<Rightarrow>
              (case exec box s of
                 (Inl err, s') \<Rightarrow> (Some (ExecError err), s')
               | (Inr port, s') \<Rightarrow>
                   run_loop g exec ctx_err maxSteps
                     (queue @ fired g bid port (insert bid executed)) (insert bid executed) (executions + 1) s')))"
  by pat_completeness auto

text \<open>The boxes not executed yet, then the queue, get smaller.\<close>

definition unexecuted :: "graph \<Rightarrow> string set \<Rightarrow> string set" where
  "unexecuted g executed = boxID ` set (Boxes g) - executed"

lemma byID_SomeD: "byID g bid = Some b \<Longrightarrow> b \<in> set (Boxes g) \<and> boxID b = bid"
  unfolding byID_def by (drule map_of_SomeD) auto

lemma unexecuted_less:
  "byID g bid = Some b \<Longrightarrow> bid \<notin> executed \<Longrightarrow> card (unexecuted g (insert bid executed)) < card (unexecuted g executed)"
proof -
  assume "byID g bid = Some b" "bid \<notin> executed"
  then have "bid \<in> unexecuted g executed" by (auto simp: unexecuted_def dest: byID_SomeD)
  then show ?thesis by (intro psubset_card_mono) (auto simp: unexecuted_def)
qed

termination run_loop
  by (relation "measures [\<lambda>(g, _, _, _, queue, executed, _). card (unexecuted g executed),
                          \<lambda>(g, _, _, _, queue, executed, _). length queue]")
    (auto dest: unexecuted_less)

declare run_loop.simps(2) [simp del]

definition runGraph :: "graph \<Rightarrow> string \<Rightarrow> (jsval \<Rightarrow> 's \<Rightarrow> ('e + string) \<times> 's) \<Rightarrow> ('s \<Rightarrow> 'e option) \<Rightarrow> int \<Rightarrow>
    's \<Rightarrow> 'e graph_error option \<times> 's" where
  "runGraph g startBoxID exec ctx_err maxSteps s =
     (case validateGraph g of
        Some err \<Rightarrow> (Some err, s)
      | None \<Rightarrow>
          if byID g startBoxID = None then (Some (StartNotInGraph startBoxID), s)
          else run_loop g exec ctx_err (max 1 maxSteps) [startBoxID] {} 0 s)"

text \<open>\<^verbatim>\<open>findTriggerBox\<close>; \<open>None\<close> for \<open>prefer\<close> is a nil function, a nil result is \<open>None\<close>.\<close>

definition findTriggerBox :: "graph \<Rightarrow> (string \<Rightarrow> bool) option \<Rightarrow> jsval option" where
  "findTriggerBox g prefer =
     (case (case prefer of
              None \<Rightarrow> None
            | Some p \<Rightarrow> find (\<lambda>b. case as_str (field b ''type'') of Some t \<Rightarrow> p t | None \<Rightarrow> False) (Boxes g)) of
        Some b \<Rightarrow> Some b
      | None \<Rightarrow>
          (let targets = edgeToBox ` set (Edges g)
           in case find (\<lambda>b. jsString (field b ''id'') \<notin> targets) (Boxes g) of
                Some b \<Rightarrow> Some b
              | None \<Rightarrow> (case Boxes g of [] \<Rightarrow> None | b # _ \<Rightarrow> Some b)))"

section \<open>Correctness of the search\<close>

abbreviation succs :: "adjacency \<Rightarrow> string rel" where
  "succs adj \<equiv> {(u, v). v \<in> set (adj_of adj u)}"

definition black_edges :: "adjacency \<Rightarrow> colours \<Rightarrow> string rel" where
  "black_edges adj c = {(u, v). c u = Black \<and> v \<in> set (adj_of adj u)}"

text \<open>The black nodes are closed under successors and have no cycle among them.\<close>

definition search_inv :: "adjacency \<Rightarrow> colours \<Rightarrow> bool" where
  "search_inv adj c \<longleftrightarrow>
     (\<forall>u v. c u = Black \<longrightarrow> v \<in> set (adj_of adj u) \<longrightarrow> c v = Black) \<and> acyclic (black_edges adj c)"

lemma visit_NoneE:
  assumes "visit adj node c = (None, c')"
  obtains c'' where "visit_next adj (adj_of adj node) (c(node := Grey)) = (None, c'')" "c' = c''(node := Black)"
  using assms by (auto simp: visit.simps split: prod.splits option.splits)

lemma visit_next_NoneE:
  assumes "visit_next adj (nxt # ns) c = (None, c')"
  obtains (white) c'' where "c nxt = White" "visit adj nxt c = (None, c'')" "visit_next adj ns c'' = (None, c')"
    | (black) "c nxt = Black" "visit_next adj ns c = (None, c')"
  using assms by (auto simp: visit_next.simps split: prod.splits option.splits colour.splits)

lemma visit_greys:
  "visit adj node c = (None, c') \<Longrightarrow> c node = White \<Longrightarrow> (c' n = Grey \<longleftrightarrow> c n = Grey)"
  "visit_next adj ns c = (None, c') \<Longrightarrow> (c' n = Grey \<longleftrightarrow> c n = Grey)"
proof (induction adj node c and adj ns c arbitrary: c' and c' rule: visit_visit_next.induct)
  case (1 adj node c)
  from 1(2) obtain c'' where v: "visit_next adj (adj_of adj node) (c(node := Grey)) = (None, c'')"
    and c': "c' = c''(node := Black)" by (rule visit_NoneE)
  have "c'' n = Grey \<longleftrightarrow> (c(node := Grey)) n = Grey"
    using 1(1) [of c''] v by (simp add: fun_upd_def)
  with c' 1(3) show ?case by (cases "n = node") auto
next
  case (2 adj c)
  then show ?case by (simp add: visit_next.simps)
next
  case (3 adj nxt ns c)
  from 3(4) show ?case
  proof (cases rule: visit_next_NoneE)
    case (white c'')
    then have "c'' n = Grey \<longleftrightarrow> c n = Grey" using 3(1) by blast
    moreover have "c' n = Grey \<longleftrightarrow> c'' n = Grey" using 3(2) white by metis
    ultimately show ?thesis by simp
  next
    case black
    then show ?thesis using 3(3) by blast
  qed
qed

lemma visit_blacks:
  "visit adj node c = (None, c') \<Longrightarrow> c n = Black \<Longrightarrow> c node = White \<Longrightarrow> c' n = Black"
  "visit_next adj ns c = (None, c') \<Longrightarrow> c n = Black \<or> n \<in> set ns \<Longrightarrow> c' n = Black"
proof (induction adj node c and adj ns c arbitrary: c' and c' rule: visit_visit_next.induct)
  case (1 adj node c)
  from 1(2) obtain c'' where v: "visit_next adj (adj_of adj node) (c(node := Grey)) = (None, c'')"
    and c': "c' = c''(node := Black)" by (rule visit_NoneE)
  from 1(3,4) have "n \<noteq> node" by auto
  with 1(1) [of c''] v 1(3) have "c'' n = Black" by (simp add: fun_upd_def)
  with c' show ?case by simp
next
  case (2 adj c)
  then show ?case by (simp add: visit_next.simps)
next
  case (3 adj nxt ns c)
  from 3(4) show ?case
  proof (cases rule: visit_next_NoneE)
    case (white c'')
    then have "c'' nxt = Black" by (auto elim: visit_NoneE)
    moreover have "c'' n = Black" if "c n = Black" using 3(1) white that by blast
    ultimately show ?thesis using 3(2) [of None c'' c'] 3(5) white by auto
  next
    case black
    then show ?thesis using 3(3,5) by auto
  qed
qed

text \<open>A node all of whose successors lie in a closed set without a cycle closes no cycle.\<close>

lemma acyclic_add_source:
  assumes closed: "\<And>u v. u \<in> B \<Longrightarrow> (u, v) \<in> R \<Longrightarrow> v \<in> B"
    and succ: "\<And>v. (x, v) \<in> R \<Longrightarrow> v \<in> B"
    and acyc: "acyclic {(u, v) \<in> R. u \<in> B}"
    and x: "x \<notin> B"
  shows "acyclic {(u, v) \<in> R. u \<in> insert x B}" (is "acyclic ?R'")
proof (rule acyclicI, intro allI notI)
  fix a assume a: "(a, a) \<in> ?R'\<^sup>+"
  have tgt: "v \<in> B" if "(u, v) \<in> ?R'\<^sup>+" for u v
    using that by (induction rule: trancl_induct) (auto intro: closed succ)
  have "(u, v) \<in> {(u, v) \<in> R. u \<in> B}\<^sup>+" if "(u, v) \<in> ?R'\<^sup>+" "u \<in> B" for u v
    using that
  proof (induction rule: trancl_induct)
    case (base v)
    then show ?case by auto
  next
    case (step v w)
    then have "v \<in> B" using tgt by blast
    with step have "(v, w) \<in> {(u, v) \<in> R. u \<in> B}" by auto
    with step show ?case by (meson trancl.simps)
  qed
  with a tgt have "(a, a) \<in> {(u, v) \<in> R. u \<in> B}\<^sup>+" by blast
  with acyc show False by (auto simp: acyclic_def)
qed

lemma visit_inv:
  "visit adj node c = (None, c') \<Longrightarrow> c node = White \<Longrightarrow> search_inv adj c \<Longrightarrow> search_inv adj c'"
  "visit_next adj ns c = (None, c') \<Longrightarrow> search_inv adj c \<Longrightarrow> search_inv adj c'"
proof (induction adj node c and adj ns c arbitrary: c' and c' rule: visit_visit_next.induct)
  case (1 adj node c)
  from 1(2) obtain c'' where v: "visit_next adj (adj_of adj node) (c(node := Grey)) = (None, c'')"
    and c': "c' = c''(node := Black)" by (rule visit_NoneE)
  have "black_edges adj (c(node := Grey)) = black_edges adj c"
    using 1(3) by (auto simp: black_edges_def split: if_splits)
  with 1(3,4) have "search_inv adj (c(node := Grey))" by (auto simp: search_inv_def)
  with 1(1) [of c''] v have inv: "search_inv adj c''" by (simp add: fun_upd_def)
  have succ: "c'' v = Black" if "v \<in> set (adj_of adj node)" for v
    using visit_blacks(2) [OF v] that by blast
  have grey: "c'' node = Grey" using visit_greys(2) [OF v, of node] by simp
  have "black_edges adj c' = {(u, v) \<in> succs adj. u \<in> insert node {n. c'' n = Black}}"
    by (auto simp: black_edges_def c' split: if_splits)
  moreover have "acyclic {(u, v) \<in> succs adj. u \<in> insert node {n. c'' n = Black}}"
    using inv succ grey
    by (intro acyclic_add_source) (auto simp: search_inv_def black_edges_def conj_commute)
  ultimately have "acyclic (black_edges adj c')" by simp
  moreover have "c' v = Black" if "c' u = Black" "v \<in> set (adj_of adj u)" for u v
    using that inv succ [of v] by (cases "u = node") (auto simp: search_inv_def c')
  ultimately show ?case by (auto simp: search_inv_def)
next
  case (2 adj c)
  then show ?case by (simp add: visit_next.simps)
next
  case (3 adj nxt ns c)
  from 3(4) show ?case
  proof (cases rule: visit_next_NoneE)
    case (white c'')
    then show ?thesis using 3(1,2,5) by metis
  next
    case black
    then show ?thesis using 3(3,5) by blast
  qed
qed

text \<open>Meeting a grey node closes a cycle: every grey node reaches the one being visited.\<close>

lemma visit_error:
  "visit adj node c = (Some err, c') \<Longrightarrow> c node = White \<Longrightarrow>
     (\<And>n. c n = Grey \<Longrightarrow> (n, node) \<in> (succs adj)\<^sup>+) \<Longrightarrow> \<not> acyclic (succs adj)"
  "visit_next adj ns c = (Some err, c') \<Longrightarrow> set ns \<subseteq> set (adj_of adj at) \<Longrightarrow>
     (\<And>n. c n = Grey \<Longrightarrow> (n, at) \<in> (succs adj)\<^sup>*) \<Longrightarrow> \<not> acyclic (succs adj)"
proof (induction adj node c and adj ns c arbitrary: c' and c' at rule: visit_visit_next.induct)
  case (1 adj node c)
  from 1(2) have "visit_next adj (adj_of adj node) (c(node := Grey)) = (Some err, c')"
    by (auto simp: visit.simps split: prod.splits option.splits)
  moreover have "(n, node) \<in> (succs adj)\<^sup>*" if "(c(node := Grey)) n = Grey" for n
    using that 1(4) [of n] by (auto split: if_splits intro: trancl_into_rtrancl)
  ultimately show ?case using 1(1) [of c' node] by (simp add: fun_upd_def)
next
  case (2 adj c)
  then show ?case by (simp add: visit_next.simps)
next
  case (3 adj nxt ns c)
  have edge: "(at, nxt) \<in> succs adj" and ns: "set ns \<subseteq> set (adj_of adj at)" using 3(5) by auto
  show ?case
  proof (cases "c nxt")
    case White
    have grey: "(n, nxt) \<in> (succs adj)\<^sup>+" if "c n = Grey" for n
      using 3(6) [OF that] edge by (rule rtrancl_into_trancl1)
    obtain e c'' where v: "visit adj nxt c = (e, c'')" by force
    show ?thesis
    proof (cases e)
      case None
      with v White 3(4) have "visit_next adj ns c'' = (Some err, c')" by (simp add: visit_next.simps)
      moreover have "(n, at) \<in> (succs adj)\<^sup>*" if "c'' n = Grey" for n
        using 3(6) visit_greys(1) [OF v [unfolded None] White] that by blast
      ultimately show ?thesis using 3(2) [OF White v [symmetric] None] ns by blast
    next
      case (Some e')
      with v White 3(4) have "visit adj nxt c = (Some err, c')" by (simp add: visit_next.simps)
      then show ?thesis using 3(1) [OF White _ White grey] by blast
    qed
  next
    case Grey
    with 3(6) edge have "(nxt, nxt) \<in> (succs adj)\<^sup>+" by (meson rtrancl_into_trancl1)
    then show ?thesis by (auto simp: acyclic_def)
  next
    case Black
    with 3(4) have "visit_next adj ns c = (Some err, c')" by (simp add: visit_next.simps)
    then show ?thesis using 3(3) [OF Black _ ns 3(6)] by blast
  qed
qed

lemma visit_boxes_ok:
  "visit_boxes adj bs c = None \<Longrightarrow> search_inv adj c \<Longrightarrow> (\<And>n. c n \<noteq> Grey) \<Longrightarrow>
     \<exists>c'. search_inv adj c' \<and> (\<forall>b \<in> set bs. c' (boxID b) = Black) \<and> (\<forall>n. c n = Black \<longrightarrow> c' n = Black)"
proof (induction bs arbitrary: c)
  case (Cons b bs)
  show ?case
  proof (cases "c (boxID b)")
    case White
    with Cons.prems(1) obtain c'' where v: "visit adj (boxID b) c = (None, c'')"
      and bs: "visit_boxes adj bs c'' = None" by (auto split: prod.splits option.splits)
    have "search_inv adj c''" using visit_inv(1) [OF v White Cons.prems(2)] .
    moreover have "c'' n \<noteq> Grey" for n using visit_greys(1) [OF v White] Cons.prems(3) by blast
    ultimately obtain c' where "search_inv adj c'" "\<forall>b \<in> set bs. c' (boxID b) = Black"
      "\<forall>n. c'' n = Black \<longrightarrow> c' n = Black" using Cons.IH [OF bs] by blast
    moreover have "c'' (boxID b) = Black" using v by (auto elim: visit_NoneE)
    moreover have "c n = Black \<longrightarrow> c'' n = Black" for n using visit_blacks(1) [OF v _ White] by blast
    ultimately show ?thesis by (intro exI [of _ c']) auto
  next
    case Grey
    then show ?thesis using Cons.prems(3) by blast
  next
    case Black
    with Cons.prems(1) have "visit_boxes adj bs c = None" by simp
    from Cons.IH [OF this Cons.prems(2,3)] Black show ?thesis by auto
  qed
qed auto

lemma visit_boxes_error:
  "visit_boxes adj bs c = Some err \<Longrightarrow> (\<And>n. c n \<noteq> Grey) \<Longrightarrow> \<not> acyclic (succs adj)"
proof (induction bs arbitrary: c)
  case (Cons b bs)
  show ?case
  proof (cases "c (boxID b) = White")
    case True
    obtain e c'' where v: "visit adj (boxID b) c = (e, c'')" by force
    show ?thesis
    proof (cases e)
      case None
      with v True Cons.prems(1) have "visit_boxes adj bs c'' = Some err" by simp
      moreover have "c'' n \<noteq> Grey" for n
        using visit_greys(1) [OF v [unfolded None] True] Cons.prems(2) by blast
      ultimately show ?thesis by (rule Cons.IH)
    next
      case (Some e')
      then show ?thesis using visit_error(1) [OF v [unfolded Some] True] Cons.prems(2) by blast
    qed
  next
    case False
    with Cons.prems show ?thesis using Cons.IH [of c] by simp
  qed
qed simp

lemma keys_adj_append [simp]: "fst ` set (adj_append adj f t) = fst ` set adj"
  by (induction adj f t rule: adj_append.induct) auto

lemma adj_of_append:
  "adj_of (adj_append adj f t) u = adj_of adj u @ (if u = f \<and> f \<in> fst ` set adj then [t] else [])"
  by (induction adj f t rule: adj_append.induct) (auto simp: adj_of_def rev_image_eqI)

lemma adj_of_fold:
  "adj_of (foldl (\<lambda>adj e. adj_append adj (edgeFromBox e) (edgeToBox e)) adj es) u =
     adj_of adj u @ (if u \<in> fst ` set adj then map edgeToBox (filter (\<lambda>e. edgeFromBox e = u) es) else [])"
  by (induction es arbitrary: adj) (auto simp: adj_of_append)

lemma adj_of_graph:
  "adj_of (adjacency_of g) u =
     (if u \<in> boxID ` set (Boxes g) then map edgeToBox (filter (\<lambda>e. edgeFromBox e = u) (Edges g)) else [])"
proof -
  have "adj_of (map (\<lambda>b. (boxID b, [])) bs) u = []" for bs
    by (induction bs) (auto simp: adj_of_def)
  then show ?thesis unfolding adjacency_of_def adj_of_fold by (simp add: image_image)
qed

definition edge_rel :: "graph \<Rightarrow> string rel" where
  "edge_rel g = (\<lambda>e. (edgeFromBox e, edgeToBox e)) ` set (Edges g)"

definition edges_known :: "graph \<Rightarrow> bool" where
  "edges_known g \<longleftrightarrow>
     (\<forall>e \<in> set (Edges g). edgeFromBox e \<in> boxID ` set (Boxes g) \<and> edgeToBox e \<in> boxID ` set (Boxes g))"

lemma succs_graph: "edges_known g \<Longrightarrow> succs (adjacency_of g) = edge_rel g"
  by (force simp: adj_of_graph edge_rel_def edges_known_def split: if_splits)

lemma assertAcyclic_iff:
  assumes "edges_known g"
  shows "assertAcyclic g = None \<longleftrightarrow> acyclic (edge_rel g)"
proof
  assume "assertAcyclic g = None"
  then have "visit_boxes (adjacency_of g) (Boxes g) (\<lambda>_. White) = None" by (simp add: assertAcyclic_def)
  moreover have "search_inv (adjacency_of g) (\<lambda>_. White)"
    by (simp add: search_inv_def black_edges_def acyclic_def)
  ultimately obtain c' where "search_inv (adjacency_of g) c'" "\<forall>b \<in> set (Boxes g). c' (boxID b) = Black"
    using visit_boxes_ok by blast
  then have "acyclic (black_edges (adjacency_of g) c')"
    and "succs (adjacency_of g) \<subseteq> black_edges (adjacency_of g) c'"
    by (auto simp: search_inv_def black_edges_def adj_of_graph split: if_splits)
  then show "acyclic (edge_rel g)" using succs_graph [OF assms] acyclic_subset by metis
next
  assume acyc: "acyclic (edge_rel g)"
  show "assertAcyclic g = None"
  proof (cases "visit_boxes (adjacency_of g) (Boxes g) (\<lambda>_. White)")
    case (Some err)
    then have "\<not> acyclic (edge_rel g)"
      using visit_boxes_error [OF Some] unfolding succs_graph [OF assms] by simp
    with acyc show ?thesis by simp
  qed (simp add: assertAcyclic_def)
qed

section \<open>Correctness of the validation\<close>

definition good_id :: "jsval \<Rightarrow> bool" where
  "good_id b \<longleftrightarrow> (\<exists>i. field b ''id'' = Str i \<and> i \<noteq> [])"

lemma as_str_iff: "as_str v = Some s \<longleftrightarrow> v = Str s"
  by (cases v) (auto simp: as_str_def)

lemma boxID_good: "field b ''id'' = Str i \<Longrightarrow> boxID b = i"
  by (simp add: boxID_def str_or_empty_def as_str_def)

lemma check_ids_iff:
  "check_ids bs ids = Inr ids' \<longleftrightarrow>
     list_all good_id bs \<and> distinct (map boxID bs) \<and> ids \<inter> boxID ` set bs = {} \<and> ids' = ids \<union> boxID ` set bs"
proof (induction bs arbitrary: ids)
  case (Cons b bs)
  show ?case
  proof (cases "as_str (field b ''id'')")
    case None
    then show ?thesis by (auto simp: good_id_def as_str_def)
  next
    case (Some i)
    then have "boxID b = i" "good_id b \<longleftrightarrow> i \<noteq> []" by (auto simp: as_str_iff boxID_good good_id_def)
    with Some show ?thesis by (auto simp: Cons.IH)
  qed
qed auto

lemma check_edges_iff:
  "check_edges es ids = None \<longleftrightarrow> (\<forall>e \<in> set es. edgeFromBox e \<in> ids \<and> edgeToBox e \<in> ids)"
  by (induction es) auto

definition graph_ok :: "graph \<Rightarrow> bool" where
  "graph_ok g \<longleftrightarrow> list_all good_id (Boxes g) \<and> distinct (map boxID (Boxes g)) \<and> edges_known g \<and>
     acyclic (edge_rel g)"

lemma validateGraph_iff: "validateGraph g = (None :: 'e graph_error option) \<longleftrightarrow> graph_ok g"
proof (cases "check_ids (Boxes g) {} :: 'e graph_error + string set")
  case (Inl err)
  then have "\<not> (list_all good_id (Boxes g) \<and> distinct (map boxID (Boxes g)))"
    using check_ids_iff [of "Boxes g" "{}" "boxID ` set (Boxes g)", where ?'a = 'e] by auto
  with Inl show ?thesis by (auto simp: validateGraph_def graph_ok_def)
next
  case (Inr ids)
  then have ids: "list_all good_id (Boxes g)" "distinct (map boxID (Boxes g))" "ids = boxID ` set (Boxes g)"
    by (simp_all add: check_ids_iff)
  show ?thesis
    using ids assertAcyclic_iff [of g, where ?'a = 'e] check_edges_iff [of "Edges g" ids, where ?'a = 'e]
    by (cases "check_edges (Edges g) ids :: 'e graph_error option")
      (auto simp: validateGraph_def Inr graph_ok_def edges_known_def)
qed

section \<open>What a run executes\<close>

text \<open>
  A trace lists the boxes executed with the port each fired. \<open>replay\<close> runs a trace, \<open>caused\<close> says
  that every box after the first stands at the end of an edge an earlier box fired, and
  \<open>activated\<close> is the set of boxes that the fired ports of a trace reach from the start.
\<close>

type_synonym trace = "(string \<times> string) list"

fun replay :: "graph \<Rightarrow> (jsval \<Rightarrow> 's \<Rightarrow> ('e + string) \<times> 's) \<Rightarrow> ('s \<Rightarrow> 'e option) \<Rightarrow> 's \<Rightarrow> trace \<Rightarrow> 's option" where
  "replay g exec ctx_err s [] = Some s"
| "replay g exec ctx_err s ((bid, port) # tr) =
     (case (byID g bid, ctx_err s) of
        (Some box, None) \<Rightarrow> (case exec box s of
            (Inr p, s') \<Rightarrow> if p = port then replay g exec ctx_err s' tr else None
          | (Inl _, _) \<Rightarrow> None)
      | _ \<Rightarrow> None)"

definition fires :: "graph \<Rightarrow> trace \<Rightarrow> string \<Rightarrow> bool" where
  "fires g tr to \<longleftrightarrow>
     (\<exists>e \<in> set (Edges g). (edgeFromBox e, edgeFromPort e) \<in> set tr \<and> edgeToBox e = to)"

fun caused :: "graph \<Rightarrow> string \<Rightarrow> trace \<Rightarrow> trace \<Rightarrow> bool" where
  "caused g start past [] = True"
| "caused g start past (ev # tr) =
     ((if past = [] then fst ev = start else fires g past (fst ev)) \<and> caused g start (past @ [ev]) tr)"

inductive_set activated :: "graph \<Rightarrow> string \<Rightarrow> (string \<times> string) set \<Rightarrow> string set"
  for g start evs where
  start: "start \<in> activated g start evs"
| step: "b \<in> activated g start evs \<Longrightarrow> (b, edgeFromPort e) \<in> evs \<Longrightarrow> e \<in> set (Edges g) \<Longrightarrow>
         edgeFromBox e = b \<Longrightarrow> edgeToBox e \<in> activated g start evs"

lemma replay_append:
  "replay g exec ctx_err s (tr @ tr') =
     Option.bind (replay g exec ctx_err s tr) (\<lambda>s'. replay g exec ctx_err s' tr')"
  by (induction g exec ctx_err s tr rule: replay.induct) (auto split: option.splits prod.splits sum.splits)

lemma caused_append: "caused g start past (tr @ tr') \<longleftrightarrow> caused g start past tr \<and> caused g start (past @ tr) tr'"
  by (induction tr arbitrary: past) auto

lemma caused_activated:
  "caused g start past tr \<Longrightarrow> fst ` set past \<subseteq> activated g start (set (past @ tr)) \<Longrightarrow>
     fst ` set (past @ tr) \<subseteq> activated g start (set (past @ tr))"
proof (induction tr arbitrary: past)
  case (Cons ev tr)
  have "fst ev \<in> activated g start (set (past @ ev # tr))"
  proof (cases "past = []")
    case True
    with Cons.prems(1) show ?thesis by (auto intro: activated.start)
  next
    case False
    with Cons.prems(1) obtain e where e: "e \<in> set (Edges g)" "(edgeFromBox e, edgeFromPort e) \<in> set past"
      "edgeToBox e = fst ev" by (auto simp: fires_def)
    with Cons.prems(2) have "edgeFromBox e \<in> activated g start (set (past @ ev # tr))" by force
    then have "edgeToBox e \<in> activated g start (set (past @ ev # tr))"
      using e by (intro activated.step [where b = "edgeFromBox e"]) auto
    with e show ?thesis by simp
  qed
  with Cons.prems show ?case using Cons.IH [of "past @ [ev]"] by simp
qed simp

text \<open>The state of the loop after a trace.\<close>

definition walk_inv :: "graph \<Rightarrow> string \<Rightarrow> (jsval \<Rightarrow> 's \<Rightarrow> ('e + string) \<times> 's) \<Rightarrow> ('s \<Rightarrow> 'e option) \<Rightarrow> 's \<Rightarrow>
    trace \<Rightarrow> string list \<Rightarrow> string set \<Rightarrow> int \<Rightarrow> 's \<Rightarrow> bool" where
  "walk_inv g start exec ctx_err s0 tr queue executed executions s \<longleftrightarrow>
     replay g exec ctx_err s0 tr = Some s \<and> distinct (map fst tr) \<and> executed = fst ` set tr \<and>
     executed \<subseteq> boxID ` set (Boxes g) \<and> executions = int (length tr) \<and> caused g start [] tr \<and>
     (if tr = [] then queue = [start] else start \<in> executed \<and> (\<forall>q \<in> set queue. fires g tr q)) \<and>
     (\<forall>to. fires g tr to \<longrightarrow> to \<in> executed \<union> set queue)"

lemma byID_known: "bid \<in> boxID ` set (Boxes g) \<Longrightarrow> \<exists>b. byID g bid = Some b"
proof -
  assume "bid \<in> boxID ` set (Boxes g)"
  then have "bid \<in> fst ` set (rev (map (\<lambda>b. (boxID b, b)) (Boxes g)))" by (simp add: image_image)
  then have "byID g bid \<noteq> None" unfolding byID_def map_of_eq_None_iff by simp
  then show ?thesis by simp
qed

lemma fires_snoc:
  "fires g (tr @ [(bid, port)]) to \<longleftrightarrow>
     fires g tr to \<or> (\<exists>e \<in> set (Edges g). edgeFromBox e = bid \<and> edgeFromPort e = port \<and> edgeToBox e = to)"
  by (auto simp: fires_def)

lemma set_fired:
  "set (fired g bid port executed) =
     {to. to \<notin> executed \<and> (\<exists>e \<in> set (Edges g). edgeFromBox e = bid \<and> edgeFromPort e = port \<and> edgeToBox e = to)}"
  by (auto simp: fired_def)

lemma walk_step:
  assumes inv: "walk_inv g start exec ctx_err s0 tr (bid # queue) executed executions s"
    and new: "bid \<notin> executed" and box: "byID g bid = Some b" and ctx: "ctx_err s = None"
    and run: "exec b s = (Inr port, s')"
  shows "walk_inv g start exec ctx_err s0 (tr @ [(bid, port)])
           (queue @ fired g bid port (insert bid executed)) (insert bid executed) (executions + 1) s'"
proof -
  let ?tr = "tr @ [(bid, port)]"
  let ?q = "queue @ fired g bid port (insert bid executed)"
  have "replay g exec ctx_err s0 ?tr = Some s'"
    using inv box ctx run by (simp add: walk_inv_def replay_append)
  moreover have "distinct (map fst ?tr)" "insert bid executed = fst ` set ?tr"
    using inv new by (auto simp: walk_inv_def)
  moreover have "insert bid executed \<subseteq> boxID ` set (Boxes g)"
    using inv byID_SomeD [OF box] by (auto simp: walk_inv_def)
  moreover have "caused g start [] ?tr"
    using inv by (auto simp: walk_inv_def caused_append split: if_splits)
  moreover have "start \<in> insert bid executed" using inv by (auto simp: walk_inv_def split: if_splits)
  moreover have "\<forall>q \<in> set ?q. fires g ?tr q"
    using inv unfolding set_append fires_snoc set_fired by (auto simp: walk_inv_def split: if_splits)
  moreover have "to \<in> insert bid executed \<union> set ?q" if "fires g ?tr to" for to
    using inv that unfolding set_append fires_snoc set_fired by (auto simp: walk_inv_def)
  ultimately show ?thesis using inv by (simp add: walk_inv_def)
qed

lemma walk_skip:
  assumes inv: "walk_inv g start exec ctx_err s0 tr (bid # queue) executed executions s" and "bid \<in> executed"
  shows "walk_inv g start exec ctx_err s0 tr queue executed executions s"
  using assms by (auto simp: walk_inv_def split: if_splits)

text \<open>What the loop returns, by the reason it stops.\<close>

definition outcome :: "graph \<Rightarrow> string \<Rightarrow> (jsval \<Rightarrow> 's \<Rightarrow> ('e + string) \<times> 's) \<Rightarrow> ('s \<Rightarrow> 'e option) \<Rightarrow> int \<Rightarrow>
    trace \<Rightarrow> 's \<Rightarrow> 'e graph_error option \<Rightarrow> 's \<Rightarrow> bool" where
  "outcome g start exec ctx_err maxSteps tr s1 r s' \<longleftrightarrow>
     (case r of
        None \<Rightarrow> s' = s1 \<and> fst ` set tr = activated g start (set tr)
      | Some (ExceededMaxSteps k) \<Rightarrow>
          s' = s1 \<and> k = maxSteps \<and> int (length tr) = k \<and> k < int (card (boxID ` set (Boxes g)))
      | Some (ExecError err) \<Rightarrow>
          (ctx_err s1 = Some err \<and> s' = s1) \<or>
          (\<exists>b \<in> set (Boxes g). boxID b \<notin> fst ` set tr \<and> exec b s1 = (Inl err, s'))
      | _ \<Rightarrow> False)"

lemma walk_bound:
  assumes "walk_inv g start exec ctx_err s0 tr (bid # queue) executed executions s"
    and "bid \<notin> executed" "byID g bid = Some b"
  shows "executions < int (card (boxID ` set (Boxes g)))"
proof -
  have "fst ` set tr \<subset> boxID ` set (Boxes g)"
    using assms byID_SomeD [OF assms(3)] by (auto simp: walk_inv_def)
  then have "card (fst ` set tr) < card (boxID ` set (Boxes g))" by (intro psubset_card_mono) simp_all
  moreover have "card (fst ` set tr) = length tr"
    using assms(1) distinct_card [of "map fst tr"] by (simp add: walk_inv_def)
  ultimately show ?thesis using assms(1) by (simp add: walk_inv_def)
qed

lemma walk_finished:
  assumes inv: "walk_inv g start exec ctx_err s0 tr [] executed executions s"
  shows "fst ` set tr = activated g start (set tr)"
proof
  have c: "caused g start [] tr" using inv by (simp add: walk_inv_def)
  show "fst ` set tr \<subseteq> activated g start (set tr)"
    using caused_activated [OF c] by simp
  show "activated g start (set tr) \<subseteq> fst ` set tr"
  proof
    fix b assume "b \<in> activated g start (set tr)"
    then show "b \<in> fst ` set tr"
    proof induction
      case start
      then show ?case using inv by (auto simp: walk_inv_def split: if_splits)
    next
      case (step b e)
      then have "fires g tr (edgeToBox e)" by (auto simp: fires_def)
      then show ?case using inv by (auto simp: walk_inv_def)
    qed
  qed
qed

lemma walk_queue_known:
  assumes "walk_inv g start exec ctx_err s0 tr (bid # queue) executed executions s"
    and "edges_known g" "start \<in> boxID ` set (Boxes g)"
  shows "bid \<in> boxID ` set (Boxes g)"
  using assms by (auto simp: walk_inv_def fires_def edges_known_def split: if_splits)

lemma run_loop_correct:
  "run_loop g exec ctx_err maxSteps queue executed executions s = (r, s') \<Longrightarrow>
   walk_inv g start exec ctx_err s0 tr queue executed executions s \<Longrightarrow> edges_known g \<Longrightarrow>
   start \<in> boxID ` set (Boxes g) \<Longrightarrow> executions \<le> maxSteps \<Longrightarrow>
   \<exists>tr s1. replay g exec ctx_err s0 tr = Some s1 \<and> distinct (map fst tr) \<and> caused g start [] tr \<and>
     int (length tr) \<le> maxSteps \<and> outcome g start exec ctx_err maxSteps tr s1 r s'"
proof (induction g exec ctx_err maxSteps queue executed executions s arbitrary: tr rule: run_loop.induct)
  case (1 g exec ctx_err maxSteps executed executions s)
  then have "fst ` set tr = activated g start (set tr)" by (auto dest: walk_finished)
  with 1 show ?case
    by (intro exI [of _ tr] exI [of _ s]) (auto simp: walk_inv_def outcome_def)
next
  case (2 g exec ctx_err maxSteps bid queue executed executions s)
  note inv = "2.prems"(2) and loop = "2.prems"(1)
  obtain b where b: "byID g bid = Some b" using walk_queue_known [OF inv "2.prems"(3,4)] byID_known by blast
  show ?case
  proof (cases "bid \<in> executed")
    case True
    with loop have "run_loop g exec ctx_err maxSteps queue executed executions s = (r, s')"
      by (simp add: run_loop.simps(2))
    with True show ?thesis using "2.IH"(1) walk_skip [OF inv True] "2.prems"(3-5) by blast
  next
    case new: False
    consider (steps) "executions + 1 > maxSteps"
      | (ctx) err where "executions + 1 \<le> maxSteps" "ctx_err s = Some err"
      | (fail) err s2 where "executions + 1 \<le> maxSteps" "ctx_err s = None" "exec b s = (Inl err, s2)"
      | (go) port s2 where "executions + 1 \<le> maxSteps" "ctx_err s = None" "exec b s = (Inr port, s2)"
      by (metis not_less option.exhaust sum.exhaust surj_pair)
    then show ?thesis
    proof cases
      case go
      with loop new b have "run_loop g exec ctx_err maxSteps (queue @ fired g bid port (insert bid executed))
          (insert bid executed) (executions + 1) s2 = (r, s')" by (simp add: run_loop.simps(2))
      moreover have "\<not> executions + 1 > maxSteps" using go by simp
      ultimately show ?thesis
        using "2.IH"(3) [OF new b _ go(2) go(3) [symmetric]] walk_step [OF inv new b go(2,3)] "2.prems"(3,4) go(1) by blast
    next
      case steps
      with loop new b have r: "r = Some (ExceededMaxSteps maxSteps)" "s' = s" by (simp_all add: run_loop.simps(2))
      with steps "2.prems"(5) walk_bound [OF inv new b] inv show ?thesis
        by (intro exI [of _ tr] exI [of _ s]) (auto simp: walk_inv_def outcome_def)
    next
      case ctx
      with loop new b have r: "r = Some (ExecError err)" "s' = s" by (simp_all add: run_loop.simps(2))
      with ctx inv "2.prems"(5) show ?thesis
        by (intro exI [of _ tr] exI [of _ s]) (auto simp: walk_inv_def outcome_def)
    next
      case fail
      with loop new b have r: "r = Some (ExecError err)" "s' = s2" by (simp_all add: run_loop.simps(2))
      moreover have "b \<in> set (Boxes g)" "boxID b \<notin> fst ` set tr"
        using byID_SomeD [OF b] new inv by (auto simp: walk_inv_def)
      ultimately show ?thesis using fail inv "2.prems"(5)
        by (intro exI [of _ tr] exI [of _ s]) (auto simp: walk_inv_def outcome_def)
    qed
  qed
qed

lemma runGraph_run:
  assumes "graph_ok g" "start \<in> boxID ` set (Boxes g)"
    and "runGraph g start exec ctx_err maxSteps s = (r :: 'e graph_error option, s')"
  shows "\<exists>tr s1. replay g exec ctx_err s tr = Some s1 \<and> distinct (map fst tr) \<and> caused g start [] tr \<and>
           int (length tr) \<le> max 1 maxSteps \<and> outcome g start exec ctx_err (max 1 maxSteps) tr s1 r s'"
proof -
  have "byID g start \<noteq> None" using byID_known [OF assms(2)] by auto
  moreover have "validateGraph g = (None :: 'e graph_error option)" using assms(1) by (simp add: validateGraph_iff)
  ultimately have "run_loop g exec ctx_err (max 1 maxSteps) [start] {} 0 s = (r, s')"
    using assms(3) by (auto simp add: runGraph_def)
  moreover have "walk_inv g start exec ctx_err s [] [start] {} 0 s" by (simp add: walk_inv_def fires_def)
  ultimately show ?thesis using assms(1,2) by (intro run_loop_correct) (auto simp: graph_ok_def)
qed


lemma source_box:
  assumes "graph_ok g" "Boxes g \<noteq> []"
  shows "\<exists>b \<in> set (Boxes g). boxID b \<notin> edgeToBox ` set (Edges g)"
proof -
  have "finite (edge_rel g)" by (simp add: edge_rel_def)
  then have wf: "wf (edge_rel g)" using assms(1) by (simp add: finite_acyclic_wf graph_ok_def)
  have "boxID (hd (Boxes g)) \<in> boxID ` set (Boxes g)" using assms(2) by simp
  then obtain z where z: "z \<in> boxID ` set (Boxes g)" "\<And>y. (y, z) \<in> edge_rel g \<Longrightarrow> y \<notin> boxID ` set (Boxes g)"
    using wfE_min [OF wf] by metis
  have "z \<notin> edgeToBox ` set (Edges g)"
  proof
    assume "z \<in> edgeToBox ` set (Edges g)"
    then obtain e where e: "e \<in> set (Edges g)" "edgeToBox e = z" by auto
    then have "(edgeFromBox e, z) \<in> edge_rel g" by (auto simp: edge_rel_def)
    with z(2) have "edgeFromBox e \<notin> boxID ` set (Boxes g)" by blast
    with e assms(1) show False by (simp add: graph_ok_def edges_known_def)
  qed
  with z(1) show ?thesis by auto
qed

lemma jsString_good_id: "good_id b \<Longrightarrow> jsString (field b ''id'') = boxID b"
  by (auto simp: good_id_def boxID_good jsString_def keyString_def)

section \<open>Properties\<close>

text \<open>
  C9. \<^verbatim>\<open>validateGraph\<close> accepts exactly the well-formed graphs: every box has a non-empty string id, no
  id occurs twice, both ends of every edge are boxes of the graph, and the edges form no cycle. The
  three-colour search terminates on every graph, reports a cycle only when there is one and never
  misses one.
\<close>

theorem validateGraph_accepts_exactly:
  "validateGraph g = (None :: 'e graph_error option) \<longleftrightarrow>
     list_all good_id (Boxes g) \<and> distinct (map boxID (Boxes g)) \<and> edges_known g \<and> acyclic (edge_rel g)"
  unfolding validateGraph_iff graph_ok_def by (rule refl)

text \<open>
  C12. What a run of a valid graph does. The boxes executed form a trace without repetition, each after
  the first at the end of an edge that an earlier box of the trace fired, and at most
  \<open>max 1 maxSteps\<close> of them. If the run succeeds, exactly the boxes that the fired ports reach from the
  start were executed and the final state is that of the trace. The step limit is reported only
  after that many boxes and only if the graph has more; any other error is the context's or that of
  the next box, and nothing runs after it.
\<close>

theorem runGraph_executes_activated_boxes:
  assumes "validateGraph g = (None :: 'e graph_error option)" "start \<in> boxID ` set (Boxes g)"
    and "runGraph g start exec ctx_err maxSteps s = (r :: 'e graph_error option, s')"
  shows "\<exists>tr s1. replay g exec ctx_err s tr = Some s1 \<and> distinct (map fst tr) \<and> caused g start [] tr \<and>
           int (length tr) \<le> max 1 maxSteps \<and> outcome g start exec ctx_err (max 1 maxSteps) tr s1 r s'"
  using assms(1) by (intro runGraph_run [OF _ assms(2,3)]) (simp only: validateGraph_iff)

text \<open>
  A diamond: \<open>a\<close> fires \<open>out\<close> to \<open>b\<close> and \<open>c\<close>, both lead to \<open>d\<close>; \<open>a\<close> has an error edge to \<open>x\<close>.
\<close>

definition demo_box :: "string \<Rightarrow> jsval" where
  "demo_box i = Obj [(''id'', Str i), (''type'', Str ''noop'')]"

definition demo_edge :: "string \<Rightarrow> string \<Rightarrow> jsval" where
  "demo_edge f t = Obj [(''from'', Str f), (''to'', Str t)]"

definition demo_graph :: graph where
  "demo_graph = \<lparr>Boxes = map demo_box [''a'', ''b'', ''c'', ''d'', ''x''],
     Edges = [demo_edge ''a'' ''b'', demo_edge ''a'' ''c'', demo_edge ''b'' ''d'', demo_edge ''c'' ''d'',
              demo_edge ''a:error'' ''x'']\<rparr>"

definition demo_exec :: "jsval \<Rightarrow> string \<Rightarrow> (unit + string) \<times> string" where
  "demo_exec b log = (Inr ''out'', log @ boxID b)"

lemma demo_valid: "validateGraph demo_graph = (None :: unit graph_error option)"
  by code_simp

lemma demo_run: "runGraph demo_graph ''a'' demo_exec (\<lambda>_. None) 10 '''' = (None, ''abcd'')"
  by code_simp

theorem runGraph_executes_activated_boxes_witness:
  "\<exists>tr s1. replay demo_graph demo_exec (\<lambda>_. None) '''' tr = Some s1 \<and> distinct (map fst tr) \<and>
     caused demo_graph ''a'' [] tr \<and> int (length tr) \<le> 10 \<and>
     outcome demo_graph ''a'' demo_exec (\<lambda>_. None) 10 tr s1 None ''abcd''"
proof -
  have "''a'' \<in> boxID ` set (Boxes demo_graph)" by code_simp
  from runGraph_executes_activated_boxes [OF demo_valid this demo_run] show ?thesis by simp
qed

text \<open>
  C23. A run of a valid graph completes when nothing stands in its way: if every box fires some port, the
  context is not cancelled and the step limit is at least the number of boxes, then \<^verbatim>\<open>runGraph\<close> returns
  without an error.
\<close>

theorem runGraph_completes:
  assumes "validateGraph g = (None :: 'e graph_error option)" "start \<in> boxID ` set (Boxes g)"
    and "\<And>b s. \<exists>port s'. exec b s = (Inr port :: 'e + string, s')"
    and "int (length (Boxes g)) \<le> maxSteps"
  shows "\<exists>s'. runGraph g start exec (\<lambda>_. None) maxSteps s = (None, s')"
proof -
  obtain r s' where r: "runGraph g start exec (\<lambda>_. None) maxSteps s = (r, s')" by force
  with assms(1,2) obtain tr s1 where out: "outcome g start exec (\<lambda>_. None) (max 1 maxSteps) tr s1 r s'"
    using runGraph_run [of g start exec] unfolding validateGraph_iff by blast
  have "card (boxID ` set (Boxes g)) \<le> length (Boxes g)"
    using card_image_le [of "set (Boxes g)" boxID] card_length [of "Boxes g"] by simp
  moreover have "exec b s \<noteq> (Inl err, s')" for b s err s' using assms(3) [of b s] by auto
  ultimately have "r = None"
    using out assms(4) by (auto simp: outcome_def split: option.splits graph_error.splits)
  with r show ?thesis by blast
qed

theorem runGraph_completes_witness:
  "\<exists>s'. runGraph demo_graph ''a'' demo_exec (\<lambda>_. None) 5 '''' = (None, s')"
  by (rule runGraph_completes [OF demo_valid]) (code_simp, simp_all add: demo_exec_def demo_graph_def)

text \<open>
  On a valid graph \<^verbatim>\<open>findTriggerBox\<close> returns nothing only when there is no box; otherwise it returns a
  box of the graph whose type is a preferred one or that no edge leads to. The last resort of the
  source, the first box, is never a box with an inbound edge, because an acyclic graph has a source.
\<close>

theorem findTriggerBox_finds_source:
  assumes "validateGraph g = (None :: 'e graph_error option)"
  shows "case findTriggerBox g prefer of
           None \<Rightarrow> Boxes g = []
         | Some b \<Rightarrow> b \<in> set (Boxes g) \<and>
             ((case prefer of Some p \<Rightarrow> p (boxType b) | None \<Rightarrow> False) \<or> boxID b \<notin> edgeToBox ` set (Edges g))"
proof -
  have ok: "graph_ok g" using assms by (simp only: validateGraph_iff)
  then have id: "jsString (field b ''id'') = boxID b" if "b \<in> set (Boxes g)" for b
    using that by (auto simp: graph_ok_def list_all_iff intro: jsString_good_id)
  have ty: "boxType b = t" if "as_str (field b ''type'') = Some t" for b t
    using that by (simp add: boxType_def str_or_empty_def)
  let ?typed = "case prefer of None \<Rightarrow> None
    | Some p \<Rightarrow> find (\<lambda>b. case as_str (field b ''type'') of Some t \<Rightarrow> p t | None \<Rightarrow> False) (Boxes g)"
  let ?free = "find (\<lambda>b. jsString (field b ''id'') \<notin> edgeToBox ` set (Edges g)) (Boxes g)"
  show ?thesis
  proof (cases ?typed)
    case (Some b)
    then have "b \<in> set (Boxes g)" "case prefer of Some p \<Rightarrow> p (boxType b) | None \<Rightarrow> False"
      by (auto dest!: find_SomeD simp: ty split: option.splits)
    with Some show ?thesis by (simp add: findTriggerBox_def)
  next
    case None
    show ?thesis
    proof (cases ?free)
      case (Some b)
      from find_SomeD [OF Some] have "b \<in> set (Boxes g)" "boxID b \<notin> edgeToBox ` set (Edges g)"
        using id by auto
      with Some None show ?thesis by (simp add: findTriggerBox_def)
    next
      case free: None
      then have "Boxes g = []" using source_box [OF ok] by (auto simp: find_None_iff id)
      with None show ?thesis by (simp add: findTriggerBox_def)
    qed
  qed
qed

theorem findTriggerBox_finds_source_witness:
  "findTriggerBox demo_graph None = Some (demo_box ''a'') \<and> ''a'' \<notin> edgeToBox ` set (Edges demo_graph)"
proof -
  have f: "findTriggerBox demo_graph None = Some (demo_box ''a'')" by code_simp
  have "boxID (demo_box ''a'') = ''a''" by code_simp
  then show ?thesis using findTriggerBox_finds_source [OF demo_valid, of None] f by simp
qed

end
