(* ===== verification/Go_Crypto.thy ===== *)
theory Go_Crypto
  imports Go_Strings
begin

text \<open>
  SHA-256 as Go's \<^verbatim>\<open>crypto/sha256\<close> computes it (FIPS 180-4) and \<^verbatim>\<open>hex.EncodeToString\<close>. Session
  identifiers and API tokens are stored under the hexadecimal digest of their value.
\<close>

section \<open>SHA-256\<close>

text \<open>
  The constants are those of the standard: the first 32 bits of the fractional parts of the cube roots
  of the first 64 primes and of the square roots of the first eight.
\<close>

definition small_primes :: "int list" where
  "small_primes = filter (\<lambda>n. list_all (\<lambda>d. n mod d \<noteq> 0) [2 .. n - 1]) [2 .. 311]"

text \<open>The largest \<open>x < 2\<^sup>3\<^sup>5\<close> with \<open>x\<^sup>e \<le> n\<close>, bit by bit.\<close>

definition int_root :: "nat \<Rightarrow> int \<Rightarrow> int" where
  "int_root e n = foldl (\<lambda>x k. if (x + 2 ^ k) ^ e \<le> n then x + 2 ^ k else x) 0 (rev [0 ..< 35])"

definition root_fraction :: "nat \<Rightarrow> int \<Rightarrow> u32" where
  "root_fraction e p = word_of_int (int_root e (p * 2 ^ (32 * e)))"

definition sha_k :: "u32 list" where
  "sha_k = map (root_fraction 3) small_primes"

definition sha_init :: "u32 list" where
  "sha_init = map (root_fraction 2) [2, 3, 5, 7, 11, 13, 17, 19]"

definition sha_ch :: "u32 \<Rightarrow> u32 \<Rightarrow> u32 \<Rightarrow> u32" where
  "sha_ch x y z = (x AND y) XOR (NOT x AND z)"

definition sha_maj :: "u32 \<Rightarrow> u32 \<Rightarrow> u32 \<Rightarrow> u32" where
  "sha_maj x y z = (x AND y) XOR (x AND z) XOR (y AND z)"

definition sha_rot3 :: "nat \<Rightarrow> nat \<Rightarrow> nat \<Rightarrow> u32 \<Rightarrow> u32" where
  "sha_rot3 a b c x = word_rotr a x XOR word_rotr b x XOR word_rotr c x"

definition sha_rot2 :: "nat \<Rightarrow> nat \<Rightarrow> nat \<Rightarrow> u32 \<Rightarrow> u32" where
  "sha_rot2 a b c x = word_rotr a x XOR word_rotr b x XOR drop_bit c x"

text \<open>The message schedule: sixteen words extended by \<open>n\<close> more.\<close>

fun sha_schedule :: "nat \<Rightarrow> u32 list \<Rightarrow> u32 list" where
  "sha_schedule 0 w = w"
| "sha_schedule (Suc n) w =
     (let t = length w
      in sha_schedule n
           (w @ [sha_rot2 17 19 10 (w ! (t - 2)) + w ! (t - 7) + sha_rot2 7 18 3 (w ! (t - 15)) + w ! (t - 16)]))"

fun sha_round :: "u32 list \<Rightarrow> u32 \<times> u32 \<Rightarrow> u32 list" where
  "sha_round [a, b, c, d, e, f, g, h] (k, w) =
     (let t1 = h + sha_rot3 6 11 25 e + sha_ch e f g + k + w;
          t2 = sha_rot3 2 13 22 a + sha_maj a b c
      in [t1 + t2, a, b, c, d + t1, e, f, g])"
| "sha_round hs _ = hs"

definition sha_block :: "u32 list \<Rightarrow> u32 list \<Rightarrow> u32 list" where
  "sha_block hs blk = map2 (+) hs (foldl sha_round hs (zip sha_k (sha_schedule 48 blk)))"

fun sha_words :: "bytes \<Rightarrow> u32 list" where
  "sha_words (a # b # c # d # bs) =
     (push_bit 24 (ucast a) OR push_bit 16 (ucast b) OR push_bit 8 (ucast c) OR ucast d) # sha_words bs"
| "sha_words _ = []"

function sha_blocks :: "u32 list \<Rightarrow> u32 list \<Rightarrow> u32 list" where
  "sha_blocks hs ws = (if ws = [] then hs else sha_blocks (sha_block hs (take 16 ws)) (drop 16 ws))"
  by pat_completeness auto

termination sha_blocks
  by (relation "measure (\<lambda>(_, ws). length ws)") auto

declare sha_blocks.simps [simp del]

definition sha_pad :: "bytes \<Rightarrow> bytes" where
  "sha_pad m =
     (let bits = word_of_nat (8 * length m) :: u64;
          zeros = (119 - length m mod 64) mod 64
      in m @ [0x80] @ replicate zeros 0 @ map (\<lambda>i. ucast (drop_bit (56 - 8 * i) bits)) [0 ..< 8])"

definition sha_bytes :: "u32 \<Rightarrow> bytes" where
  "sha_bytes w = [ucast (drop_bit 24 w), ucast (drop_bit 16 w), ucast (drop_bit 8 w), ucast w]"

definition bytes_of :: "string \<Rightarrow> bytes" where
  "bytes_of s = map of_char s"

definition Sum256 :: "string \<Rightarrow> bytes" where
  "Sum256 s = concat (map sha_bytes (sha_blocks sha_init (sha_words (sha_pad (bytes_of s)))))"

section \<open>Hexadecimal text\<close>

definition hex_char :: "nat \<Rightarrow> char" where
  "hex_char d = (if d < 10 then char_of (48 + d) else char_of (87 + d))"

definition EncodeToString :: "bytes \<Rightarrow> string" where
  "EncodeToString bs = concat (map (\<lambda>b. [hex_char (unat b div 16), hex_char (unat b mod 16)]) bs)"

lemma length_EncodeToString [simp]: "length (EncodeToString bs) = 2 * length bs"
  by (induction bs) (auto simp: EncodeToString_def)

section \<open>Sizes\<close>

lemma length_sha_round [simp]: "length (sha_round hs kw) = length hs"
  by (induction hs kw rule: sha_round.induct) (auto simp: Let_def)

lemma length_foldl_sha_round [simp]: "length (foldl sha_round hs kws) = length hs"
  by (induction kws arbitrary: hs) auto

lemma length_sha_block [simp]: "length (sha_block hs blk) = length hs"
  by (simp add: sha_block_def)

lemma length_sha_blocks [simp]: "length (sha_blocks hs ws) = length hs"
proof (induction hs ws rule: sha_blocks.induct)
  case (1 hs ws)
  then show ?case by (subst sha_blocks.simps) simp
qed

lemma length_Sum256 [simp]: "length (Sum256 s) = 32"
proof -
  have "length (concat (map sha_bytes ws)) = 4 * length ws" for ws
    by (induction ws) (auto simp: sha_bytes_def)
  moreover have "length sha_init = 8"
    by (simp add: sha_init_def)
  ultimately show ?thesis by (simp add: Sum256_def)
qed

end
