(* ===== verification/Go_Map.thy ===== *)
theory Go_Map
  imports Prelude "HOL-Library.AList" "HOL-Library.Multiset"
begin

text \<open>
  Go maps as association lists. \<^verbatim>\<open>m[k] = v\<close> is \<open>AList.update\<close>, \<^verbatim>\<open>delete(m, k)\<close> is \<open>AList.delete\<close>, \<^verbatim>\<open>m[k]\<close> is
  \<open>map_of\<close>. The language does not fix the order in which \<^verbatim>\<open>range\<close> walks a map: an operation that may
  depend on it takes a function \<open>ord\<close> that permutes the list.
\<close>

definition permutes :: "('a list \<Rightarrow> 'a list) \<Rightarrow> bool" where
  "permutes ord \<longleftrightarrow> (\<forall>xs. mset (ord xs) = mset xs)"

lemma permutes_set: "permutes ord \<Longrightarrow> set (ord xs) = set xs"
  unfolding permutes_def by (metis mset_eq_setD)

lemma permutes_rev [simp]: "permutes rev"
  by (simp add: permutes_def)

lemma map_of_filter_distinct:
  "distinct (map fst m) \<Longrightarrow> map_of (filter Q m) k = Some x \<Longrightarrow> map_of m k = Some x \<and> Q (k, x)"
  by (drule map_of_SomeD) auto

lemma map_of_filter:
  "distinct (map fst m) \<Longrightarrow>
   map_of (filter Q m) k = (case map_of m k of Some x \<Rightarrow> if Q (k, x) then Some x else None | None \<Rightarrow> None)"
  by (induction m) (auto split: option.splits simp: image_iff dest: map_of_SomeD)

lemma length_update_le: "length (AList.update k v m) \<le> Suc (length m)"
  by (induction m) auto

lemma length_update_same: "map_of m k = Some x \<Longrightarrow> length (AList.update k v m) = length m"
  by (induction m) (auto split: if_splits)

end
