(* ===== verification/Enc_Session.thy ===== *)
theory Enc_Session
  imports Go_Crypto Go_Map
begin

text \<open>
  The in-memory session store of the encoder's web UI
  (\<^verbatim>\<open>streamhub-encoder/internal/auth/session.go\<close>). A Go map is the list of its pairs; the order in
  which \<^verbatim>\<open>range\<close> walks it is an argument \<open>ord\<close> of the operations that depend on it, any function that
  permutes its argument. Times are nanoseconds as \<open>int\<close>; the zero \<^verbatim>\<open>time.Time\<close> of the last sweep is
  \<open>None\<close>, for which \<^verbatim>\<open>now.Sub\<close> is larger than any interval the code compares it with.
\<close>

section \<open>The store\<close>

definition minute :: int where
  "minute = 60 * 1000000000"

definition maxSessionsPerUser :: nat where
  "maxSessionsPerUser = 32"

definition maxSessionsTotal :: nat where
  "maxSessionsTotal = 10000"

record session =
  s_user :: string
  s_created :: int
  s_lastSeen :: int

record sessionStore =
  sess_m :: "(string \<times> session) list"
  sess_idle :: int
  sess_max :: int
  sess_lastSweep :: "int option"

type_synonym sess_order = "(string \<times> session) list \<Rightarrow> (string \<times> session) list"

definition newSessionStore :: "int \<Rightarrow> int \<Rightarrow> sessionStore" where
  "newSessionStore idle mx = \<lparr>sess_m = [], sess_idle = idle, sess_max = mx, sess_lastSweep = None\<rparr>"

definition sessionKey :: "string \<Rightarrow> string" where
  "sessionKey sid = EncodeToString (Sum256 sid)"

definition expired :: "sessionStore \<Rightarrow> session \<Rightarrow> int \<Rightarrow> bool" where
  "expired s x now = (now - s_lastSeen x > sess_idle s \<or> now - s_created x > sess_max s)"

text \<open>One walk over the map: the number of matching sessions and the least recently seen of them.\<close>

definition oldest_step :: "(session \<Rightarrow> bool) \<Rightarrow> nat \<times> string \<times> int \<Rightarrow> string \<times> session \<Rightarrow> nat \<times> string \<times> int" where
  "oldest_step match acc kx =
     (case (acc, kx) of ((n, oldestK, oldest), (k, x)) \<Rightarrow>
        if \<not> match x then acc
        else (n + 1, if oldestK = [] \<or> s_lastSeen x < oldest then (k, s_lastSeen x) else (oldestK, oldest)))"

text \<open>The loop of \<^verbatim>\<open>evictLocked\<close>; not returning is \<open>None\<close>.\<close>

partial_function (option) evict_loop ::
    "sess_order \<Rightarrow> (session \<Rightarrow> bool) \<Rightarrow> nat \<Rightarrow> (string \<times> session) list \<Rightarrow> (string \<times> session) list option" where
  [code]: "evict_loop ord match limit m =
     (case foldl (oldest_step match) (0, [], 0) (ord m) of
        (n, oldestK, _) \<Rightarrow>
          if n < limit then Some m
          else evict_loop ord match limit (AList.delete oldestK m))"

definition evictLocked :: "sess_order \<Rightarrow> (session \<Rightarrow> bool) \<Rightarrow> nat \<Rightarrow> sessionStore \<Rightarrow> sessionStore option" where
  "evictLocked ord match limit s = map_option (\<lambda>m. s\<lparr>sess_m := m\<rparr>) (evict_loop ord match limit (sess_m s))"

definition sweepLocked :: "int \<Rightarrow> sessionStore \<Rightarrow> sessionStore" where
  "sweepLocked now s =
     s\<lparr>sess_m := filter (\<lambda>(k, x). \<not> expired s x now) (sess_m s), sess_lastSweep := Some now\<rparr>"

definition sweep_due :: "int \<Rightarrow> sessionStore \<Rightarrow> bool" where
  "sweep_due now s =
     ((case sess_lastSweep s of None \<Rightarrow> True | Some t \<Rightarrow> now - t > minute) \<or>
      length (sess_m s) \<ge> maxSessionsTotal)"

text \<open>\<^verbatim>\<open>create\<close>, with the random identifier drawn as an argument; it returns that identifier.\<close>

definition create :: "sess_order \<Rightarrow> string \<Rightarrow> int \<Rightarrow> string \<Rightarrow> sessionStore \<Rightarrow> sessionStore option" where
  "create ord sid now user s =
     (let s1 = (if sweep_due now s then sweepLocked now s else s)
      in do {
        s2 \<leftarrow> evictLocked ord (\<lambda>x. s_user x = user) maxSessionsPerUser s1;
        s3 \<leftarrow> evictLocked ord (\<lambda>_. True) maxSessionsTotal s2;
        Some (s3\<lparr>sess_m := AList.update (sessionKey sid)
                  \<lparr>s_user = user, s_created = now, s_lastSeen = now\<rparr> (sess_m s3)\<rparr>)
      })"

definition get :: "string \<Rightarrow> int \<Rightarrow> sessionStore \<Rightarrow> string option \<times> sessionStore" where
  "get sid now s =
     (if sid = [] then (None, s)
      else case map_of (sess_m s) (sessionKey sid) of
        None \<Rightarrow> (None, s)
      | Some x \<Rightarrow>
          if expired s x now then (None, s\<lparr>sess_m := AList.delete (sessionKey sid) (sess_m s)\<rparr>)
          else (Some (s_user x),
                s\<lparr>sess_m := AList.update (sessionKey sid) (x\<lparr>s_lastSeen := now\<rparr>) (sess_m s)\<rparr>))"

definition delete_session :: "string \<Rightarrow> sessionStore \<Rightarrow> sessionStore" where
  "delete_session sid s = s\<lparr>sess_m := AList.delete (sessionKey sid) (sess_m s)\<rparr>"

definition deleteUser :: "string \<Rightarrow> string \<Rightarrow> sessionStore \<Rightarrow> sessionStore" where
  "deleteUser user keepID s =
     (let keep = (if keepID \<noteq> [] then sessionKey keepID else [])
      in s\<lparr>sess_m := filter (\<lambda>(k, x). \<not> (s_user x = user \<and> k \<noteq> keep)) (sess_m s)\<rparr>)"

definition count :: "sessionStore \<Rightarrow> nat" where
  "count s = length (sess_m s)"

section \<open>Eviction\<close>

definition matching :: "(session \<Rightarrow> bool) \<Rightarrow> (string \<times> session) list \<Rightarrow> (string \<times> session) list" where
  "matching P m = filter (\<lambda>(k, x). P x) m"

lemma sessionKey_not_Nil [simp]: "sessionKey sid \<noteq> []"
proof -
  have "length (sessionKey sid) = 64" by (simp add: sessionKey_def)
  then show ?thesis by auto
qed

lemma Nil_not_sessionKey [simp]: "[] \<noteq> sessionKey sid"
  by (rule sessionKey_not_Nil [symmetric])

text \<open>The walk finds a least recently seen session among those that match.\<close>

lemma oldest_fold:
  assumes "[] \<notin> fst ` set xs" "(n, k, t) = foldl (oldest_step P) (n0, k0, t0) xs"
  shows "n = n0 + length (matching P xs) \<and>
         (if k0 = [] \<and> matching P xs = [] then k = [] \<and> t = t0
          else (k = k0 \<and> t = t0 \<and> k0 \<noteq> [] \<or> (\<exists>x. (k, x) \<in> set (matching P xs) \<and> s_lastSeen x = t)) \<and>
               (k0 \<noteq> [] \<longrightarrow> t \<le> t0) \<and> (\<forall>(k', x) \<in> set (matching P xs). t \<le> s_lastSeen x))"
  using assms
proof (induction xs arbitrary: n0 k0 t0)
  case Nil
  then show ?case by (auto simp: matching_def)
next
  case (Cons kx xs)
  obtain k1 x1 where kx: "kx = (k1, x1)" by force
  then have k1: "k1 \<noteq> []" using Cons.prems(1) by auto
  show ?case
  proof (cases "P x1")
    case False
    then have "oldest_step P (n0, k0, t0) kx = (n0, k0, t0)" by (simp add: oldest_step_def kx)
    moreover have "matching P (kx # xs) = matching P xs" using False by (simp add: matching_def kx)
    ultimately show ?thesis using Cons by simp
  next
    case True
    let ?c = "k0 = [] \<or> s_lastSeen x1 < t0"
    let ?k = "if ?c then k1 else k0" and ?t = "if ?c then s_lastSeen x1 else t0"
    have "oldest_step P (n0, k0, t0) kx = (n0 + 1, ?k, ?t)" using True by (simp add: oldest_step_def kx)
    with Cons.prems have "(n, k, t) = foldl (oldest_step P) (n0 + 1, ?k, ?t) xs" by simp
    moreover have "[] \<notin> fst ` set xs" using Cons.prems(1) by simp
    moreover have "?k \<noteq> []" using k1 by simp
    moreover have "matching P (kx # xs) = (k1, x1) # matching P xs" using True by (simp add: matching_def kx)
    ultimately show ?thesis using Cons.IH [of "n0 + 1" ?k ?t] by (auto split: if_splits)
  qed
qed

definition lru_evicted :: "(session \<Rightarrow> bool) \<Rightarrow> (string \<times> session) list \<Rightarrow> (string \<times> session) list \<Rightarrow> bool" where
  "lru_evicted P m m' \<longleftrightarrow>
     (\<exists>gone. m' = filter (\<lambda>p. p \<notin> gone) m \<and> gone \<subseteq> set (matching P m) \<and>
        (\<forall>(k, x) \<in> gone. \<forall>(k', x') \<in> set (matching P m'). s_lastSeen x \<le> s_lastSeen x'))"

lemma matching_perm:
  assumes "permutes ord"
  shows "set (matching P (ord m)) = set (matching P m)" "length (matching P (ord m)) = length (matching P m)"
proof -
  have "mset (matching P (ord m)) = mset (matching P m)"
    using assms by (simp add: permutes_def matching_def mset_filter)
  then show "set (matching P (ord m)) = set (matching P m)" "length (matching P (ord m)) = length (matching P m)"
    by (metis mset_eq_setD, metis mset_eq_length)
qed

lemma keys_perm: "permutes ord \<Longrightarrow> fst ` set (ord m) = fst ` set m"
  unfolding permutes_def by (metis mset_eq_setD)

text \<open>One round of the loop: nothing to do, or a least recently seen matching session goes.\<close>

lemma evict_round:
  assumes "permutes ord" "[] \<notin> fst ` set m" "0 < limit"
  obtains (stop) "length (matching P m) < limit" "evict_loop ord P limit m = Some m"
  | (drop) k x where "limit \<le> length (matching P m)" "(k, x) \<in> set (matching P m)"
      "\<And>k' x'. (k', x') \<in> set (matching P m) \<Longrightarrow> s_lastSeen x \<le> s_lastSeen x'"
      "evict_loop ord P limit m = evict_loop ord P limit (AList.delete k m)"
proof -
  obtain n k t where f: "foldl (oldest_step P) (0, [], 0) (ord m) = (n, k, t)" by (metis prod_cases3)
  note fold = oldest_fold [of "ord m" n k t P 0 "[]" 0, unfolded keys_perm [OF assms(1)] matching_perm [OF assms(1)],
      OF assms(2) f [symmetric]]
  then have n: "n = length (matching P m)" by simp
  show thesis
  proof (cases "n < limit")
    case True
    with f n show thesis by (intro stop) (simp_all add: evict_loop.simps [of ord P limit m])
  next
    case False
    with n assms(3) have "matching P (ord m) \<noteq> []"
      using matching_perm(2) [OF assms(1), of P m] by auto
    then obtain x where "(k, x) \<in> set (matching P m)" "s_lastSeen x = t"
      "\<forall>(k', x') \<in> set (matching P m). t \<le> s_lastSeen x'"
      using fold by auto
    with False f n show thesis by (intro drop [of k x]) (auto simp: evict_loop.simps [of ord P limit m])
  qed
qed

lemma delete_one:
  assumes "distinct (map fst m)" "(k, x) \<in> set m"
  shows "AList.delete k m = filter (\<lambda>p. p \<noteq> (k, x)) m"
proof -
  have "p \<noteq> (k, x) \<longleftrightarrow> fst p \<noteq> k" if "p \<in> set m" for p
    using assms that eq_key_imp_eq_value [of m k] by (cases p) auto
  then show ?thesis unfolding AList.delete_eq by (intro filter_cong) auto
qed

lemma matching_delete:
  assumes "distinct (map fst m)" "(k, x) \<in> set (matching P m)"
  shows "matching P (AList.delete k m) = filter (\<lambda>p. p \<noteq> (k, x)) (matching P m)"
    and "Suc (length (matching P (AList.delete k m))) = length (matching P m)"
proof -
  have m: "(k, x) \<in> set m" using assms(2) by (auto simp: matching_def)
  show eq: "matching P (AList.delete k m) = filter (\<lambda>p. p \<noteq> (k, x)) (matching P m)"
    unfolding delete_one [OF assms(1) m] matching_def by (simp add: conj_commute)
  have d: "distinct (matching P m)" using assms(1) by (simp add: matching_def distinct_map)
  have "filter (\<lambda>p. p \<noteq> (k, x)) (matching P m) = remove1 (k, x) (matching P m)"
    unfolding distinct_remove1_removeAll [OF d] removeAll_filter_not_eq by (rule filter_cong) auto
  then show "Suc (length (matching P (AList.delete k m))) = length (matching P m)"
    unfolding eq using assms(2) length_pos_if_in_set [OF assms(2)] by (simp add: length_remove1)
qed

lemma evict_result:
  assumes "permutes ord" "0 < limit" "distinct (map fst m)" "[] \<notin> fst ` set m"
  shows "\<exists>m'. evict_loop ord P limit m = Some m' \<and> lru_evicted P m m' \<and>
           length (matching P m') = min (length (matching P m)) (limit - 1)"
  using assms(3,4)
proof (induction "length (matching P m)" arbitrary: m rule: less_induct)
  case less
  from assms(1) less.prems(2) assms(2) show ?case
  proof (cases rule: evict_round [of ord m limit P])
    case stop
    then show ?thesis
      by (intro exI [of _ m]) (auto simp: lru_evicted_def intro!: exI [of _ "{}"])
  next
    case (drop k x)
    have kx: "(k, x) \<in> set m" using drop(2) by (auto simp: matching_def)
    let ?m = "AList.delete k m"
    have "distinct (map fst ?m)" "[] \<notin> fst ` set ?m" using less.prems by (auto simp: AList.delete_eq distinct_map_filter)
    moreover note len = matching_delete(2) [OF less.prems(1) drop(2)]
    moreover from len have "length (matching P ?m) < length (matching P m)" by simp
    ultimately obtain m' where m': "evict_loop ord P limit ?m = Some m'" "lru_evicted P ?m m'"
      "length (matching P m') = min (length (matching P ?m)) (limit - 1)"
      using less.hyps [of ?m] by blast
    from m'(2) obtain gone where gone: "m' = filter (\<lambda>p. p \<notin> gone) ?m" "gone \<subseteq> set (matching P ?m)"
      "\<forall>(k, x) \<in> gone. \<forall>(k', x') \<in> set (matching P m'). s_lastSeen x \<le> s_lastSeen x'"
      by (auto simp: lru_evicted_def)
    have sub: "set (matching P m') \<subseteq> set (matching P m)"
      using gone(1) by (auto simp: matching_def AList.delete_eq)
    have "lru_evicted P m m'"
      unfolding lru_evicted_def
    proof (intro exI [of _ "insert (k, x) gone"] conjI)
      show "m' = filter (\<lambda>p. p \<notin> insert (k, x) gone) m"
        unfolding gone(1) delete_one [OF less.prems(1) kx] by (auto intro: filter_cong)
      show "insert (k, x) gone \<subseteq> set (matching P m)"
        using gone(2) drop(2) matching_delete(1) [OF less.prems(1) drop(2)] by auto
      show "\<forall>(k, x) \<in> insert (k, x) gone. \<forall>(k', x') \<in> set (matching P m'). s_lastSeen x \<le> s_lastSeen x'"
        using gone(3) drop(3) sub by blast
    qed
    with m'(1,3) drop(1,4) len show ?thesis by (intro exI [of _ m']) auto
  qed
qed

section \<open>The invariant\<close>

definition sess_ok :: "sessionStore \<Rightarrow> bool" where
  "sess_ok s \<longleftrightarrow>
     distinct (map fst (sess_m s)) \<and> [] \<notin> fst ` set (sess_m s) \<and>
     (\<forall>u. length (matching (\<lambda>x. s_user x = u) (sess_m s)) \<le> maxSessionsPerUser) \<and>
     length (sess_m s) \<le> maxSessionsTotal"

lemma matching_True [simp]: "matching (\<lambda>_. True) m = m"
  by (simp add: matching_def case_prod_unfold)

lemma matching_filter_le: "length (matching P (filter Q m)) \<le> length (matching P m)"
  unfolding matching_def filter_filter by (induction m) auto

lemma sess_ok_filter: "sess_ok s \<Longrightarrow> sess_ok (s\<lparr>sess_m := filter Q (sess_m s)\<rparr>)"
  unfolding sess_ok_def
  by (auto simp: distinct_map_filter intro: order_trans [OF matching_filter_le] order_trans [OF length_filter_le])

lemma sess_ok_delete: "sess_ok s \<Longrightarrow> sess_ok (s\<lparr>sess_m := AList.delete k (sess_m s)\<rparr>)"
  unfolding AList.delete_eq by (rule sess_ok_filter)

lemma sess_ok_sweep [simp]: "sess_ok (s\<lparr>sess_m := m, sess_lastSweep := t\<rparr>) = sess_ok (s\<lparr>sess_m := m\<rparr>)"
  by (simp add: sess_ok_def)

lemma matching_update_le:
  "length (matching P (AList.update k v m)) \<le> length (matching P m) + (if P v then 1 else 0)"
  by (induction m) (auto simp: matching_def)

lemma matching_update_same:
  assumes "map_of m k = Some x" "P v = P x"
  shows "length (matching P (AList.update k v m)) = length (matching P m)"
  using assms by (induction m) (auto simp: matching_def split: if_splits)

lemma sess_ok_refresh:
  assumes "sess_ok s" "map_of (sess_m s) k = Some x" "k \<noteq> []"
  shows "sess_ok (s\<lparr>sess_m := AList.update k (x\<lparr>s_lastSeen := t\<rparr>) (sess_m s)\<rparr>)"
  using assms matching_update_same [OF assms(2)] length_update_same [OF assms(2)]
  by (auto simp: sess_ok_def distinct_update dom_update)

lemma sess_ok_get: "sess_ok s \<Longrightarrow> sess_ok (snd (get sid now s))"
  by (auto simp: get_def sess_ok_delete sess_ok_refresh split: option.splits)

lemma evict_ok:
  assumes "sess_ok s" "permutes ord" "0 < limit"
  shows "\<exists>m'. evictLocked ord P limit s = Some (s\<lparr>sess_m := m'\<rparr>) \<and> sess_ok (s\<lparr>sess_m := m'\<rparr>) \<and>
           lru_evicted P (sess_m s) m' \<and> length (matching P m') = min (length (matching P (sess_m s))) (limit - 1)"
proof -
  obtain m' where m': "evict_loop ord P limit (sess_m s) = Some m'" "lru_evicted P (sess_m s) m'"
    "length (matching P m') = min (length (matching P (sess_m s))) (limit - 1)"
    using evict_result [OF assms(2,3), of "sess_m s" P] assms(1) by (auto simp: sess_ok_def)
  moreover from m'(2) have "sess_ok (s\<lparr>sess_m := m'\<rparr>)"
    unfolding lru_evicted_def using sess_ok_filter [OF assms(1)] by blast
  ultimately show ?thesis by (auto simp: evictLocked_def)
qed

lemma lru_map_of:
  assumes "lru_evicted P m m'" "distinct (map fst m)" "map_of m' k = Some x"
  shows "map_of m k = Some x"
proof -
  have "(k, x) \<in> set m'" using assms(3) by (rule map_of_SomeD)
  then have "(k, x) \<in> set m" using assms(1) by (auto simp: lru_evicted_def)
  with assms(2) show ?thesis by simp
qed

text \<open>\<^verbatim>\<open>create\<close> always returns; it keeps the invariant, stores the session and invents nothing else.\<close>

lemma create_total:
  assumes "sess_ok s" "permutes ord"
  shows "\<exists>s'. create ord sid now user s = Some s' \<and> sess_ok s' \<and>
           sess_idle s' = sess_idle s \<and> sess_max s' = sess_max s \<and>
           map_of (sess_m s') (sessionKey sid) = Some \<lparr>s_user = user, s_created = now, s_lastSeen = now\<rparr> \<and>
           (\<forall>k x. k \<noteq> sessionKey sid \<longrightarrow> map_of (sess_m s') k = Some x \<longrightarrow> map_of (sess_m s) k = Some x)"
proof -
  let ?s1 = "if sweep_due now s then sweepLocked now s else s"
  let ?x = "\<lparr>s_user = user, s_created = now, s_lastSeen = now\<rparr>"
  have s1: "sess_ok ?s1" using assms(1) by (simp add: sweepLocked_def sess_ok_filter)
  obtain m2 where m2: "evictLocked ord (\<lambda>x. s_user x = user) maxSessionsPerUser ?s1 = Some (?s1\<lparr>sess_m := m2\<rparr>)"
    "sess_ok (?s1\<lparr>sess_m := m2\<rparr>)" "lru_evicted (\<lambda>x. s_user x = user) (sess_m ?s1) m2"
    "length (matching (\<lambda>x. s_user x = user) m2) \<le> 31"
    using evict_ok [OF s1 assms(2), of maxSessionsPerUser "\<lambda>x. s_user x = user"]
    by (auto simp: maxSessionsPerUser_def)
  obtain m3 where m3: "evictLocked ord (\<lambda>_. True) maxSessionsTotal (?s1\<lparr>sess_m := m2\<rparr>) = Some (?s1\<lparr>sess_m := m3\<rparr>)"
    "sess_ok (?s1\<lparr>sess_m := m3\<rparr>)" "lru_evicted (\<lambda>_. True) m2 m3" "length m3 \<le> 9999"
    using evict_ok [OF m2(2) assms(2), of maxSessionsTotal "\<lambda>_. True"] by (auto simp: maxSessionsTotal_def)
  let ?s' = "?s1\<lparr>sess_m := AList.update (sessionKey sid) ?x m3\<rparr>"
  have c: "create ord sid now user s = Some ?s'"
    unfolding create_def Let_def m2(1) by (simp add: m3(1))
  have user3: "length (matching (\<lambda>x. s_user x = user) m3) \<le> 31"
    using m3(3) m2(4) matching_filter_le unfolding lru_evicted_def by (metis order_trans)
  have "length (matching (\<lambda>x. s_user x = u) (AList.update (sessionKey sid) ?x m3)) \<le> maxSessionsPerUser" for u
    using matching_update_le [of "\<lambda>x. s_user x = u" "sessionKey sid" ?x m3] user3 m3(2)
    by (cases "u = user") (auto simp: sess_ok_def maxSessionsPerUser_def dest!: spec [of _ u])
  moreover have "length (AList.update (sessionKey sid) ?x m3) \<le> maxSessionsTotal"
    using length_update_le [of "sessionKey sid" ?x m3] m3(4) by (simp add: maxSessionsTotal_def)
  ultimately have "sess_ok ?s'" using m3(2) by (auto simp: sess_ok_def distinct_update dom_update)
  moreover have "map_of (sess_m s) k = Some x"
    if "k \<noteq> sessionKey sid" "map_of (sess_m ?s') k = Some x" for k x
  proof -
    have "map_of m3 k = Some x" using that by (simp add: update_conv')
    then have "map_of (sess_m ?s1) k = Some x"
      using lru_map_of [OF m3(3)] lru_map_of [OF m2(3)] s1 m2(2) by (simp add: sess_ok_def)
    then have "(k, x) \<in> set (sess_m s)"
      by (auto dest!: map_of_SomeD simp: sweepLocked_def split: if_splits)
    with assms(1) show ?thesis by (simp add: sess_ok_def)
  qed
  ultimately show ?thesis using c by (intro exI [of _ ?s']) (simp add: update_conv' sweepLocked_def)
qed

section \<open>The contract of a session service\<close>

text \<open>
  What the request handlers rely on. \<open>owner s sid\<close> is the account that the store holds for the cookie
  value \<open>sid\<close>, whether or not the session has expired. A lookup returns nobody but the owner; no
  operation but a creation gives a cookie value a new owner; ending a session or all sessions of an
  account removes the owner.
\<close>

datatype 'o sess_event =
    Created 'o string int string
  | Looked string int
  | Ended string
  | EndedAll string

locale session_service =
  fixes invar :: "'s \<Rightarrow> bool"
    and owner :: "'s \<Rightarrow> string \<Rightarrow> string option"
    and valid_order :: "'o \<Rightarrow> bool"
    and mk :: "'o \<Rightarrow> string \<Rightarrow> int \<Rightarrow> string \<Rightarrow> 's \<Rightarrow> 's option"
    and look :: "string \<Rightarrow> int \<Rightarrow> 's \<Rightarrow> string option \<times> 's"
    and drop_one :: "string \<Rightarrow> 's \<Rightarrow> 's"
    and drop_all :: "string \<Rightarrow> 's \<Rightarrow> 's"
  assumes mk_total: "invar s \<Longrightarrow> valid_order ord \<Longrightarrow> \<exists>s'. mk ord sid now u s = Some s'"
    and mk_invar: "invar s \<Longrightarrow> valid_order ord \<Longrightarrow> mk ord sid now u s = Some s' \<Longrightarrow> invar s'"
    and mk_owner: "invar s \<Longrightarrow> valid_order ord \<Longrightarrow> mk ord sid now u s = Some s' \<Longrightarrow>
                   owner s' sid' = Some v \<Longrightarrow> v = u \<or> owner s sid' = Some v"
    and look_invar: "invar s \<Longrightarrow> invar (snd (look sid now s))"
    and look_owner: "invar s \<Longrightarrow> owner (snd (look sid now s)) sid' = Some v \<Longrightarrow> owner s sid' = Some v"
    and look_result: "invar s \<Longrightarrow> fst (look sid now s) = Some v \<Longrightarrow> owner s sid = Some v"
    and drop_one_invar: "invar s \<Longrightarrow> invar (drop_one sid s)"
    and drop_one_owner: "invar s \<Longrightarrow> owner (drop_one sid s) sid' = Some v \<Longrightarrow> owner s sid' = Some v"
    and drop_one_gone: "invar s \<Longrightarrow> owner (drop_one sid s) sid = None"
    and drop_all_invar: "invar s \<Longrightarrow> invar (drop_all u s)"
    and drop_all_owner: "invar s \<Longrightarrow> owner (drop_all u s) sid' = Some v \<Longrightarrow> owner s sid' = Some v \<and> v \<noteq> u"
begin

definition sess_step :: "'o sess_event \<Rightarrow> 's \<Rightarrow> 's option" where
  "sess_step ev s =
     (case ev of
        Created ord sid now u \<Rightarrow> mk ord sid now u s
      | Looked sid now \<Rightarrow> Some (snd (look sid now s))
      | Ended sid \<Rightarrow> Some (drop_one sid s)
      | EndedAll u \<Rightarrow> Some (drop_all u s))"

fun sess_run :: "'o sess_event list \<Rightarrow> 's \<Rightarrow> 's option" where
  "sess_run [] s = Some s"
| "sess_run (ev # evs) s = Option.bind (sess_step ev s) (sess_run evs)"

fun fair :: "'o sess_event \<Rightarrow> bool" where
  "fair (Created ord sid now u) = valid_order ord"
| "fair _ = True"

fun creates_for :: "string \<Rightarrow> 'o sess_event \<Rightarrow> bool" where
  "creates_for u (Created ord sid now v) = (u = v)"
| "creates_for u _ = False"

lemma sess_step_total: "invar s \<Longrightarrow> fair ev \<Longrightarrow> \<exists>s'. sess_step ev s = Some s' \<and> invar s'"
  using look_invar drop_one_invar drop_all_invar
  by (cases ev) (simp_all add: sess_step_def, metis mk_total mk_invar)

lemma sess_run_total: "invar s \<Longrightarrow> list_all fair evs \<Longrightarrow> \<exists>s'. sess_run evs s = Some s' \<and> invar s'"
proof (induction evs arbitrary: s)
  case (Cons ev evs)
  then obtain s1 where "sess_step ev s = Some s1" "invar s1" using sess_step_total by fastforce
  with Cons show ?case by simp
qed simp

lemma sess_step_owner:
  "invar s \<Longrightarrow> fair ev \<Longrightarrow> sess_step ev s = Some s' \<Longrightarrow> \<not> creates_for u ev \<Longrightarrow>
   owner s' sid = Some u \<Longrightarrow> owner s sid = Some u"
  using look_owner drop_one_owner drop_all_owner
  by (cases ev) (simp_all add: sess_step_def, metis mk_owner, auto)

lemma sess_run_owner:
  "invar s \<Longrightarrow> list_all fair evs \<Longrightarrow> sess_run evs s = Some s' \<Longrightarrow> list_all (\<lambda>ev. \<not> creates_for u ev) evs \<Longrightarrow>
   owner s' sid = Some u \<Longrightarrow> owner s sid = Some u"
proof (induction evs arbitrary: s)
  case (Cons ev evs)
  then obtain s1 where s1: "sess_step ev s = Some s1" "sess_run evs s1 = Some s'" "invar s1"
    using sess_step_total [of s ev] by (auto split: Option.bind_splits)
  with Cons have "owner s1 sid = Some u" by auto
  with Cons.prems s1 show ?case using sess_step_owner by auto
qed simp

text \<open>After all sessions of an account are ended, nothing but a new creation brings it back.\<close>

lemma ended_account_stays_out:
  assumes "invar s" "list_all fair evs" "sess_run evs (drop_all u s) = Some s'"
    "list_all (\<lambda>ev. \<not> creates_for u ev) evs"
  shows "fst (look sid now s') \<noteq> Some u"
proof
  assume look: "fst (look sid now s') = Some u"
  have inv: "invar (drop_all u s)" using assms(1) by (rule drop_all_invar)
  have "invar s'" using sess_run_total [OF inv assms(2)] assms(3) by auto
  from look_result [OF this look] have "owner (drop_all u s) sid = Some u"
    using sess_run_owner [OF inv assms(2-4)] by blast
  with drop_all_owner [OF assms(1)] show False by blast
qed

end

definition sess_owner :: "sessionStore \<Rightarrow> string \<Rightarrow> string option" where
  "sess_owner s sid = map_option s_user (map_of (sess_m s) (sessionKey sid))"

lemma get_cases:
  obtains (miss) "get sid now s = (None, s)" "sid = [] \<or> map_of (sess_m s) (sessionKey sid) = None"
  | (old) x where "sid \<noteq> []" "map_of (sess_m s) (sessionKey sid) = Some x" "expired s x now"
      "get sid now s = (None, s\<lparr>sess_m := AList.delete (sessionKey sid) (sess_m s)\<rparr>)"
  | (hit) x where "sid \<noteq> []" "map_of (sess_m s) (sessionKey sid) = Some x" "\<not> expired s x now"
      "get sid now s =
         (Some (s_user x), s\<lparr>sess_m := AList.update (sessionKey sid) (x\<lparr>s_lastSeen := now\<rparr>) (sess_m s)\<rparr>)"
  by (cases "sid = []"; cases "map_of (sess_m s) (sessionKey sid)"; auto simp: get_def)

lemma get_map_of:
  assumes "map_of (sess_m (snd (get sid now s))) k = Some x"
  shows "\<exists>y. map_of (sess_m s) k = Some y \<and> s_user y = s_user x \<and> s_created y = s_created x"
proof (cases rule: get_cases [of sid now s])
  case miss
  then show ?thesis using assms by simp
next
  case old
  then show ?thesis using assms by (auto simp: delete_conv' split: if_splits)
next
  case hit
  then show ?thesis using assms by (auto simp: update_conv' split: if_splits)
qed

interpretation sess: session_service sess_ok sess_owner permutes create get delete_session "\<lambda>u. deleteUser u []"
proof
  fix s :: sessionStore and ord sid sid' now u v s'
  assume ok: "sess_ok s"
  then have d: "distinct (map fst (sess_m s))" by (simp add: sess_ok_def)
  show "\<exists>s'. create ord sid now u s = Some s'" if "permutes ord"
    using create_total [OF ok that] by blast
  show "sess_ok s'" if "permutes ord" "create ord sid now u s = Some s'"
    using create_total [OF ok that(1), of sid now u] that(2) by auto
  show "v = u \<or> sess_owner s sid' = Some v"
    if "permutes ord" "create ord sid now u s = Some s'" "sess_owner s' sid' = Some v"
    using create_total [OF ok that(1), of sid now u] that(2,3)
    by (cases "sessionKey sid' = sessionKey sid") (auto simp: sess_owner_def)
  show "sess_ok (snd (get sid now s))" using ok by (rule sess_ok_get)
  show "sess_owner s sid' = Some v" if "sess_owner (snd (get sid now s)) sid' = Some v"
    using that get_map_of [of sid now s] by (force simp: sess_owner_def)
  show "sess_owner s sid = Some v" if "fst (get sid now s) = Some v"
    using that by (cases rule: get_cases [of sid now s]) (auto simp: sess_owner_def)
  show "sess_ok (delete_session sid s)" unfolding delete_session_def using ok by (rule sess_ok_delete)
  show "sess_owner s sid' = Some v" if "sess_owner (delete_session sid s) sid' = Some v"
    using that by (auto simp: sess_owner_def delete_session_def delete_conv' split: if_splits)
  show "sess_owner (delete_session sid s) sid = None"
    by (simp add: sess_owner_def delete_session_def delete_conv')
  show "sess_ok (deleteUser u [] s)" unfolding deleteUser_def Let_def using ok by (rule sess_ok_filter)
  show "sess_owner s sid' = Some v \<and> v \<noteq> u" if "sess_owner (deleteUser u [] s) sid' = Some v"
    using that by (auto simp: sess_owner_def deleteUser_def dest!: map_of_filter_distinct [OF d])
qed

section \<open>Lifetimes\<close>

fun creates_key :: "string \<Rightarrow> 'o sess_event \<Rightarrow> bool" where
  "creates_key k (Created ord sid now u) = (sessionKey sid = k)"
| "creates_key k _ = False"

definition born :: "string \<Rightarrow> int \<Rightarrow> sessionStore \<Rightarrow> bool" where
  "born k t s \<longleftrightarrow> (\<forall>x. map_of (sess_m s) k = Some x \<longrightarrow> s_created x = t)"

lemma get_max [simp]: "sess_max (snd (get sid now s)) = sess_max s"
  by (cases rule: get_cases [of sid now s]) auto

lemma born_step:
  assumes "sess_ok s" "sess.fair ev" "sess.sess_step ev s = Some s'" "\<not> creates_key k ev" "born k t s"
  shows "born k t s' \<and> sess_max s' = sess_max s"
proof (cases ev)
  case (Created ord sid now u)
  with assms show ?thesis
    using create_total [OF assms(1), of ord sid now u] by (auto simp: sess.sess_step_def born_def)
next
  case (Looked sid now)
  then have s': "s' = snd (get sid now s)" using assms(3) by (simp add: sess.sess_step_def)
  have "born k t s'"
    unfolding born_def s'
  proof (intro allI impI)
    fix x assume "map_of (sess_m (snd (get sid now s))) k = Some x"
    from get_map_of [OF this] show "s_created x = t" using assms(5) by (auto simp: born_def)
  qed
  then show ?thesis by (simp add: s')
next
  case (Ended sid)
  with assms show ?thesis
    by (auto simp: sess.sess_step_def born_def delete_session_def delete_conv' split: if_splits)
next
  case (EndedAll u)
  have d: "distinct (map fst (sess_m s))" using assms(1) by (simp add: sess_ok_def)
  from EndedAll assms show ?thesis
    by (auto simp: sess.sess_step_def born_def deleteUser_def Let_def dest!: map_of_filter_distinct [OF d])
qed

lemma born_run:
  "sess_ok s \<Longrightarrow> list_all sess.fair evs \<Longrightarrow> sess.sess_run evs s = Some s' \<Longrightarrow>
   list_all (\<lambda>ev. \<not> creates_key k ev) evs \<Longrightarrow> born k t s \<Longrightarrow> born k t s' \<and> sess_max s' = sess_max s"
proof (induction evs arbitrary: s)
  case (Cons ev evs)
  then obtain s1 where s1: "sess.sess_step ev s = Some s1" "sess.sess_run evs s1 = Some s'" "sess_ok s1"
    using sess.sess_step_total [of s ev] by (auto split: Option.bind_splits)
  with Cons.prems have "born k t s1 \<and> sess_max s1 = sess_max s" using born_step by auto
  with Cons s1 show ?case by auto
qed simp

lemma get_too_old:
  "born (sessionKey sid) t s \<Longrightarrow> now - t > sess_max s \<Longrightarrow> fst (get sid now s) = None"
  by (cases rule: get_cases [of sid now s]) (auto simp: born_def expired_def)

lemma newSessionStore_ok: "sess_ok (newSessionStore idle mx)"
  by (simp add: sess_ok_def newSessionStore_def matching_def)

section \<open>Properties\<close>

text \<open>
  C28. The session store never blocks and stays within its limits. From an empty store every sequence of
  creations, lookups and endings runs to the end, whatever order the map is walked in: the eviction
  loop returns, no account ever has more than 32 sessions, the store never has more than 10000, and
  no key occurs twice.
\<close>

theorem sessions_stay_within_limits:
  assumes "list_all sess.fair evs"
  shows "\<exists>s. sess.sess_run evs (newSessionStore idle mx) = Some s \<and>
           (\<forall>u. length (matching (\<lambda>x. s_user x = u) (sess_m s)) \<le> 32) \<and> count s \<le> 10000 \<and>
           distinct (map fst (sess_m s))"
  using sess.sess_run_total [OF newSessionStore_ok assms, of idle mx]
  by (auto simp: sess_ok_def count_def maxSessionsPerUser_def maxSessionsTotal_def)

theorem sessions_stay_within_limits_witness:
  "\<exists>s. sess.sess_run [Created rev ''cookie'' 5 ''ann'', Looked ''cookie'' 6, EndedAll ''ann'']
         (newSessionStore 10 100) = Some s \<and>
       (\<forall>u. length (matching (\<lambda>x. s_user x = u) (sess_m s)) \<le> 32) \<and> count s \<le> 10000 \<and>
       distinct (map fst (sess_m s))"
  by (rule sessions_stay_within_limits) (simp add: permutes_def)

text \<open>
  Eviction is least recently used. On a store that satisfies its invariant \<^verbatim>\<open>evictLocked\<close> returns, leaves
  one place free below the limit (or everything, if there was room), removes only sessions that
  match, and every session it removes was last seen no later than any matching session it keeps.
\<close>

theorem evictLocked_is_lru:
  assumes "sess_ok s" "permutes ord" "0 < limit"
  shows "\<exists>m'. evictLocked ord P limit s = Some (s\<lparr>sess_m := m'\<rparr>) \<and> lru_evicted P (sess_m s) m' \<and>
           length (matching P m') = min (length (matching P (sess_m s))) (limit - 1)"
  using evict_ok [OF assms] by blast

definition demo_sessions :: sessionStore where
  "demo_sessions = \<lparr>sess_m = [(''k1'', \<lparr>s_user = ''ann'', s_created = 0, s_lastSeen = 7\<rparr>),
     (''k2'', \<lparr>s_user = ''ann'', s_created = 1, s_lastSeen = 3\<rparr>)],
     sess_idle = 10, sess_max = 100, sess_lastSweep = None\<rparr>"

theorem evictLocked_is_lru_witness:
  "\<exists>m'. evictLocked rev (\<lambda>x. s_user x = ''ann'') 2 demo_sessions = Some (demo_sessions\<lparr>sess_m := m'\<rparr>) \<and>
        lru_evicted (\<lambda>x. s_user x = ''ann'') (sess_m demo_sessions) m' \<and>
        length (matching (\<lambda>x. s_user x = ''ann'') m') = 1"
proof -
  have "sess_ok demo_sessions"
    by (simp add: sess_ok_def demo_sessions_def matching_def maxSessionsPerUser_def maxSessionsTotal_def)
  moreover have "permutes (rev :: sess_order)" by (simp add: permutes_def)
  moreover have "length (matching (\<lambda>x. s_user x = ''ann'') (sess_m demo_sessions)) = 2"
    by (simp add: demo_sessions_def matching_def)
  ultimately show ?thesis
    using evictLocked_is_lru [of demo_sessions rev 2 "\<lambda>x. s_user x = ''ann''"] by simp
qed

text \<open>
  Ended accounts stay out. Once all sessions of an account are ended (password reset, account disabled
  or deleted), no cookie value resolves to that account again after any further creations for other
  accounts, lookups and endings, until a session is created for it.
\<close>

theorem ended_account_has_no_session:
  assumes "sess_ok s" "list_all sess.fair evs" "sess.sess_run evs (deleteUser u [] s) = Some s'"
    "list_all (\<lambda>ev. \<not> sess.creates_for u ev) evs"
  shows "fst (get sid now s') \<noteq> Some u"
  using assms by (rule sess.ended_account_stays_out)

theorem ended_account_has_no_session_witness:
  "fst (get ''cookie'' 9 (deleteUser ''ann'' [] demo_sessions)) \<noteq> Some ''ann''"
proof -
  have "sess_ok demo_sessions"
    by (simp add: sess_ok_def demo_sessions_def matching_def maxSessionsPerUser_def maxSessionsTotal_def)
  then show ?thesis by (rule ended_account_has_no_session [of _ "[]"]) simp_all
qed

text \<open>
  C29. A session ends for good after its absolute lifetime. A session created at time \<open>t\<close> resolves to
  nobody at any time more than \<^verbatim>\<open>max\<close> later, however often it was used in between, unless a creation
  draws the same key again.
\<close>

theorem session_lifetime_is_bounded:
  assumes "sess_ok s" "permutes ord" "create ord sid t u s = Some s0"
    and "list_all sess.fair evs" "list_all (\<lambda>ev. \<not> creates_key (sessionKey sid) ev) evs"
    and "sess.sess_run evs s0 = Some s'" "now - t > sess_max s"
  shows "fst (get sid now s') = None"
proof -
  have s0: "sess_ok s0" "sess_max s0 = sess_max s" "born (sessionKey sid) t s0"
    using create_total [OF assms(1,2), of sid t u] assms(3) by (auto simp: born_def)
  from born_run [OF s0(1) assms(4,6,5) s0(3)] have "born (sessionKey sid) t s'" "sess_max s' = sess_max s"
    using s0(2) by simp_all
  with assms(7) show ?thesis by (intro get_too_old) simp_all
qed

theorem session_lifetime_is_bounded_witness:
  "\<exists>s0 s'. create rev ''cookie'' 0 ''ann'' (newSessionStore 10 100) = Some s0 \<and>
     sess.sess_run [Looked ''cookie'' 9, Looked ''cookie'' 95] s0 = Some s' \<and> fst (get ''cookie'' 101 s') = None"
proof -
  let ?s = "newSessionStore 10 100" and ?evs = "[Looked ''cookie'' 9, Looked ''cookie'' 95] :: sess_order sess_event list"
  have rev: "permutes (rev :: sess_order)" by (simp add: permutes_def)
  obtain s0 where s0: "create rev ''cookie'' 0 ''ann'' ?s = Some s0" "sess_ok s0"
    using create_total [OF newSessionStore_ok rev] by blast
  have fair: "list_all sess.fair ?evs" by simp
  obtain s' where s': "sess.sess_run ?evs s0 = Some s'" using sess.sess_run_total [OF s0(2) fair] by blast
  have "fst (get ''cookie'' 101 s') = None"
    by (rule session_lifetime_is_bounded [OF newSessionStore_ok rev s0(1) fair _ s'])
      (simp_all add: newSessionStore_def)
  with s0 s' show ?thesis by blast
qed

end
