(* ===== verification/Enc_Limiter.thy ===== *)
theory Enc_Limiter
  imports Go_Strings Go_Map "HOL-Library.Sublist"
begin

text \<open>
  The limiter of failed logins of the encoder (\<^verbatim>\<open>streamhub-encoder/internal/auth/ratelimit.go\<close>): for
  each account and address and for each address the times of the recent failures. The map is an
  association list, the order of \<^verbatim>\<open>range\<close> an argument \<open>ord\<close>, times are nanoseconds.

  The specification is the history of failures and successes. The theory shows that the lists, which
  are cut to the limit and purged lazily, answer as the full history would.
\<close>

section \<open>The limiter\<close>

definition loginWindow :: int where
  "loginWindow = 15 * 60 * 1000000000"

definition sweepEvery :: int where
  "sweepEvery = 60 * 1000000000"

definition maxFailsUserIP :: nat where
  "maxFailsUserIP = 5"

definition maxFailsIP :: nat where
  "maxFailsIP = 20"

definition maxLimiterKeys :: nat where
  "maxLimiterKeys = 50000"

definition limiterKeyUserIP :: string where
  "limiterKeyUserIP = ''u|''"

definition limiterKeyIP :: string where
  "limiterKeyIP = ''i|''"

record limiter =
  lim_fails :: "(string \<times> int list) list"
  lim_lastSweep :: "int option"

definition newLimiter :: limiter where
  "newLimiter = \<lparr>lim_fails = [], lim_lastSweep = None\<rparr>"

definition limiterKeys :: "string \<Rightarrow> string \<Rightarrow> string \<times> string" where
  "limiterKeys user ip = (limiterKeyUserIP @ user @ ''|'' @ ip, limiterKeyIP @ ip)"

text \<open>\<^verbatim>\<open>l.fails[key]\<close>: the empty list when there is none.\<close>

definition fails_at :: "(string \<times> int list) list \<Rightarrow> string \<Rightarrow> int list" where
  "fails_at f key = (case map_of f key of Some ts \<Rightarrow> ts | None \<Rightarrow> [])"

definition live :: "int \<Rightarrow> int list \<Rightarrow> int list" where
  "live now ts = dropWhile (\<lambda>t. now - t \<ge> loginWindow) ts"

definition recent :: "string \<Rightarrow> int \<Rightarrow> limiter \<Rightarrow> int list \<times> limiter" where
  "recent key now l =
     (let ts = live now (fails_at (lim_fails l) key)
      in if ts = [] then ([], l\<lparr>lim_fails := AList.delete key (lim_fails l)\<rparr>)
         else (ts, l\<lparr>lim_fails := AList.update key ts (lim_fails l)\<rparr>))"

definition block_wait :: "int \<Rightarrow> int list \<Rightarrow> nat \<Rightarrow> int \<Rightarrow> int" where
  "block_wait now ts limit wait =
     (if length ts \<ge> limit
      then let w = loginWindow - (now - ts ! (length ts - limit)) in if w > wait then w else wait
      else wait)"

definition blocked :: "string \<Rightarrow> string \<Rightarrow> int \<Rightarrow> limiter \<Rightarrow> int \<times> bool \<times> limiter" where
  "blocked user ip now l =
     (case limiterKeys user ip of (ku, ki) \<Rightarrow>
       (case recent ku now l of (tu, l1) \<Rightarrow>
         (let w1 = block_wait now tu maxFailsUserIP 0
          in case recent ki now l1 of (ti, l2) \<Rightarrow>
               (let w2 = block_wait now ti maxFailsIP w1 in (w2, w2 > 0, l2)))))"

text \<open>
  The two loops of the sweep. Every key starts with one of the two-byte prefixes, so that \<^verbatim>\<open>k[:2]\<close> does
  not panic.
\<close>

definition purge :: "string list \<Rightarrow> int \<Rightarrow> limiter \<Rightarrow> limiter" where
  "purge ks now l = foldl (\<lambda>l k. snd (recent k now l)) l ks"

fun flood_loop :: "string list \<Rightarrow> (string \<times> int list) list \<Rightarrow> (string \<times> int list) list" where
  "flood_loop [] f = f"
| "flood_loop (k # ks) f =
     (if length f < maxLimiterKeys div 2 then f
      else flood_loop ks (if take 2 k = limiterKeyUserIP then AList.delete k f else f))"

definition sweep :: "(string list \<Rightarrow> string list) \<Rightarrow> int \<Rightarrow> limiter \<Rightarrow> limiter" where
  "sweep ord now l =
     (if (case lim_lastSweep l of None \<Rightarrow> True | Some t \<Rightarrow> now - t > sweepEvery) \<or>
         length (lim_fails l) \<ge> maxLimiterKeys
      then let l1 = (purge (ord (map fst (lim_fails l))) now l)\<lparr>lim_lastSweep := Some now\<rparr>
           in if length (lim_fails l1) \<ge> maxLimiterKeys
              then l1\<lparr>lim_fails := flood_loop (ord (map fst (lim_fails l1))) (lim_fails l1)\<rparr>
              else l1
      else l)"

definition cut_to :: "nat \<Rightarrow> int list \<Rightarrow> int list" where
  "cut_to cap ts = (if length ts > cap then drop (length ts - cap) ts else ts)"

definition record_fail :: "int \<Rightarrow> string \<Rightarrow> nat \<Rightarrow> limiter \<Rightarrow> limiter" where
  "record_fail now key cap l =
     (case recent key now l of (ts, l1) \<Rightarrow>
        l1\<lparr>lim_fails := AList.update key (cut_to cap (ts @ [now])) (lim_fails l1)\<rparr>)"

definition fail :: "(string list \<Rightarrow> string list) \<Rightarrow> string \<Rightarrow> string \<Rightarrow> int \<Rightarrow> limiter \<Rightarrow> limiter" where
  "fail ord user ip now l =
     (case limiterKeys user ip of (ku, ki) \<Rightarrow>
        record_fail now ki maxFailsIP (record_fail now ku maxFailsUserIP (sweep ord now l)))"

definition success :: "string \<Rightarrow> string \<Rightarrow> limiter \<Rightarrow> limiter" where
  "success user ip l =
     (case limiterKeys user ip of (ku, _) \<Rightarrow> l\<lparr>lim_fails := AList.delete ku (lim_fails l)\<rparr>)"

section \<open>One sliding window\<close>

text \<open>
  \<open>window cap T H ts\<close>: the stored list \<open>ts\<close> is a suffix of the failures \<open>H\<close> recorded up to time \<open>T\<close>; what
  was dropped is out of the window, unless the stored list is full.
\<close>

definition window :: "nat \<Rightarrow> int \<Rightarrow> int list \<Rightarrow> int list \<Rightarrow> bool" where
  "window cap T H ts \<longleftrightarrow>
     sorted H \<and> (\<forall>t \<in> set H. t \<le> T) \<and> length ts \<le> cap \<and>
     (\<exists>pre. H = pre @ ts \<and> (length ts = cap \<or> (\<forall>t \<in> set pre. loginWindow \<le> T - t)))"

abbreviation in_window :: "int \<Rightarrow> int list \<Rightarrow> int list" where
  "in_window now H \<equiv> filter (\<lambda>t. now - t < loginWindow) H"

lemma live_filter: "sorted ts \<Longrightarrow> live now ts = in_window now ts"
proof (induction ts)
  case (Cons t ts)
  show ?case
  proof (cases "now - t < loginWindow")
    case True
    moreover have "\<forall>t' \<in> set ts. now - t' < loginWindow" using True Cons.prems by auto
    ultimately show ?thesis by (simp add: live_def filter_id_conv)
  next
    case False
    with Cons show ?thesis by (simp add: live_def)
  qed
qed (simp add: live_def)

lemma live_suffix: "\<exists>d. ts = d @ live now ts \<and> (\<forall>t \<in> set d. loginWindow \<le> now - t)"
  unfolding live_def
  by (intro exI [of _ "takeWhile (\<lambda>t. now - t \<ge> loginWindow) ts"]) (auto dest: set_takeWhileD)

lemma window_empty: "0 < cap \<Longrightarrow> window cap T [] []"
  by (simp add: window_def)

text \<open>Purging keeps the relation and moves it forward in time.\<close>

lemma window_live:
  assumes "window cap T H ts" "T \<le> now"
  shows "window cap now H (live now ts)"
proof -
  from assms(1) obtain pre where H: "H = pre @ ts" "length ts = cap \<or> (\<forall>t \<in> set pre. loginWindow \<le> T - t)"
    and s: "sorted H" "\<forall>t \<in> set H. t \<le> T" "length ts \<le> cap" by (auto simp: window_def)
  obtain d where d: "ts = d @ live now ts" "\<forall>t \<in> set d. loginWindow \<le> now - t" using live_suffix by blast
  have "length (live now ts) = cap \<or> (\<forall>t \<in> set (pre @ d). loginWindow \<le> now - t)"
  proof (cases "d = []")
    case True
    with d(1) have "live now ts = ts" by simp
    with H(2) assms(2) True show ?thesis by force
  next
    case False
    then have "hd d \<in> set ts" using d(1) by (metis hd_in_set in_set_conv_decomp append_Cons append_assoc)
    then have "\<forall>t \<in> set pre. t \<le> hd d" using s(1) H(1) by (simp add: sorted_append)
    moreover have "loginWindow \<le> now - hd d" using d(2) False by simp
    ultimately show ?thesis using d(2) by fastforce
  qed
  moreover have "length (live now ts) \<le> cap" using s(3) arg_cong [OF d(1), of length] by simp
  moreover have "H = (pre @ d) @ live now ts" using H(1) d(1) by simp
  moreover have "\<forall>t \<in> set H. t \<le> now" using s(2) assms(2) by auto
  ultimately show ?thesis using s(1) unfolding window_def by blast
qed

text \<open>Recording a failure.\<close>

lemma window_push:
  assumes "window cap T H ts" "T \<le> now" "0 < cap"
  shows "window cap now (H @ [now]) (cut_to cap (live now ts @ [now]))"
proof -
  from window_live [OF assms(1,2)] obtain pre where H: "H = pre @ live now ts"
    "length (live now ts) = cap \<or> (\<forall>t \<in> set pre. loginWindow \<le> now - t)"
    and s: "sorted H" "\<forall>t \<in> set H. t \<le> now" "length (live now ts) \<le> cap" by (auto simp: window_def)
  have so: "sorted (H @ [now])" "\<forall>t \<in> set (H @ [now]). t \<le> now" using s by (auto simp: sorted_append)
  show ?thesis
  proof (cases "length (live now ts) = cap")
    case True
    then have c: "cut_to cap (live now ts @ [now]) = drop 1 (live now ts) @ [now]"
      using assms(3) by (cases "live now ts") (auto simp: cut_to_def)
    have "H @ [now] = (pre @ take 1 (live now ts)) @ cut_to cap (live now ts @ [now])"
      unfolding c H(1) by simp
    moreover have "length (cut_to cap (live now ts @ [now])) = cap" unfolding c using True assms(3) by simp
    ultimately show ?thesis using so unfolding window_def
      by (intro conjI exI [of _ "pre @ take 1 (live now ts)"]) simp_all
  next
    case False
    with s(3) have c: "cut_to cap (live now ts @ [now]) = live now ts @ [now]" by (simp add: cut_to_def)
    have "H @ [now] = pre @ cut_to cap (live now ts @ [now])" unfolding c using H(1) by simp
    moreover have "length (cut_to cap (live now ts @ [now])) \<le> cap" unfolding c using False s(3) by simp
    ultimately show ?thesis using so H(2) False unfolding window_def by blast
  qed
qed

text \<open>A full list stands for a full window of the history.\<close>

lemma window_full:
  assumes "window cap T H ts" "T \<le> now" "0 < cap"
  shows "length (live now ts) = cap \<longleftrightarrow> cap \<le> length (in_window now H)"
proof -
  from window_live [OF assms(1,2)] obtain pre where H: "H = pre @ live now ts"
    "length (live now ts) = cap \<or> (\<forall>t \<in> set pre. loginWindow \<le> now - t)"
    and s: "sorted H" "length (live now ts) \<le> cap" by (auto simp: window_def)
  have "in_window now (live now ts) = live now ts"
  proof -
    have "sorted ts" using assms(1) by (auto simp: window_def sorted_append)
    then show ?thesis by (simp add: live_filter)
  qed
  then have len: "length (in_window now H) = length (in_window now pre) + length (live now ts)"
    using arg_cong [OF H(1), of "\<lambda>h. length (in_window now h)"] by simp
  show ?thesis
  proof
    assume "cap \<le> length (in_window now H)"
    moreover have "in_window now pre = []" if "\<forall>t \<in> set pre. loginWindow \<le> now - t"
      using that by (intro filter_False) auto
    ultimately show "length (live now ts) = cap" using H(2) s(2) len by auto
  qed (simp add: len)
qed

lemma window_later: "window cap T H ts \<Longrightarrow> T \<le> now \<Longrightarrow> window cap now H ts"
  unfolding window_def by fastforce

section \<open>The map of windows\<close>

lemma recent_eq:
  "fst (recent key now l) = live now (fails_at (lim_fails l) key)"
  "fails_at (lim_fails (snd (recent key now l))) k =
     (if k = key then live now (fails_at (lim_fails l) key) else fails_at (lim_fails l) k)"
  "lim_lastSweep (snd (recent key now l)) = lim_lastSweep l"
  by (auto simp: recent_def fails_at_def Let_def delete_conv' update_conv')

lemma recent_length: "length (lim_fails (snd (recent key now l))) \<le> length (lim_fails l)"
proof (cases "live now (fails_at (lim_fails l) key) = []")
  case True
  then show ?thesis by (simp add: recent_def length_delete_le)
next
  case False
  then obtain ts where "map_of (lim_fails l) key = Some ts"
    by (cases "map_of (lim_fails l) key") (auto simp: fails_at_def live_def)
  then have "length (AList.update key v (lim_fails l)) = length (lim_fails l)" for v
    by (rule length_update_same)
  with False show ?thesis by (simp add: recent_def Let_def)
qed

lemma live_live [simp]: "live now (live now ts) = live now ts"
  by (simp add: live_def)

lemma purge_fails_at:
  "fails_at (lim_fails (purge ks now l)) k =
     (if k \<in> set ks then live now (fails_at (lim_fails l) k) else fails_at (lim_fails l) k)"
  unfolding purge_def by (induction ks arbitrary: l) (auto simp: recent_eq)

lemma purge_length: "length (lim_fails (purge ks now l)) \<le> length (lim_fails l)"
  unfolding purge_def
proof (induction ks arbitrary: l)
  case (Cons k ks)
  then show ?case using recent_length [of k now l] by (auto intro: order_trans)
qed simp

lemma sweep_calm:
  assumes "length (lim_fails l) < maxLimiterKeys"
  shows "fails_at (lim_fails (sweep ord now l)) k \<in>
           {fails_at (lim_fails l) k, live now (fails_at (lim_fails l) k)}"
proof -
  have "\<not> maxLimiterKeys \<le> length (lim_fails (purge (ord (map fst (lim_fails l))) now l))"
    using assms purge_length [of "ord (map fst (lim_fails l))" now l] by simp
  then show ?thesis by (auto simp: sweep_def Let_def purge_fails_at)
qed

lemma record_fail_at:
  "fails_at (lim_fails (record_fail now key cap l)) k =
     (if k = key then cut_to cap (live now (fails_at (lim_fails l) key) @ [now]) else fails_at (lim_fails l) k)"
  using recent_eq [of key now l]
  by (cases "recent key now l") (auto simp: record_fail_def fails_at_def update_conv')

section \<open>The history\<close>

datatype lim_event =
    Failed "string list \<Rightarrow> string list" string string int
  | Succeeded string string
  | Asked string string int

fun lim_step :: "limiter \<Rightarrow> lim_event \<Rightarrow> limiter" where
  "lim_step l (Failed ord user ip now) = fail ord user ip now l"
| "lim_step l (Succeeded user ip) = success user ip l"
| "lim_step l (Asked user ip now) = snd (snd (blocked user ip now l))"

text \<open>The failures of an account at an address since its last success there, and those of an address.\<close>

fun user_step :: "string \<Rightarrow> string \<Rightarrow> int list \<Rightarrow> lim_event \<Rightarrow> int list" where
  "user_step user ip H (Failed ord u i t) = (if u = user \<and> i = ip then H @ [t] else H)"
| "user_step user ip H (Succeeded u i) = (if u = user \<and> i = ip then [] else H)"
| "user_step user ip H (Asked u i t) = H"

fun ip_step :: "string \<Rightarrow> int list \<Rightarrow> lim_event \<Rightarrow> int list" where
  "ip_step ip H (Failed ord u i t) = (if i = ip then H @ [t] else H)"
| "ip_step ip H _ = H"

definition user_fails :: "string \<Rightarrow> string \<Rightarrow> lim_event list \<Rightarrow> int list" where
  "user_fails user ip evs = foldl (user_step user ip) [] evs"

definition ip_fails :: "string \<Rightarrow> lim_event list \<Rightarrow> int list" where
  "ip_fails ip evs = foldl (ip_step ip) [] evs"

fun event_time :: "int \<Rightarrow> lim_event \<Rightarrow> int" where
  "event_time T (Failed ord u i t) = t"
| "event_time T (Succeeded u i) = T"
| "event_time T (Asked u i t) = t"

text \<open>
  A run the refinement speaks about: the clock does not go back, addresses contain no separator (an IP
  address never does), and the map is below its flood limit whenever a failure is recorded.
\<close>

fun event_ok :: "limiter \<Rightarrow> lim_event \<Rightarrow> bool" where
  "event_ok l (Failed ord u i t) = (CHR ''|'' \<notin> set i \<and> length (lim_fails l) < maxLimiterKeys)"
| "event_ok l (Succeeded u i) = (CHR ''|'' \<notin> set i)"
| "event_ok l (Asked u i t) = (CHR ''|'' \<notin> set i)"

fun run_ok :: "int \<Rightarrow> limiter \<Rightarrow> lim_event list \<Rightarrow> bool" where
  "run_ok T l [] = True"
| "run_ok T l (ev # evs) =
     (event_ok l ev \<and> T \<le> event_time T ev \<and> run_ok (event_time T ev) (lim_step l ev) evs)"

definition user_key :: "string \<Rightarrow> string \<Rightarrow> string" where
  "user_key user ip = fst (limiterKeys user ip)"

definition ip_key :: "string \<Rightarrow> string" where
  "ip_key ip = limiterKeyIP @ ip"

lemma limiterKeys_eq: "limiterKeys user ip = (user_key user ip, ip_key ip)"
  by (simp add: limiterKeys_def user_key_def ip_key_def)

lemma user_key_inj:
  assumes "CHR ''|'' \<notin> set i" "CHR ''|'' \<notin> set i'"
  shows "user_key u i = user_key u' i' \<longleftrightarrow> u = u' \<and> i = i'"
proof
  assume "user_key u i = user_key u' i'"
  then have "rev (u @ ''|'' @ i) = rev (u' @ ''|'' @ i')" by (simp add: user_key_def limiterKeys_def)
  then have eq: "rev i @ CHR ''|'' # rev u = rev i' @ CHR ''|'' # rev u'" by simp
  have tw: "takeWhile (\<lambda>c. c \<noteq> CHR ''|'') (rev j @ CHR ''|'' # w) = rev j" if "CHR ''|'' \<notin> set j" for j w
    using that by (subst takeWhile_append2) auto
  from arg_cong [OF eq, of "takeWhile (\<lambda>c. c \<noteq> CHR ''|'')"] have "i = i'"
    unfolding tw [OF assms(1)] tw [OF assms(2)] by simp
  with eq show "u = u' \<and> i = i'" by simp
qed simp

lemma ip_key_inj [simp]: "ip_key i = ip_key i' \<longleftrightarrow> i = i'"
  by (simp add: ip_key_def)

lemma key_kinds [simp]: "user_key u i \<noteq> ip_key i'" "ip_key i' \<noteq> user_key u i"
  by (simp_all add: user_key_def ip_key_def limiterKeys_def limiterKeyUserIP_def limiterKeyIP_def)

definition lim_rel :: "int \<Rightarrow> (string \<Rightarrow> string \<Rightarrow> int list) \<Rightarrow> (string \<Rightarrow> int list) \<Rightarrow> limiter \<Rightarrow> bool" where
  "lim_rel T U I l \<longleftrightarrow>
     (\<forall>u i. CHR ''|'' \<notin> set i \<longrightarrow>
        window maxFailsUserIP T (U u i) (fails_at (lim_fails l) (user_key u i)) \<and>
        window maxFailsIP T (I i) (fails_at (lim_fails l) (ip_key i)))"

lemma lim_relD:
  assumes "lim_rel T U I l" "CHR ''|'' \<notin> set i"
  shows "window maxFailsUserIP T (U u i) (fails_at (lim_fails l) (user_key u i))"
    and "window maxFailsIP T (I i) (fails_at (lim_fails l) (ip_key i))"
  using assms by (auto simp: lim_rel_def)

lemma lim_rel_purged:
  assumes "lim_rel T U I l" "T \<le> now"
    and "\<And>k. fails_at (lim_fails l') k \<in> {fails_at (lim_fails l) k, live now (fails_at (lim_fails l) k)}"
  shows "lim_rel now U I l'"
  unfolding lim_rel_def
proof (intro allI impI)
  fix u i assume i: "CHR ''|'' \<notin> set i"
  note w = lim_relD(1) [OF assms(1) i, of u] lim_relD(2) [OF assms(1) i]
  show "window maxFailsUserIP now (U u i) (fails_at (lim_fails l') (user_key u i)) \<and>
        window maxFailsIP now (I i) (fails_at (lim_fails l') (ip_key i))"
    using w window_live [OF w(1) assms(2)] window_live [OF w(2) assms(2)]
      window_later [OF w(1) assms(2)] window_later [OF w(2) assms(2)]
      assms(3) [of "user_key u i"] assms(3) [of "ip_key i"] by auto
qed

lemma caps_pos [simp]: "0 < maxFailsUserIP" "0 < maxFailsIP"
  by (simp_all add: maxFailsUserIP_def maxFailsIP_def)

lemma fails_at_fail:
  "fails_at (lim_fails (fail ord user ip now l)) k =
           (let s = fails_at (lim_fails (sweep ord now l)) k
            in if k = user_key user ip then cut_to maxFailsUserIP (live now s @ [now])
               else if k = ip_key ip then cut_to maxFailsIP (live now s @ [now]) else s)"
  by (auto simp: fail_def limiterKeys_eq record_fail_at Let_def)

lemma fail_swept:
  assumes sw: "lim_rel now U I (sweep ord now l)" and ip: "CHR ''|'' \<notin> set ip"
  shows "lim_rel now (\<lambda>u i. if u = user \<and> i = ip then U u i @ [now] else U u i)
           (\<lambda>i. if i = ip then I i @ [now] else I i) (fail ord user ip now l)"
  unfolding lim_rel_def
proof (intro allI impI)
  fix u i assume i: "CHR ''|'' \<notin> set i"
  note w = lim_relD(1) [OF sw i, of u] lim_relD(2) [OF sw i]
  show "window maxFailsUserIP now (if u = user \<and> i = ip then U u i @ [now] else U u i)
          (fails_at (lim_fails (fail ord user ip now l)) (user_key u i)) \<and>
        window maxFailsIP now (if i = ip then I i @ [now] else I i)
          (fails_at (lim_fails (fail ord user ip now l)) (ip_key i))"
    using w window_push [OF w(1) order_refl caps_pos(1)] window_push [OF w(2) order_refl caps_pos(2)]
    by (auto simp: fails_at_fail Let_def user_key_inj [OF i ip])
qed

lemma fail_rel:
  assumes "lim_rel T U I l" "T \<le> now" "length (lim_fails l) < maxLimiterKeys" "CHR ''|'' \<notin> set ip"
  shows "lim_rel now (\<lambda>u i. if u = user \<and> i = ip then U u i @ [now] else U u i)
           (\<lambda>i. if i = ip then I i @ [now] else I i) (fail ord user ip now l)"
  by (rule fail_swept [OF lim_rel_purged [OF assms(1,2)] assms(4)]) (rule sweep_calm [OF assms(3)])

lemma success_rel:
  assumes "lim_rel T U I l" "CHR ''|'' \<notin> set ip"
  shows "lim_rel T (\<lambda>u i. if u = user \<and> i = ip then [] else U u i) I (success user ip l)"
proof -
  have "fails_at (lim_fails (success user ip l)) k = (if k = user_key user ip then [] else fails_at (lim_fails l) k)" for k
    by (auto simp: success_def limiterKeys_eq fails_at_def delete_conv')
  then show ?thesis
    using assms by (auto simp: lim_rel_def user_key_inj window_empty)
qed

lemma blocked_eq:
  "blocked user ip now l =
     (let w = block_wait now (live now (fails_at (lim_fails l) (ip_key ip))) maxFailsIP
                (block_wait now (live now (fails_at (lim_fails l) (user_key user ip))) maxFailsUserIP 0)
      in (w, w > 0, snd (recent (ip_key ip) now (snd (recent (user_key user ip) now l)))))"
  using recent_eq [of "user_key user ip" now l]
    recent_eq [of "ip_key ip" now "snd (recent (user_key user ip) now l)"]
  by (cases "recent (user_key user ip) now l"; cases "recent (ip_key ip) now (snd (recent (user_key user ip) now l))")
    (auto simp: blocked_def limiterKeys_eq Let_def)

lemma blocked_rel: "lim_rel T U I l \<Longrightarrow> T \<le> now \<Longrightarrow> lim_rel now U I (snd (snd (blocked user ip now l)))"
  by (rule lim_rel_purged) (auto simp: blocked_eq Let_def recent_eq)

lemma run_rel:
  "run_ok T l evs \<Longrightarrow> lim_rel T U I l \<Longrightarrow>
   \<exists>T'. T' = foldl event_time T evs \<and>
     lim_rel T' (\<lambda>u i. foldl (user_step u i) (U u i) evs) (\<lambda>i. foldl (ip_step i) (I i) evs) (foldl lim_step l evs)"
proof (induction evs arbitrary: T l U I)
  case (Cons ev evs)
  have "lim_rel (event_time T ev) (\<lambda>u i. user_step u i (U u i) ev) (\<lambda>i. ip_step i (I i) ev) (lim_step l ev)"
  proof (cases ev)
    case (Failed ord u i t)
    then have "lim_rel t (\<lambda>u' i'. if u' = u \<and> i' = i then U u' i' @ [t] else U u' i')
        (\<lambda>i'. if i' = i then I i' @ [t] else I i') (fail ord u i t l)"
      using Cons.prems by (intro fail_rel) auto
    with Failed show ?thesis by (simp add: eq_commute [of u] eq_commute [of i])
  next
    case (Succeeded u i)
    then have "lim_rel T (\<lambda>u' i'. if u' = u \<and> i' = i then [] else U u' i') I (success u i l)"
      using Cons.prems by (intro success_rel) auto
    with Succeeded show ?thesis by (simp add: eq_commute [of u] eq_commute [of i])
  next
    case (Asked u i t)
    with Cons.prems show ?thesis by (simp add: blocked_rel)
  qed
  with Cons.IH [of "event_time T ev" "lim_step l ev"] Cons.prems(1) show ?case by simp
qed simp

section \<open>The wait\<close>

text \<open>The instant at which a full list stops blocking.\<close>

definition deadline :: "nat \<Rightarrow> int list \<Rightarrow> int option" where
  "deadline cap ts = (if length ts = cap then Some (hd ts + loginWindow) else None)"

definition before :: "int \<Rightarrow> int option \<Rightarrow> bool" where
  "before now d = (case d of Some t \<Rightarrow> now < t | None \<Rightarrow> False)"

lemma live_full:
  assumes "length ts \<le> cap" "0 < cap"
  shows "cap \<le> length (live now ts) \<longleftrightarrow> before now (deadline cap ts)"
proof (cases ts)
  case Nil
  then show ?thesis using assms by (auto simp: live_def deadline_def before_def)
next
  case (Cons t ts')
  have "length (dropWhile P ts') \<le> length ts'" for P by (rule length_dropWhile_le)
  with Cons assms show ?thesis
    by (auto simp: live_def deadline_def before_def dest: order_trans) (metis Suc_n_not_le_n order_trans)+
qed

lemma live_id: "before now (deadline cap ts) \<Longrightarrow> 0 < cap \<Longrightarrow> live now ts = ts"
  by (cases ts) (auto simp: live_def deadline_def before_def split: if_splits)

lemma block_wait_eq:
  assumes "length ts \<le> cap" "0 < cap"
  shows "block_wait now (live now ts) cap w =
           (if before now (deadline cap ts) then max w (the (deadline cap ts) - now) else w)"
proof (cases "before now (deadline cap ts)")
  case True
  then have "live now ts = ts" "length ts = cap" using live_id assms(2)
    by (auto simp: deadline_def before_def split: if_splits)
  with True assms(2) show ?thesis
    by (auto simp: block_wait_def Let_def deadline_def hd_conv_nth)
next
  case False
  with live_full [OF assms, of now] show ?thesis by (simp add: block_wait_def)
qed

lemma blocked_deadlines:
  fixes user ip :: string and l :: limiter
  assumes "lim_rel T U I l" "CHR ''|'' \<notin> set ip"
  defines "du \<equiv> deadline maxFailsUserIP (fails_at (lim_fails l) (user_key user ip))"
    and "di \<equiv> deadline maxFailsIP (fails_at (lim_fails l) (ip_key ip))"
  shows "fst (snd (blocked user ip now l)) \<longleftrightarrow> before now du \<or> before now di"
    and "now \<le> now' \<Longrightarrow> now' < now + fst (blocked user ip now l) \<longleftrightarrow> before now' du \<or> before now' di"
proof -
  note w = lim_relD(1) [OF assms(1,2), of user] lim_relD(2) [OF assms(1,2)]
  then have len: "length (fails_at (lim_fails l) (user_key user ip)) \<le> maxFailsUserIP"
    "length (fails_at (lim_fails l) (ip_key ip)) \<le> maxFailsIP" by (simp_all add: window_def)
  note eq = block_wait_eq [OF len(1) caps_pos(1)] block_wait_eq [OF len(2) caps_pos(2)]
  show "fst (snd (blocked user ip now l)) \<longleftrightarrow> before now du \<or> before now di"
    unfolding blocked_eq Let_def eq du_def di_def by (auto simp: before_def split: option.splits)
  show "now \<le> now' \<Longrightarrow> now' < now + fst (blocked user ip now l) \<longleftrightarrow> before now' du \<or> before now' di"
    unfolding blocked_eq Let_def eq du_def di_def by (auto simp: before_def split: option.splits)
qed

lemma new_rel: "lim_rel T (\<lambda>_ _. []) (\<lambda>_. []) newLimiter"
  by (simp add: lim_rel_def newLimiter_def fails_at_def window_empty)

lemma run_new_rel:
  assumes "run_ok T newLimiter evs"
  shows "lim_rel (foldl event_time T evs) (\<lambda>u i. user_fails u i evs) (\<lambda>i. ip_fails i evs)
           (foldl lim_step newLimiter evs)"
  using run_rel [OF assms new_rel] by (simp add: user_fails_def ip_fails_def)

section \<open>Floods\<close>


lemma flood_keeps_ip: "fails_at (flood_loop ks f) (ip_key ip) = fails_at f (ip_key ip)"
proof (induction ks f rule: flood_loop.induct)
  case (2 k ks f)
  have "k \<noteq> ip_key ip" if "take 2 k = limiterKeyUserIP"
    using that by (auto simp: limiterKeyUserIP_def ip_key_def limiterKeyIP_def)
  with 2 show ?case by (auto simp: fails_at_def delete_conv')
qed simp

text \<open>
  The flood protection never drops the key of an address: right after failures from any number of
  addresses at one instant all their keys are in the map, however many there are. The limit on the
  number of keys bounds only the keys of accounts.
\<close>

lemma flood_fails_at:
  "fails_at (lim_fails (sweep ord now l)) (ip_key ip) \<in>
     {fails_at (lim_fails l) (ip_key ip), live now (fails_at (lim_fails l) (ip_key ip))}"
  by (auto simp: sweep_def Let_def purge_fails_at flood_keeps_ip)

lemma flood_step:
  assumes "live now (fails_at (lim_fails l) (ip_key ip)) \<noteq> [] \<or> ip = ip'"
  shows "live now (fails_at (lim_fails (fail ord user ip' now l)) (ip_key ip)) \<noteq> []"
proof (cases "ip = ip'")
  case True
  have "live now (xs @ [now]) \<noteq> []" for xs by (simp add: live_def loginWindow_def dropWhile_eq_Nil_conv)
  moreover have "cut_to maxFailsIP (xs @ [now]) = drop (length xs + 1 - maxFailsIP) xs @ [now]" for xs :: "int list"
    by (auto simp: cut_to_def maxFailsIP_def)
  ultimately show ?thesis using True by (simp add: fails_at_fail Let_def)
next
  case False
  with assms have "live now (fails_at (lim_fails l) (ip_key ip)) \<noteq> []" by simp
  moreover have "live now (fails_at (lim_fails (sweep ord now l)) (ip_key ip)) = live now (fails_at (lim_fails l) (ip_key ip))"
    using flood_fails_at [of ord now l ip] by auto
  ultimately show ?thesis using False by (simp add: fails_at_fail Let_def)
qed

lemma flood_keeps_every_address:
  "ip \<in> set ips \<Longrightarrow>
   ip_key ip \<in> fst ` set (lim_fails (foldl (\<lambda>l ip. fail ord user ip now l) newLimiter ips))"
proof -
  have "live now (fails_at (lim_fails (foldl (\<lambda>l ip. fail ord user ip now l) l ips)) (ip_key ip)) \<noteq> []"
    if "live now (fails_at (lim_fails l) (ip_key ip)) \<noteq> [] \<or> ip \<in> set ips" for l
    using that
  proof (induction ips arbitrary: l)
    case (Cons ip' ips)
    then show ?case using flood_step [of now l ip ip' ord user] by (cases "ip = ip'") auto
  qed simp
  moreover assume "ip \<in> set ips"
  ultimately have "live now (fails_at (lim_fails (foldl (\<lambda>l ip. fail ord user ip now l) newLimiter ips)) (ip_key ip)) \<noteq> []"
    by blast
  then show ?thesis
    by (cases "map_of (lim_fails (foldl (\<lambda>l ip. fail ord user ip now l) newLimiter ips)) (ip_key ip)")
      (auto simp: fails_at_def live_def dest: map_of_SomeD intro: rev_image_eqI)
qed

text \<open>A short run stays below the flood limit: a step adds at most two keys.\<close>

lemma flood_length: "length (flood_loop ks f) \<le> length f"
  by (induction ks f rule: flood_loop.induct) (auto intro: order_trans length_delete_le)

lemma sweep_length: "length (lim_fails (sweep ord now l)) \<le> length (lim_fails l)"
  using purge_length [of "ord (map fst (lim_fails l))" now l]
  by (auto simp: sweep_def Let_def intro: order_trans [OF flood_length])

lemma record_fail_length: "length (lim_fails (record_fail now key cap l)) \<le> Suc (length (lim_fails l))"
  using recent_length [of key now l]
  by (cases "recent key now l") (auto simp: record_fail_def intro: order_trans [OF length_update_le])

lemma lim_step_length: "length (lim_fails (lim_step l ev)) \<le> length (lim_fails l) + 2"
proof (cases ev)
  case (Failed ord u i t)
  show ?thesis
    using record_fail_length [of t "ip_key i" maxFailsIP "record_fail t (user_key u i) maxFailsUserIP (sweep ord t l)"]
      record_fail_length [of t "user_key u i" maxFailsUserIP "sweep ord t l"] sweep_length [of ord t l]
    by (simp add: Failed fail_def limiterKeys_eq)
next
  case (Succeeded u i)
  then show ?thesis by (simp add: success_def limiterKeys_eq length_delete_le le_SucI)
next
  case (Asked u i t)
  then show ?thesis
    using recent_length [of "ip_key i" t "snd (recent (user_key u i) t l)"] recent_length [of "user_key u i" t l]
    by (simp add: blocked_eq Let_def)
qed

fun event_ip :: "lim_event \<Rightarrow> string" where
  "event_ip (Failed ord u i t) = i"
| "event_ip (Succeeded u i) = i"
| "event_ip (Asked u i t) = i"

fun clock_ok :: "int \<Rightarrow> lim_event list \<Rightarrow> bool" where
  "clock_ok T [] = True"
| "clock_ok T (ev # evs) = (CHR ''|'' \<notin> set (event_ip ev) \<and> T \<le> event_time T ev \<and> clock_ok (event_time T ev) evs)"

lemma run_ok_short:
  "clock_ok T evs \<Longrightarrow> length (lim_fails l) + 2 * length evs < maxLimiterKeys \<Longrightarrow> run_ok T l evs"
proof (induction evs arbitrary: T l)
  case (Cons ev evs)
  have "event_ok l ev" using Cons.prems by (cases ev) auto
  moreover have "run_ok (event_time T ev) (lim_step l ev) evs"
    using Cons.prems lim_step_length [of l ev] by (intro Cons.IH) auto
  ultimately show ?case using Cons.prems by simp
qed simp

text \<open>
  A flood drops keys of accounts. What is left is still the window of a history: for an account, of
  the failures since its key was dropped, a suffix of the full history.
\<close>

lemma flood_drops: "fails_at (flood_loop ks f) k \<in> {fails_at f k, []}"
proof (induction ks f rule: flood_loop.induct)
  case (2 k' ks f)
  then show ?case by (auto simp: fails_at_def delete_conv')
qed simp

lemma sweep_drops:
  "fails_at (lim_fails (sweep ord now l)) k \<in>
     {fails_at (lim_fails l) k, live now (fails_at (lim_fails l) k), []}"
  using flood_drops [of "ord (map fst (lim_fails (purge (ord (map fst (lim_fails l))) now l)))"
      "lim_fails (purge (ord (map fst (lim_fails l))) now l)" k]
  by (auto simp: sweep_def Let_def purge_fails_at split: if_splits)

lemma sweep_rel:
  assumes "lim_rel T V I l" "T \<le> now"
  obtains W where "lim_rel now W I (sweep ord now l)" "\<And>u i. W u i = V u i \<or> W u i = []"
proof
  let ?at = "\<lambda>k. fails_at (lim_fails (sweep ord now l)) k"
  let ?W = "\<lambda>u i. if ?at (user_key u i) = [] then [] else V u i"
  show "lim_rel now ?W I (sweep ord now l)"
    unfolding lim_rel_def
  proof (intro allI impI)
    fix u i assume i: "CHR ''|'' \<notin> set i"
    note w = lim_relD(1) [OF assms(1) i, of u] lim_relD(2) [OF assms(1) i]
    show "window maxFailsUserIP now (?W u i) (?at (user_key u i)) \<and> window maxFailsIP now (I i) (?at (ip_key i))"
      using window_live [OF w(1) assms(2)] window_later [OF w(1) assms(2)]
        window_live [OF w(2) assms(2)] window_later [OF w(2) assms(2)]
        sweep_drops [of ord now l "user_key u i"] flood_fails_at [of ord now l i] window_empty [OF caps_pos(1)]
      by auto
  qed
  show "?W u i = V u i \<or> ?W u i = []" for u i by simp
qed

lemma run_any_rel:
  "clock_ok T evs \<Longrightarrow> lim_rel T V I l \<Longrightarrow> (\<And>u i. suffix (V u i) (U u i)) \<Longrightarrow>
   \<exists>W. lim_rel (foldl event_time T evs) W (\<lambda>i. foldl (ip_step i) (I i) evs) (foldl lim_step l evs) \<and>
     (\<forall>u i. suffix (W u i) (foldl (user_step u i) (U u i) evs))"
proof (induction evs arbitrary: T l U V I)
  case (Cons ev evs)
  have "\<exists>W. lim_rel (event_time T ev) W (\<lambda>i. ip_step i (I i) ev) (lim_step l ev) \<and>
      (\<forall>u i. suffix (W u i) (user_step u i (U u i) ev))"
  proof (cases ev)
    case (Failed ord u i t)
    obtain W where W: "lim_rel t W I (sweep ord t l)" "\<And>u i. W u i = V u i \<or> W u i = []"
      using sweep_rel [OF Cons.prems(2), of t ord] Cons.prems(1) Failed by auto
    have s: "suffix (W u' i') (U u' i')" for u' i'
      using W(2) [of u' i'] Cons.prems(3) [of u' i'] by auto
    have "CHR ''|'' \<notin> set i" using Cons.prems(1) Failed by simp
    from fail_swept [OF W(1) this, of u] s show ?thesis
      by (intro exI [of _ "\<lambda>u' i'. if u' = u \<and> i' = i then W u' i' @ [t] else W u' i'"])
        (auto simp: Failed eq_commute [of u] eq_commute [of i])
  next
    case (Succeeded u i)
    then have "lim_rel T (\<lambda>u' i'. if u' = u \<and> i' = i then [] else V u' i') I (success u i l)"
      using Cons.prems by (intro success_rel) auto
    with Cons.prems(3) show ?thesis
      by (intro exI [of _ "\<lambda>u' i'. if u' = u \<and> i' = i then [] else V u' i'"])
        (auto simp: Succeeded eq_commute [of u] eq_commute [of i])
  next
    case (Asked u i t)
    with Cons.prems show ?thesis by (intro exI [of _ V]) (simp add: blocked_rel)
  qed
  then obtain W where "lim_rel (event_time T ev) W (\<lambda>i. ip_step i (I i) ev) (lim_step l ev)"
    "\<And>u i. suffix (W u i) (user_step u i (U u i) ev)" by blast
  from Cons.IH [OF _ this] Cons.prems(1) show ?case by simp
qed auto

text \<open>\<open>blocked\<close> in terms of the histories the stored windows stand for.\<close>

lemma blocked_iff_windows:
  assumes rel: "lim_rel T U I l" and ip: "CHR ''|'' \<notin> set ip" and now: "T \<le> now"
  shows "fst (snd (blocked user ip now l)) \<longleftrightarrow>
           maxFailsUserIP \<le> length (in_window now (U user ip)) \<or> maxFailsIP \<le> length (in_window now (I ip))"
proof -
  note w = lim_relD(1) [OF rel ip, of user] lim_relD(2) [OF rel ip]
  have len: "length (fails_at (lim_fails l) (user_key user ip)) \<le> maxFailsUserIP"
    "length (fails_at (lim_fails l) (ip_key ip)) \<le> maxFailsIP" using w by (simp_all add: window_def)
  have "length (live now ts) \<le> length ts" for ts by (simp add: live_def length_dropWhile_le)
  then have "cap \<le> length (live now ts) \<longleftrightarrow> length (live now ts) = cap" if "length ts \<le> cap" for cap ts
    using that by (metis order_antisym order_refl order_trans)
  with len show ?thesis
    unfolding blocked_deadlines(1) [OF rel ip]
      live_full [OF len(1) caps_pos(1), symmetric] live_full [OF len(2) caps_pos(2), symmetric]
    by (simp add: window_full [OF w(1) now caps_pos(1)] window_full [OF w(2) now caps_pos(2)])
qed

lemma blocked_iff_history:
  assumes "run_ok T newLimiter evs" "CHR ''|'' \<notin> set ip" "foldl event_time T evs \<le> now"
  shows "fst (snd (blocked user ip now (foldl lim_step newLimiter evs))) \<longleftrightarrow>
           maxFailsUserIP \<le> length (in_window now (user_fails user ip evs)) \<or>
           maxFailsIP \<le> length (in_window now (ip_fails ip evs))"
  by (rule blocked_iff_windows [OF run_new_rel [OF assms(1)] assms(2,3)])

lemma run_any_new:
  assumes "clock_ok T evs"
  obtains W where "lim_rel (foldl event_time T evs) W (\<lambda>i. ip_fails i evs) (foldl lim_step newLimiter evs)"
    "\<And>u i. suffix (W u i) (user_fails u i evs)"
  using run_any_rel [OF assms new_rel, of "\<lambda>_ _. []"] by (auto simp: user_fails_def ip_fails_def)

lemma blocked_any_run:
  assumes "clock_ok T evs" "CHR ''|'' \<notin> set ip" "foldl event_time T evs \<le> now"
  shows "fst (snd (blocked user ip now (foldl lim_step newLimiter evs))) \<Longrightarrow>
           maxFailsUserIP \<le> length (in_window now (user_fails user ip evs)) \<or>
           maxFailsIP \<le> length (in_window now (ip_fails ip evs))"
    and "maxFailsIP \<le> length (in_window now (ip_fails ip evs)) \<Longrightarrow>
           fst (snd (blocked user ip now (foldl lim_step newLimiter evs)))"
proof -
  obtain W where W: "lim_rel (foldl event_time T evs) W (\<lambda>i. ip_fails i evs) (foldl lim_step newLimiter evs)"
    "\<And>u i. suffix (W u i) (user_fails u i evs)"
    using run_any_new [OF assms(1)] by blast
  note iff = blocked_iff_windows [OF W(1) assms(2,3), of user]
  obtain d where "user_fails user ip evs = d @ W user ip" using W(2) [of user ip] by (auto simp: suffix_def)
  then have "length (in_window now (W user ip)) \<le> length (in_window now (user_fails user ip evs))" by simp
  then show "fst (snd (blocked user ip now (foldl lim_step newLimiter evs))) \<Longrightarrow>
           maxFailsUserIP \<le> length (in_window now (user_fails user ip evs)) \<or>
           maxFailsIP \<le> length (in_window now (ip_fails ip evs))"
    using iff by linarith
  show "maxFailsIP \<le> length (in_window now (ip_fails ip evs)) \<Longrightarrow>
           fst (snd (blocked user ip now (foldl lim_step newLimiter evs)))"
    using iff by blast
qed

section \<open>Properties\<close>

text \<open>
  C15. The limiter against the full history, after any run of failures, successes and queries with a
  clock that does not go back and addresses without the separator, floods included. It never locks out
  more than the record demands: an account that is blocked at an address has at least 5 failures there
  since its last success, or the address has at least 20 for any account, within the last fifteen
  minutes. An address with 20 recent failures is always blocked, even in a flood. And as long as fewer
  than 50000 keys are stored whenever a failure is recorded, so that the flood protection does not drop
  the key of an account, the answer is exactly the record's: blocked if and only if one of the two
  counts is reached. The lists are cut to the limit and purged lazily, and that loses nothing.
\<close>

theorem limiter_refines_history:
  assumes "clock_ok T evs" "CHR ''|'' \<notin> set ip" "foldl event_time T evs \<le> now"
  shows "(fst (snd (blocked user ip now (foldl lim_step newLimiter evs))) \<longrightarrow>
           5 \<le> length (in_window now (user_fails user ip evs)) \<or>
           20 \<le> length (in_window now (ip_fails ip evs))) \<and>
         (20 \<le> length (in_window now (ip_fails ip evs)) \<longrightarrow>
           fst (snd (blocked user ip now (foldl lim_step newLimiter evs)))) \<and>
         (run_ok T newLimiter evs \<longrightarrow>
           (fst (snd (blocked user ip now (foldl lim_step newLimiter evs))) \<longleftrightarrow>
             5 \<le> length (in_window now (user_fails user ip evs)) \<or>
             20 \<le> length (in_window now (ip_fails ip evs))))"
  using blocked_any_run [OF assms, of user] blocked_iff_windows [OF run_new_rel assms(2,3), of user]
  unfolding maxFailsUserIP_def maxFailsIP_def by blast

definition demo_failures :: "lim_event list" where
  "demo_failures = map (\<lambda>t. Failed rev ''root'' ''10.0.0.7'' t) [1, 2, 3, 4, 5]"

lemma demo_failures_ok: "run_ok 0 newLimiter demo_failures"
  by (rule run_ok_short) (simp_all add: demo_failures_def newLimiter_def maxLimiterKeys_def)

theorem limiter_refines_history_witness:
  "fst (snd (blocked ''root'' ''10.0.0.7'' 6 (foldl lim_step newLimiter demo_failures)))"
  using limiter_refines_history [of 0 demo_failures "''10.0.0.7''" 6 "''root''"] demo_failures_ok
  by (simp add: demo_failures_def user_fails_def loginWindow_def)

text \<open>
  C37. The wait that \<^verbatim>\<open>blocked\<close> reports is exact, after any run with a clock that does not go back and
  addresses without the separator, floods included: with no further failure the account is locked out at a
  later instant if and only if less than the wait has passed by then. So the lock ends by itself, and a
  client that waits as told is let in.
\<close>

theorem blocked_wait_is_exact:
  assumes "clock_ok T evs" "CHR ''|'' \<notin> set ip" "now \<le> now'"
  shows "fst (snd (blocked user ip now' (foldl lim_step newLimiter evs))) \<longleftrightarrow>
           now' < now + fst (blocked user ip now (foldl lim_step newLimiter evs))"
proof -
  obtain W where "lim_rel (foldl event_time T evs) W (\<lambda>i. ip_fails i evs) (foldl lim_step newLimiter evs)"
    using run_any_new [OF assms(1)] by blast
  from blocked_deadlines [OF this assms(2)] assms(3) show ?thesis by blast
qed

theorem blocked_wait_is_exact_witness:
  "fst (snd (blocked ''root'' ''10.0.0.7'' 9 (foldl lim_step newLimiter demo_failures))) \<longleftrightarrow>
     9 < 6 + fst (blocked ''root'' ''10.0.0.7'' 6 (foldl lim_step newLimiter demo_failures))"
  by (rule blocked_wait_is_exact [of 0]) (simp_all add: demo_failures_def)

text \<open>
  C40. A distributed flood is not bounded by the limiter. When one account is tried from \<open>n\<close> different
  addresses within the window, the map holds at least \<open>n\<close> keys afterwards, however large \<open>n\<close> is: the
  flood protection removes the keys of accounts only.
\<close>

theorem flood_is_not_bounded:
  assumes "distinct ips"
  shows "length ips \<le> length (lim_fails (foldl (\<lambda>l ip. fail ord user ip now l) newLimiter ips))"
proof -
  let ?f = "lim_fails (foldl (\<lambda>l ip. fail ord user ip now l) newLimiter ips)"
  have "length ips = card (ip_key ` set ips)"
    using assms by (simp add: card_image inj_on_def distinct_card)
  also have "\<dots> \<le> card (fst ` set ?f)"
    using flood_keeps_every_address by (intro card_mono) auto
  also have "\<dots> \<le> length ?f" using card_length [of "map fst ?f"] by simp
  finally show ?thesis .
qed

theorem flood_is_not_bounded_witness:
  "2 \<le> length (lim_fails (foldl (\<lambda>l ip. fail rev ''root'' ip 9 l) newLimiter [''10.0.0.7'', ''10.0.0.8'']))"
  using flood_is_not_bounded [of "[''10.0.0.7'', ''10.0.0.8'']" rev "''root''" 9] by simp

end
