(* ===== verification/Enc_Policy.thy ===== *)
theory Enc_Policy
  imports Go_Strings
begin

text \<open>
  Roles, the route policy and the canonical form of request paths of the encoder's API
  (\<^verbatim>\<open>policy.go\<close>, the roles of \<^verbatim>\<open>auth.go\<close> and \<^verbatim>\<open>cleanPath\<close> of \<^verbatim>\<open>middleware.go\<close> under
  \<^verbatim>\<open>streamhub-encoder/internal/auth\<close>). A role is a string, as in the source: what a stored account
  carries need not be one of the three known ones.
\<close>

section \<open>Roles\<close>

type_synonym role = string

definition RoleViewer :: role where "RoleViewer = ''viewer''"
definition RoleOperator :: role where "RoleOperator = ''operator''"
definition RoleAdmin :: role where "RoleAdmin = ''admin''"

definition rank :: "role \<Rightarrow> nat" where
  "rank r = (if r = RoleViewer then 1 else if r = RoleOperator then 2 else if r = RoleAdmin then 3 else 0)"

definition role_Valid :: "role \<Rightarrow> bool" where
  "role_Valid r = (rank r > 0)"

definition AtLeast :: "role \<Rightarrow> role \<Rightarrow> bool" where
  "AtLeast r mn = (role_Valid r \<and> rank r \<ge> rank mn)"

section \<open>The policy\<close>

definition DefaultOperatorRoutes :: "string list" where
  "DefaultOperatorRoutes =
     [''POST /api/v1/channels/*/start'', ''POST /api/v1/channels/*/stop'', ''POST /api/v1/channels/*/restart'',
      ''POST /api/v1/channels/*/outputs/*/restart'', ''POST /api/v1/channels/*/scte35'', ''POST /api/v1/alarms/*/ack'']"

definition DefaultAdminReadPrefixes :: "string list" where
  "DefaultAdminReadPrefixes = [''/api/v1/users'', ''/api/v1/tokens'', ''/api/v1/audit'', ''/api/v1/config/backup'']"

record routePattern =
  rp_method :: string
  rp_segs :: "string list"

record policy =
  pol_operator :: "routePattern list"
  pol_adminReads :: "string list"

definition splitPath :: "string \<Rightarrow> string list" where
  "splitPath p = Split (Trim p CHR ''/'') CHR ''/''"

text \<open>\<open>upper\<close> stands for the Unicode tables of \<^verbatim>\<open>strings.ToUpper\<close>; \<open>None\<close> is the error on a bad route.\<close>

fun parse_routes :: "(string \<Rightarrow> string) \<Rightarrow> string list \<Rightarrow> routePattern list option" where
  "parse_routes upper [] = Some []"
| "parse_routes upper (r # rs) =
     (case Cut (TrimSpace r) CHR '' '' of (m, path, ok) \<Rightarrow>
        if \<not> ok \<or> m = [] \<or> \<not> HasPrefix path ''/'' then None
        else map_option ((#) \<lparr>rp_method = ToUpper upper m, rp_segs = splitPath path\<rparr>) (parse_routes upper rs))"

definition newPolicy :: "(string \<Rightarrow> string) \<Rightarrow> string list \<Rightarrow> string list \<Rightarrow> policy option" where
  "newPolicy upper extraOps extraAdminReads =
     map_option (\<lambda>ops. \<lparr>pol_operator = ops,
         pol_adminReads = map (\<lambda>pre. TrimSuffix pre ''/'') (DefaultAdminReadPrefixes @ extraAdminReads)\<rparr>)
       (parse_routes upper (DefaultOperatorRoutes @ extraOps))"

definition seg_match :: "string \<Rightarrow> string \<Rightarrow> bool" where
  "seg_match s seg = (if s = ''*'' then seg \<noteq> [] else s = seg)"

definition match :: "routePattern \<Rightarrow> string \<Rightarrow> string list \<Rightarrow> bool" where
  "match rp method segs =
     (rp_method rp = method \<and> length (rp_segs rp) = length segs \<and>
      list_all (\<lambda>(s, seg). seg_match s seg) (zip (rp_segs rp) segs))"

definition isRead :: "string \<Rightarrow> bool" where
  "isRead method = (method = ''GET'' \<or> method = ''HEAD'' \<or> method = ''OPTIONS'')"

definition hasSegPrefix :: "string \<Rightarrow> string \<Rightarrow> bool" where
  "hasSegPrefix path pre = (path = pre \<or> HasPrefix path (pre @ ''/''))"

definition hasSegPrefixLoose :: "string \<Rightarrow> string \<Rightarrow> bool" where
  "hasSegPrefixLoose path pre = HasPrefix path pre"

definition minRole :: "policy \<Rightarrow> string \<Rightarrow> string \<Rightarrow> role" where
  "minRole p method path =
     (if isRead method then
        (if list_ex (hasSegPrefix path) (pol_adminReads p) then RoleAdmin else RoleViewer)
      else if list_ex (\<lambda>rp. match rp method (splitPath path)) (pol_operator p) then RoleOperator
      else RoleAdmin)"

datatype access = accessPublic | accessAuthOnly | accessRole

definition is_api :: "string \<Rightarrow> bool" where
  "is_api path = (path = ''/api'' \<or> HasPrefix path ''/api/'')"

definition classify :: "policy \<Rightarrow> bool \<Rightarrow> string \<Rightarrow> string \<Rightarrow> access \<times> role" where
  "classify pol metrics method path =
     (let rd = isRead method
      in if \<not> is_api path then
           (if path = ''/metrics'' then
              (if rd \<and> metrics then (accessPublic, [])
               else if rd then (accessRole, RoleViewer)
               else (accessRole, RoleAdmin))
            else if rd then (accessPublic, [])
            else (accessRole, RoleAdmin))
         else if rd \<and> path = ''/api/v1/health'' \<or> rd \<and> hasSegPrefixLoose path ''/api/v1/docs'' \<or>
                 rd \<and> hasSegPrefixLoose path ''/api/v1/openapi'' \<or> rd \<and> hasSegPrefixLoose path ''/api/v1/schemas'' \<or>
                 method = ''POST'' \<and> path = ''/api/v1/auth/login'' \<or> method = ''POST'' \<and> path = ''/api/v1/auth/logout''
              then (accessPublic, [])
         else if hasSegPrefix path ''/api/v1/auth'' then (accessAuthOnly, [])
         else (accessRole, minRole pol method path))"

section \<open>Canonical paths\<close>

text \<open>\<^verbatim>\<open>path.Clean\<close> of a rooted path: empty and \<open>.\<close> elements vanish, \<open>..\<close> removes the element before it.\<close>

definition clean_step :: "string list \<Rightarrow> string \<Rightarrow> string list" where
  "clean_step acc seg =
     (if seg = [] \<or> seg = ''.'' then acc else if seg = ''..'' then butlast acc else acc @ [seg])"

definition clean_segs :: "string \<Rightarrow> string list" where
  "clean_segs p = foldl clean_step [] (Split p CHR ''/'')"

definition path_Clean :: "string \<Rightarrow> string" where
  "path_Clean p = ''/'' @ join ''/'' (clean_segs p)"

definition cleanPath :: "string \<Rightarrow> string" where
  "cleanPath p =
     (if p = [] then ''/''
      else let q = (if hd p \<noteq> CHR ''/'' then ''/'' @ p else p);
               np = path_Clean q
           in if HasSuffix q ''/'' \<and> np \<noteq> ''/'' then np @ ''/'' else np)"

section \<open>Lemmas on paths\<close>

definition seg_ok :: "string \<Rightarrow> bool" where
  "seg_ok s \<longleftrightarrow> s \<noteq> [] \<and> s \<noteq> ''.'' \<and> s \<noteq> ''..'' \<and> CHR ''/'' \<notin> set s"

definition render :: "string list \<Rightarrow> string" where
  "render segs = concat (map (\<lambda>s. CHR ''/'' # s) segs)"

lemma clean_fold_ok:
  "list_all seg_ok acc \<Longrightarrow> (\<And>s. s \<in> set segs \<Longrightarrow> CHR ''/'' \<notin> set s) \<Longrightarrow>
   list_all seg_ok (foldl clean_step acc segs)"
proof (induction segs arbitrary: acc)
  case (Cons s segs)
  have "list_all seg_ok (clean_step acc s)"
    using Cons.prems by (auto simp: clean_step_def seg_ok_def list_all_iff dest: in_set_butlastD)
  with Cons show ?case by simp
qed simp

lemma clean_segs_ok: "list_all seg_ok (clean_segs p)"
  unfolding clean_segs_def by (rule clean_fold_ok) (simp, rule Split_parts)

lemma render_join: "segs \<noteq> [] \<Longrightarrow> render segs = ''/'' @ join ''/'' segs"
proof (induction segs)
  case (Cons s segs)
  then show ?case by (cases segs) (simp_all add: render_def)
qed simp

lemma path_Clean_render: "path_Clean p = (if clean_segs p = [] then ''/'' else render (clean_segs p))"
  by (simp add: path_Clean_def render_join)

lemma render_not_root: "list_all seg_ok segs \<Longrightarrow> segs \<noteq> [] \<Longrightarrow> render segs \<noteq> ''/''"
  by (cases segs) (auto simp: render_def seg_ok_def)

lemma clean_segs_slash: "clean_segs (CHR ''/'' # p) = clean_segs p"
  by (simp add: clean_segs_def clean_step_def)

text \<open>The shape of a canonical path: the rendered segments, perhaps followed by a slash.\<close>

definition canon_path :: "string list \<Rightarrow> bool \<Rightarrow> string" where
  "canon_path segs slash = (if segs = [] then ''/'' else render segs @ (if slash then ''/'' else []))"

lemma cleanPath_canon_path: "cleanPath p = canon_path (clean_segs p) (HasSuffix p ''/'')"
proof (cases "p = []")
  case True
  then show ?thesis by (simp add: cleanPath_def canon_path_def clean_segs_def clean_step_def)
next
  case False
  let ?q = "if hd p \<noteq> CHR ''/'' then ''/'' @ p else p"
  have q: "clean_segs ?q = clean_segs p" by (simp add: clean_segs_slash)
  have np: "cleanPath p =
      (if HasSuffix ?q ''/'' \<and> path_Clean ?q \<noteq> ''/'' then path_Clean ?q @ ''/'' else path_Clean ?q)"
    using False by (simp only: cleanPath_def Let_def if_False)
  show ?thesis
  proof (cases "clean_segs p = []")
    case True
    then have "cleanPath p = ''/''" unfolding np path_Clean_render q by simp
    with True show ?thesis by (simp add: canon_path_def)
  next
    case segs: False
    have "HasSuffix ?q ''/'' = HasSuffix p ''/''"
      using False by (cases p rule: rev_cases) (auto simp: HasSuffix_def HasPrefix_def)
    then show ?thesis
      unfolding np path_Clean_render q canon_path_def using render_not_root [OF clean_segs_ok segs] segs by simp
  qed
qed

lemma cleanPath_shape: "\<exists>slash. cleanPath p = canon_path (clean_segs p) slash"
  using cleanPath_canon_path by blast

lemma render_prefix:
  assumes "list_all seg_ok xs" "list_all seg_ok ys" "t = [] \<or> hd t = CHR ''/''" "t' = [] \<or> hd t' = CHR ''/''"
    and "render xs @ t = render ys @ t'" "length ys \<le> length xs"
  shows "take (length ys) xs = ys"
  using assms
proof (induction ys arbitrary: xs)
  case (Cons y ys)
  then obtain x xs' where xs: "xs = x # xs'" by (cases xs) auto
  have tw: "takeWhile (\<lambda>c. c \<noteq> CHR ''/'') (s @ r) = s"
    if "seg_ok s" "r = [] \<or> hd r = CHR ''/''" for s r
  proof -
    have "takeWhile (\<lambda>c. c \<noteq> CHR ''/'') (s @ r) = s @ takeWhile (\<lambda>c. c \<noteq> CHR ''/'') r"
      using that(1) by (intro takeWhile_append2) (auto simp: seg_ok_def)
    then show ?thesis using that(2) by (cases r) auto
  qed
  have hd_render: "render zs @ r = [] \<or> hd (render zs @ r) = CHR ''/''" if "r = [] \<or> hd r = CHR ''/''" for zs r
    using that by (cases zs) (auto simp: render_def)
  have eq: "x @ render xs' @ t = y @ render ys @ t'" using Cons.prems(5) xs by (simp add: render_def)
  have "x = y"
    using arg_cong [OF eq, of "takeWhile (\<lambda>c. c \<noteq> CHR ''/'')"] Cons.prems(1,2) xs
      tw [of x "render xs' @ t"] tw [of y "render ys @ t'"] hd_render [of t xs'] hd_render [of t' ys] Cons.prems(3,4)
    by simp
  with eq Cons xs show ?case by simp
qed simp

text \<open>Prefixes and splits of canonical paths, in terms of their segments.\<close>

lemma render_append [simp]: "render (xs @ ys) = render xs @ render ys"
  by (simp add: render_def)

lemma render_short: "list_all seg_ok zs \<Longrightarrow> length (render zs) \<le> 1 \<longleftrightarrow> zs = []"
  by (cases zs) (auto simp: render_def seg_ok_def)

lemma take_of_longer:
  assumes "list_all seg_ok xs" "list_all seg_ok ys" "t = [] \<or> t = ''/''" "t' = [] \<or> hd t' = CHR ''/''"
    and "render xs @ t = render ys @ t'"
  shows "take (length ys) xs = ys"
proof (cases "length ys \<le> length xs")
  case True
  with assms show ?thesis by (intro render_prefix [where t = t and t' = t']) auto
next
  case False
  then have "take (length xs) ys = xs"
    using assms by (intro render_prefix [where t = t' and t' = t]) auto
  then obtain zs where zs: "ys = xs @ zs" by (metis append_take_drop_id)
  with assms(5) have "t = render zs @ t'" by simp
  then have "length (render zs) \<le> length t" by simp
  with assms(3) have "length (render zs) \<le> 1" by auto
  then have "zs = []" using render_short assms(2) zs by auto
  with zs show ?thesis by simp
qed

lemma hasSegPrefix_canon:
  assumes "list_all seg_ok segs" "list_all seg_ok ys" "ys \<noteq> []"
  shows "hasSegPrefix (canon_path segs slash) (render ys) \<longleftrightarrow> take (length ys) segs = ys"
proof
  assume pre: "hasSegPrefix (canon_path segs slash) (render ys)"
  have len: "1 < length (render ys)" using render_short [OF assms(2)] assms(3) by auto
  have "segs \<noteq> []"
    using pre len by (auto simp: hasSegPrefix_def canon_path_def HasPrefix_iff dest: arg_cong [of _ _ length])
  then obtain t where t: "canon_path segs slash = render segs @ t" "t = [] \<or> t = ''/''"
    by (auto simp: canon_path_def)
  obtain t' where "render segs @ t = render ys @ t'" "t' = [] \<or> hd t' = CHR ''/''"
    using pre unfolding hasSegPrefix_def HasPrefix_iff t(1) by fastforce
  with take_of_longer assms t show "take (length ys) segs = ys" by blast
next
  assume "take (length ys) segs = ys"
  then obtain zs where "segs = ys @ zs" by (metis append_take_drop_id)
  with assms(3) show "hasSegPrefix (canon_path segs slash) (render ys)"
    by (cases zs) (auto simp: hasSegPrefix_def canon_path_def HasPrefix_iff render_def)
qed

lemma join_ends:
  "list_all seg_ok segs \<Longrightarrow> segs \<noteq> [] \<Longrightarrow>
   join ''/'' segs \<noteq> [] \<and> hd (join ''/'' segs) \<noteq> CHR ''/'' \<and> last (join ''/'' segs) \<noteq> CHR ''/''"
proof (induction segs rule: induct_list012)
  case (2 s)
  then show ?case by (simp add: seg_ok_def) (metis hd_in_set last_in_set)
next
  case (3 s r segs)
  then have "seg_ok s" by simp
  then have "s \<noteq> []" "hd s \<noteq> CHR ''/''" unfolding seg_ok_def by (blast, metis hd_in_set)
  with 3 show ?case by simp
qed simp

lemma splitPath_canon:
  assumes "list_all seg_ok segs"
  shows "splitPath (canon_path segs slash) = (if segs = [] then [[]] else segs)"
proof (cases "segs = []")
  case True
  then show ?thesis by (simp add: splitPath_def canon_path_def Trim_def)
next
  case False
  let ?j = "join ''/'' segs"
  note ends = join_ends [OF assms False]
  have "dropWhile (\<lambda>x. x = CHR ''/'') ?j = ?j" using ends by (cases ?j) auto
  moreover have "dropWhile (\<lambda>x. x = CHR ''/'') (rev ?j) = rev ?j"
    using ends by (cases ?j rule: rev_cases) auto
  moreover have "dropWhile (\<lambda>x. x = CHR ''/'') (?j @ ''/'') = ?j @ ''/''" using ends by (cases ?j) auto
  ultimately have "Trim (canon_path segs slash) CHR ''/'' = ?j"
    using False by (simp add: canon_path_def render_join Trim_def)
  moreover have "CHR ''/'' \<notin> set s" if "s \<in> set segs" for s using that assms by (auto simp: list_all_iff seg_ok_def)
  ultimately show ?thesis using False Split_join [of segs "CHR ''/''"] by (simp add: splitPath_def)
qed

lemma clean_fold_id: "list_all seg_ok segs \<Longrightarrow> foldl clean_step acc segs = acc @ segs"
  by (induction segs arbitrary: acc) (auto simp: clean_step_def seg_ok_def)

lemma Split_segs:
  assumes no: "\<And>s. s \<in> set segs \<Longrightarrow> CHR ''/'' \<notin> set s" and "segs \<noteq> []"
  shows "Split (render segs) CHR ''/'' = [] # segs" "Split (render segs @ ''/'') CHR ''/'' = [] # segs @ [[]]"
proof -
  have j: "render segs = join ''/'' ([] # segs)" using assms(2) by (cases segs) (auto simp: render_join)
  show "Split (render segs) CHR ''/'' = [] # segs"
    unfolding j by (rule Split_join) (auto simp: no)
  have app: "join ''/'' ss @ ''/'' = join ''/'' (ss @ [[]])" if "ss \<noteq> []" for ss
    using that by (induction ss rule: induct_list012) auto
  show "Split (render segs @ ''/'') CHR ''/'' = [] # segs @ [[]]"
    unfolding j app [OF list.distinct(2)] by (subst Split_join) (auto simp: no)
qed

lemma seg_ok_no_slash: "list_all seg_ok segs \<Longrightarrow> s \<in> set segs \<Longrightarrow> CHR ''/'' \<notin> set s"
  by (auto simp: list_all_iff seg_ok_def)

lemma Split_render:
  assumes "list_all seg_ok segs" "segs \<noteq> []"
  shows "Split (render segs) CHR ''/'' = [] # segs" "Split (render segs @ ''/'') CHR ''/'' = [] # segs @ [[]]"
  using Split_segs [OF seg_ok_no_slash [OF assms(1)] assms(2)] by simp_all

lemma clean_segs_canon: "list_all seg_ok segs \<Longrightarrow> clean_segs (canon_path segs slash) = segs"
  by (auto simp: canon_path_def clean_segs_def Split_render clean_fold_id clean_step_def)

lemma cleanPath_canon:
  assumes "list_all seg_ok segs"
  shows "cleanPath (canon_path segs slash) = canon_path segs slash"
proof (cases "segs = []")
  case True
  then show ?thesis
    by (simp add: canon_path_def cleanPath_def path_Clean_def clean_segs_def clean_step_def Let_def)
next
  case False
  let ?c = "canon_path segs slash"
  have c: "?c \<noteq> []" "hd ?c = CHR ''/''" using False by (simp_all add: canon_path_def render_join)
  have "HasSuffix ?c ''/'' \<longleftrightarrow> slash"
  proof (cases slash)
    case True
    then show ?thesis using False by (simp add: canon_path_def HasSuffix_def HasPrefix_def)
  next
    case no: False
    have "last (render segs) \<noteq> CHR ''/''" "render segs \<noteq> []"
      using join_ends [OF assms False] False by (simp_all add: render_join)
    with no False show ?thesis
      by (cases "render segs" rule: rev_cases) (auto simp: canon_path_def HasSuffix_def HasPrefix_def)
  qed
  moreover have "path_Clean ?c = render segs" "render segs \<noteq> ''/''"
    using False render_not_root [OF assms False] by (simp_all add: path_Clean_render clean_segs_canon [OF assms])
  ultimately have "cleanPath ?c = (if slash then render segs @ ''/'' else render segs)"
    using c by (cases slash) (simp_all add: cleanPath_def Let_def)
  then show ?thesis using False by (simp add: canon_path_def)
qed

section \<open>Access by segments\<close>

text \<open>The role a request needs, by the segments of its path; \<open>reads\<close> are the segments of the prefixes
  reserved to admins.\<close>

definition admin_read_segs :: "string list list" where
  "admin_read_segs = [[''api'', ''v1'', ''users''], [''api'', ''v1'', ''tokens''], [''api'', ''v1'', ''audit''],
                      [''api'', ''v1'', ''config'', ''backup'']]"

definition below :: "string list \<Rightarrow> string list \<Rightarrow> bool" where
  "below segs ys \<longleftrightarrow> take (length ys) segs = ys"

definition seg_role :: "string list list \<Rightarrow> policy \<Rightarrow> string \<Rightarrow> string list \<Rightarrow> role" where
  "seg_role reads pol method segs =
     (if isRead method then (if list_ex (below segs) reads then RoleAdmin else RoleViewer)
      else if list_ex (\<lambda>rp. match rp method (if segs = [] then [[]] else segs)) (pol_operator pol)
           then RoleOperator
      else RoleAdmin)"

text \<open>A route of the API documentation: its third segment starts with one of three words.\<close>

definition doc_segs :: "string list \<Rightarrow> bool" where
  "doc_segs segs \<longleftrightarrow>
     (\<exists>s rest. segs = ''api'' # ''v1'' # s # rest \<and> (HasPrefix s ''docs'' \<or> HasPrefix s ''openapi'' \<or> HasPrefix s ''schemas''))"

text \<open>The access a request needs, by its segments and whether a slash follows them.\<close>

definition seg_access ::
  "string list list \<Rightarrow> policy \<Rightarrow> bool \<Rightarrow> string \<Rightarrow> string list \<Rightarrow> bool \<Rightarrow> access \<times> role" where
  "seg_access reads pol metrics method segs slash =
     (if \<not> below segs [''api''] then
        (if segs = [''metrics''] \<and> \<not> slash \<and> \<not> (isRead method \<and> metrics)
         then (accessRole, if isRead method then RoleViewer else RoleAdmin)
         else if isRead method then (accessPublic, [])
         else (accessRole, RoleAdmin))
      else if isRead method \<and> (segs = [''api'', ''v1'', ''health''] \<and> \<not> slash \<or> doc_segs segs) \<or>
              method = ''POST'' \<and> (segs = [''api'', ''v1'', ''auth'', ''login''] \<or> segs = [''api'', ''v1'', ''auth'', ''logout'']) \<and> \<not> slash
           then (accessPublic, [])
      else if below segs [''api'', ''v1'', ''auth''] then (accessAuthOnly, [])
      else (accessRole, seg_role reads pol method segs))"

text \<open>A prefix as it is configured: its segments, perhaps with a slash at the end.\<close>

definition prefix_of :: "string list \<times> bool \<Rightarrow> string" where
  "prefix_of y = render (fst y) @ (if snd y then ''/'' else [])"

lemma TrimSuffix_prefix: "list_all seg_ok (fst y) \<Longrightarrow> TrimSuffix (prefix_of y) ''/'' = render (fst y)"
proof (cases "fst y = []")
  case False
  assume ok: "list_all seg_ok (fst y)"
  have "last (render (fst y)) \<noteq> CHR ''/''" "render (fst y) \<noteq> []"
    using join_ends [OF ok False] False by (simp_all add: render_join)
  then show ?thesis
    by (cases "render (fst y)" rule: rev_cases) (auto simp: prefix_of_def TrimSuffix_def HasSuffix_def HasPrefix_def)
qed (auto simp: prefix_of_def render_def TrimSuffix_def HasSuffix_def HasPrefix_def)

lemma admin_reads:
  assumes "newPolicy upper ops (map prefix_of extra) = Some pol" "\<forall>y \<in> set extra. list_all seg_ok (fst y)"
  shows "pol_adminReads pol = map render (admin_read_segs @ map fst extra)"
proof -
  have "map (\<lambda>pre. TrimSuffix pre ''/'') DefaultAdminReadPrefixes = map render admin_read_segs" by code_simp
  moreover have "map (\<lambda>pre. TrimSuffix pre ''/'') (map prefix_of extra) = map render (map fst extra)"
    using assms(2) by (simp add: TrimSuffix_prefix)
  ultimately show ?thesis using assms(1) by (auto simp: newPolicy_def)
qed

lemma admin_read_ok: "ys \<in> set admin_read_segs \<Longrightarrow> list_all seg_ok ys"
  by (auto simp: admin_read_segs_def seg_ok_def)

lemma hasSegPrefix_below:
  assumes "list_all seg_ok segs" "list_all seg_ok ys"
  shows "hasSegPrefix (canon_path segs slash) (render ys) \<longleftrightarrow> below segs ys"
proof (cases "ys = []")
  case True
  have "HasPrefix (canon_path segs slash) ''/''"
    by (cases segs) (auto simp: canon_path_def render_def HasPrefix_def)
  with True show ?thesis by (simp add: hasSegPrefix_def below_def render_def)
qed (simp add: hasSegPrefix_canon [OF assms] below_def)

lemma canon_path_eq:
  assumes "list_all seg_ok segs" "list_all seg_ok ys" "ys \<noteq> []"
  shows "canon_path segs slash = render ys \<longleftrightarrow> segs = ys \<and> \<not> slash"
proof
  assume eq: "canon_path segs slash = render ys"
  have r: "render ys = canon_path ys False" using assms(3) by (simp add: canon_path_def)
  have "segs = ys"
    using arg_cong [OF eq, of clean_segs] assms clean_segs_canon unfolding r by simp
  with eq assms(3) show "segs = ys \<and> \<not> slash" by (auto simp: canon_path_def split: if_splits)
qed (use assms(3) in \<open>simp add: canon_path_def\<close>)

text \<open>A loose prefix ends inside a segment.\<close>

lemma HasPrefix_in_segment:
  assumes "HasPrefix (s @ r) w" "r = [] \<or> hd r = CHR ''/''" "CHR ''/'' \<notin> set w"
  shows "HasPrefix s w"
proof -
  obtain x where x: "s @ r = w @ x" using assms(1) by (auto simp: HasPrefix_iff)
  then consider u where "s = w @ u" | u where "w = s @ u" "r = u @ x" by (auto simp: append_eq_append_conv2)
  then show ?thesis
  proof cases
    case (2 u)
    with assms(2,3) have "u = []" by (cases u) auto
    with 2 show ?thesis by (simp add: HasPrefix_iff)
  qed (auto simp: HasPrefix_iff)
qed

lemma HasPrefix_canon:
  assumes "list_all seg_ok segs" "list_all seg_ok ys" "ys \<noteq> []" "w \<noteq> []" "CHR ''/'' \<notin> set w"
  shows "HasPrefix (canon_path segs slash) (render ys @ ''/'' @ w) \<longleftrightarrow> (\<exists>s rest. segs = ys @ s # rest \<and> HasPrefix s w)"
proof
  assume pre: "HasPrefix (canon_path segs slash) (render ys @ ''/'' @ w)"
  then have "hasSegPrefix (canon_path segs slash) (render ys)"
    by (auto simp: hasSegPrefix_def HasPrefix_iff)
  then have "take (length ys) segs = ys" using hasSegPrefix_canon [OF assms(1-3)] by simp
  then obtain zs where zs: "segs = ys @ zs" by (metis append_take_drop_id)
  let ?t = "if slash then ''/'' else []"
  have "canon_path segs slash = render ys @ render zs @ ?t" using zs assms(3) by (simp add: canon_path_def)
  with pre have p: "HasPrefix (render zs @ ?t) (''/'' @ w)" by (auto simp: HasPrefix_iff)
  obtain s rest where s: "zs = s # rest"
    using p assms(4) by (cases zs) (auto simp: HasPrefix_iff render_def split: if_splits)
  have "HasPrefix (s @ (render rest @ ?t)) w" using p s by (auto simp: HasPrefix_iff render_def)
  moreover have "render rest @ ?t = [] \<or> hd (render rest @ ?t) = CHR ''/''" by (cases rest) (auto simp: render_def)
  ultimately show "\<exists>s rest. segs = ys @ s # rest \<and> HasPrefix s w"
    using HasPrefix_in_segment assms(5) zs s by blast
next
  assume "\<exists>s rest. segs = ys @ s # rest \<and> HasPrefix s w"
  then show "HasPrefix (canon_path segs slash) (render ys @ ''/'' @ w)"
    by (auto simp: canon_path_def HasPrefix_iff render_def)
qed

text \<open>The policy on a canonical path, by its segments.\<close>

lemma minRole_canon:
  assumes pol: "newPolicy upper ops (map prefix_of extra) = Some pol" "\<forall>y \<in> set extra. list_all seg_ok (fst y)"
    and segs: "list_all seg_ok segs"
  shows "minRole pol method (canon_path segs slash) = seg_role (admin_read_segs @ map fst extra) pol method segs"
proof -
  have "hasSegPrefix (canon_path segs slash) (render ys) \<longleftrightarrow> below segs ys"
    if "ys \<in> set (admin_read_segs @ map fst extra)" for ys
    using that admin_read_ok pol(2) by (intro hasSegPrefix_below [OF segs]) auto
  then have "list_ex (hasSegPrefix (canon_path segs slash)) (pol_adminReads pol) \<longleftrightarrow>
      list_ex (below segs) (admin_read_segs @ map fst extra)"
    unfolding admin_reads [OF pol] list_ex_iff by auto
  then show ?thesis by (simp add: minRole_def seg_role_def splitPath_canon [OF segs])
qed

lemma is_api_canon: "list_all seg_ok segs \<Longrightarrow> is_api (canon_path segs slash) \<longleftrightarrow> below segs [''api'']"
  using hasSegPrefix_below [of segs "[''api'']" slash]
  by (simp add: is_api_def hasSegPrefix_def render_def seg_ok_def)

lemma public_paths:
  assumes "list_all seg_ok segs"
  shows "canon_path segs slash = ''/metrics'' \<longleftrightarrow> segs = [''metrics''] \<and> \<not> slash"
    "canon_path segs slash = ''/api/v1/health'' \<longleftrightarrow> segs = [''api'', ''v1'', ''health''] \<and> \<not> slash"
    "canon_path segs slash = ''/api/v1/auth/login'' \<longleftrightarrow> segs = [''api'', ''v1'', ''auth'', ''login''] \<and> \<not> slash"
    "canon_path segs slash = ''/api/v1/auth/logout'' \<longleftrightarrow> segs = [''api'', ''v1'', ''auth'', ''logout''] \<and> \<not> slash"
    "hasSegPrefix (canon_path segs slash) ''/api/v1/auth'' \<longleftrightarrow> below segs [''api'', ''v1'', ''auth'']"
  using canon_path_eq [OF assms, of "[''metrics'']" slash] canon_path_eq [OF assms, of "[''api'', ''v1'', ''health'']" slash]
    canon_path_eq [OF assms, of "[''api'', ''v1'', ''auth'', ''login'']" slash]
    canon_path_eq [OF assms, of "[''api'', ''v1'', ''auth'', ''logout'']" slash]
    hasSegPrefix_below [OF assms, of "[''api'', ''v1'', ''auth'']" slash]
  by (simp_all add: render_def seg_ok_def)

lemma doc_paths:
  assumes "list_all seg_ok segs"
  shows "hasSegPrefixLoose (canon_path segs slash) ''/api/v1/docs'' \<or> hasSegPrefixLoose (canon_path segs slash) ''/api/v1/openapi'' \<or>
     hasSegPrefixLoose (canon_path segs slash) ''/api/v1/schemas'' \<longleftrightarrow> doc_segs segs"
proof -
  have r: "''/api/v1/docs'' = render [''api'', ''v1''] @ ''/'' @ ''docs''"
    "''/api/v1/openapi'' = render [''api'', ''v1''] @ ''/'' @ ''openapi''"
    "''/api/v1/schemas'' = render [''api'', ''v1''] @ ''/'' @ ''schemas''"
    by (simp_all add: render_def)
  have ok: "list_all seg_ok [''api'', ''v1'']" by (simp add: seg_ok_def)
  show ?thesis
    unfolding r hasSegPrefixLoose_def doc_segs_def
    using HasPrefix_canon [OF assms ok, of "''docs''" slash] HasPrefix_canon [OF assms ok, of "''openapi''" slash]
      HasPrefix_canon [OF assms ok, of "''schemas''" slash]
    by auto
qed

lemma classify_canon:
  assumes pol: "newPolicy upper ops (map prefix_of extra) = Some pol" "\<forall>y \<in> set extra. list_all seg_ok (fst y)"
    and segs: "list_all seg_ok segs"
  shows "classify pol metrics method (canon_path segs slash) =
    seg_access (admin_read_segs @ map fst extra) pol metrics method segs slash"
proof -
  have "isRead method \<and> canon_path segs slash = ''/api/v1/health'' \<or>
      isRead method \<and> hasSegPrefixLoose (canon_path segs slash) ''/api/v1/docs'' \<or>
      isRead method \<and> hasSegPrefixLoose (canon_path segs slash) ''/api/v1/openapi'' \<or>
      isRead method \<and> hasSegPrefixLoose (canon_path segs slash) ''/api/v1/schemas'' \<or>
      method = ''POST'' \<and> canon_path segs slash = ''/api/v1/auth/login'' \<or>
      method = ''POST'' \<and> canon_path segs slash = ''/api/v1/auth/logout'' \<longleftrightarrow>
    isRead method \<and> (segs = [''api'', ''v1'', ''health''] \<and> \<not> slash \<or> doc_segs segs) \<or>
      method = ''POST'' \<and> (segs = [''api'', ''v1'', ''auth'', ''login''] \<or> segs = [''api'', ''v1'', ''auth'', ''logout'']) \<and> \<not> slash"
    unfolding doc_paths [OF segs, of slash, symmetric] public_paths [OF segs] by blast
  then show ?thesis
    unfolding classify_def seg_access_def Let_def minRole_canon [OF assms] is_api_canon [OF segs] public_paths(1,5) [OF segs]
    by (cases "isRead method"; cases metrics) (simp_all only: if_True if_False simp_thms split: if_split, blast+)
qed

section \<open>Properties\<close>

text \<open>
  \<^verbatim>\<open>cleanPath\<close> returns a canonical path and leaves a canonical path as it is: a slash, then segments that
  are neither empty nor \<^verbatim>\<open>.\<close> nor \<^verbatim>\<open>..\<close>, separated by single slashes, with at most one slash at the end. So
  no doubled slash and no dot segment reaches the policy.
\<close>

theorem cleanPath_is_canonical:
  "cleanPath (cleanPath p) = cleanPath p \<and>
   (\<exists>segs slash. cleanPath p = canon_path segs slash \<and> list_all seg_ok segs)"
proof -
  obtain slash where s: "cleanPath p = canon_path (clean_segs p) slash" using cleanPath_shape by blast
  then show ?thesis using cleanPath_canon [OF clean_segs_ok] clean_segs_ok by metis
qed

text \<open>
  C30. The access that the policy requires is a function of the method, the segments of the request path
  and whether a slash follows them, however the path is spelled, for every policy that \<^verbatim>\<open>newPolicy\<close> builds
  from any operator routes and any further prefixes reserved to admins that are written as segments.
  For every raw path, with doubled slashes and dot segments: outside \<^verbatim>\<open>/api\<close> reads are public, except of
  the metrics when they are not, and writes need an admin; health, the documentation, login and logout
  are public at exactly these paths; below \<^verbatim>\<open>/api/v1/auth\<close> any principal will do; and elsewhere reads below
  \<^verbatim>\<open>/api/v1/users\<close>, \<^verbatim>\<open>/api/v1/tokens\<close>, \<^verbatim>\<open>/api/v1/audit\<close>, \<^verbatim>\<open>/api/v1/config/backup\<close> and the further
  prefixes need an admin, other reads a viewer, a write that matches an operator route segment by
  segment an operator and any other write an admin.
\<close>

theorem policy_sees_segments:
  assumes "newPolicy upper ops (map prefix_of extra) = Some pol" "\<forall>y \<in> set extra. list_all seg_ok (fst y)"
  shows "classify pol metrics method (cleanPath p) =
    seg_access (admin_read_segs @ map fst extra) pol metrics method (clean_segs p) (HasSuffix p ''/'')"
  unfolding cleanPath_canon_path by (rule classify_canon [OF assms clean_segs_ok])

text \<open>The policy of \<^verbatim>\<open>encoderd\<close>: one more operator route and the notifications reserved to admins.\<close>

theorem policy_sees_segments_witness:
  "\<exists>pol. newPolicy (\<lambda>s. s) [''POST /api/v1/channels/*/loudness/reset''] [''/api/v1/notify''] = Some pol \<and>
     classify pol False ''GET'' (cleanPath ''/api//v1/x/../notify/'') = (accessRole, RoleAdmin)"
proof -
  let ?extra = "[([''api'', ''v1'', ''notify''], False)]"
  have pre: "[''/api/v1/notify''] = map prefix_of ?extra" by (simp add: prefix_of_def render_def)
  have "newPolicy (\<lambda>s. s) [''POST /api/v1/channels/*/loudness/reset''] [''/api/v1/notify''] \<noteq> None"
    by (simp add: newPolicy_def DefaultOperatorRoutes_def TrimSpace_id printable_def Cut_def HasPrefix_def)
  then obtain pol where pol: "newPolicy (\<lambda>s. s) [''POST /api/v1/channels/*/loudness/reset''] [''/api/v1/notify''] = Some pol"
    by auto
  have "clean_segs ''/api//v1/x/../notify/'' = [''api'', ''v1'', ''notify'']" by code_simp
  moreover have "\<not> doc_segs [''api'', ''v1'', ''notify'']" by (auto simp: doc_segs_def HasPrefix_def)
  ultimately have "classify pol False ''GET'' (cleanPath ''/api//v1/x/../notify/'') = (accessRole, RoleAdmin)"
    using policy_sees_segments [OF pol [unfolded pre], of False "''GET''" "''/api//v1/x/../notify/''"]
    by (simp add: seg_access_def seg_role_def isRead_def admin_read_segs_def below_def seg_ok_def)
  with pol show ?thesis by blast
qed

end
