(* ===== verification/Enc_Store.thy ===== *)
theory Enc_Store
  imports Go_Crypto Enc_Policy
begin

text \<open>
  The account store of the encoder (\<^verbatim>\<open>streamhub-encoder/internal/auth/store.go\<close>): the users and API tokens
  of \<^verbatim>\<open>users.json\<close>. A change is made to a copy, written to disk and only then taken over in memory;
  whether the write succeeds is an argument of every operation that saves, and the file on disk is a
  field of the model. Times are nanoseconds, the zero time is \<open>None\<close>.
\<close>

section \<open>Accounts\<close>

record user =
  u_name :: string
  u_role :: role
  u_hash :: string
  u_must :: bool
  u_created :: int
  u_disabled :: bool

record token =
  t_id :: string
  t_name :: string
  t_role :: role
  t_hash :: string
  t_created :: int
  t_lastUsed :: "int option"
  t_revoked :: bool

record userPatch =
  p_role :: "role option"
  p_password :: "string option"
  p_disabled :: "bool option"
  p_must :: "bool option"

datatype auth_error =
    InvalidErr string
  | ConflictErr string
  | NotFoundErr string
  | BadCurrentPassword
  | SaveErr
  | BcryptErr

definition storeVersion :: nat where
  "storeVersion = 1"

record fileData =
  fd_version :: nat
  fd_users :: "user list"
  fd_tokens :: "token list"

record store =
  st_data :: fileData
  st_dirty :: bool
  st_disk :: "fileData option"

text \<open>
  \<^verbatim>\<open>openStore\<close>: no file gives an empty store; an unreadable or newer file is refused. The argument is
  what reading and decoding the file gives.
\<close>

datatype file_read = NoFile | ReadErr | Corrupt | Loaded fileData

definition openStore :: "file_read \<Rightarrow> store option" where
  "openStore f =
     (case f of
        NoFile \<Rightarrow> Some \<lparr>st_data = \<lparr>fd_version = storeVersion, fd_users = [], fd_tokens = []\<rparr>,
                        st_dirty = False, st_disk = None\<rparr>
      | ReadErr \<Rightarrow> None
      | Corrupt \<Rightarrow> None
      | Loaded d \<Rightarrow> if fd_version d > storeVersion then None
                    else Some \<lparr>st_data = d, st_dirty = False, st_disk = Some d\<rparr>)"

definition clone :: "store \<Rightarrow> fileData" where
  "clone s = (st_data s)\<lparr>fd_version := storeVersion\<rparr>"

definition save :: "bool \<Rightarrow> fileData \<Rightarrow> store \<Rightarrow> store option" where
  "save ok d s = (if ok then Some (s\<lparr>st_disk := Some d\<rparr>) else None)"

definition update :: "bool \<Rightarrow> (fileData \<Rightarrow> auth_error + fileData) \<Rightarrow> store \<Rightarrow> auth_error option \<times> store" where
  "update ok fn s =
     (case fn (clone s) of
        Inl err \<Rightarrow> (Some err, s)
      | Inr nxt \<Rightarrow>
          (case save ok nxt s of
             None \<Rightarrow> (Some SaveErr, s)
           | Some s' \<Rightarrow> (None, s'\<lparr>st_data := nxt, st_dirty := False\<rparr>)))"

definition flush_store :: "bool \<Rightarrow> store \<Rightarrow> auth_error option \<times> store" where
  "flush_store ok s =
     (if \<not> st_dirty s then (None, s)
      else case save ok (st_data s) s of
             None \<Rightarrow> (Some SaveErr, s)
           | Some s' \<Rightarrow> (None, s'\<lparr>st_dirty := False\<rparr>))"

definition userCount :: "store \<Rightarrow> nat" where
  "userCount s = length (fd_users (st_data s))"

text \<open>\<^verbatim>\<open>slices.IndexFunc\<close>; \<open>None\<close> is \<open>-1\<close>.\<close>

fun IndexFunc :: "'a list \<Rightarrow> ('a \<Rightarrow> bool) \<Rightarrow> nat option" where
  "IndexFunc [] P = None"
| "IndexFunc (x # xs) P = (if P x then Some 0 else map_option Suc (IndexFunc xs P))"

definition findUser :: "user list \<Rightarrow> string \<Rightarrow> nat option" where
  "findUser us name = IndexFunc us (\<lambda>u. u_name u = name)"

definition getUser :: "store \<Rightarrow> string \<Rightarrow> user option" where
  "getUser s name =
     (case findUser (fd_users (st_data s)) name of
        Some i \<Rightarrow> Some (fd_users (st_data s) ! i)
      | None \<Rightarrow> None)"

text \<open>\<^verbatim>\<open>tokenByHash\<close> scans every token and keeps the last match.\<close>

definition tokenByHash :: "store \<Rightarrow> bytes \<Rightarrow> token option" where
  "tokenByHash s dig =
     (let want = EncodeToString dig
      in foldl (\<lambda>found t. if t_hash t = want then Some t else found) None (fd_tokens (st_data s)))"

definition touch_interval :: int where
  "touch_interval = 60 * 1000000000"

definition touchToken :: "bool \<Rightarrow> string \<Rightarrow> int \<Rightarrow> store \<Rightarrow> auth_error option \<times> store" where
  "touchToken ok tid now s =
     (let ts = fd_tokens (st_data s)
      in case IndexFunc ts (\<lambda>t. t_id t = tid) of
           None \<Rightarrow> (None, s)
         | Some i \<Rightarrow>
             let prev = t_lastUsed (ts ! i);
                 s1 = s\<lparr>st_data := (st_data s)\<lparr>fd_tokens := ts[i := (ts ! i)\<lparr>t_lastUsed := Some now\<rparr>]\<rparr>,
                        st_dirty := True\<rparr>
             in if (case prev of Some t \<Rightarrow> now - t < touch_interval | None \<Rightarrow> False) then (None, s1)
                else case save ok (st_data s1) s1 of
                       None \<Rightarrow> (Some SaveErr, s1)
                     | Some s2 \<Rightarrow> (None, s2\<lparr>st_dirty := False\<rparr>))"

definition is_enabled_admin :: "user \<Rightarrow> bool" where
  "is_enabled_admin u = (u_role u = RoleAdmin \<and> \<not> u_disabled u)"

definition enabledAdmins :: "user list \<Rightarrow> nat" where
  "enabledAdmins us = length (filter is_enabled_admin us)"

definition name_first :: "char \<Rightarrow> bool" where
  "name_first c = (is_digit c \<or> (97 \<le> (of_char c :: nat) \<and> of_char c \<le> (122 :: nat)))"

definition nameRe :: "string \<Rightarrow> bool" where
  "nameRe n =
     (case n of [] \<Rightarrow> False
      | c # cs \<Rightarrow> name_first c \<and> length cs \<le> 31 \<and>
          list_all (\<lambda>c. name_first c \<or> c = CHR ''.'' \<or> c = CHR ''_'' \<or> c = CHR ''-'') cs)"

text \<open>\<open>lower\<close> stands for the Unicode tables of \<^verbatim>\<open>strings.ToLower\<close>.\<close>

definition normalizeName :: "(string \<Rightarrow> string) \<Rightarrow> string \<Rightarrow> auth_error + string" where
  "normalizeName lower n =
     (let m = ToLower lower (TrimSpace n)
      in if nameRe m then Inr m
         else Inl (InvalidErr ''user name must be 1-32 chars of a-z 0-9 . _ - (starting with a letter or digit)''))"

section \<open>The changes\<close>

text \<open>The functions handed to \<open>update\<close> by the account operations.\<close>

definition add_user :: "user \<Rightarrow> fileData \<Rightarrow> auth_error + fileData" where
  "add_user u d =
     (if findUser (fd_users d) (u_name u) \<noteq> None then Inl (ConflictErr (''user '' @ u_name u @ '' already exists''))
      else Inr (d\<lparr>fd_users := fd_users d @ [u]\<rparr>))"

definition patched :: "userPatch \<Rightarrow> string \<Rightarrow> user \<Rightarrow> user" where
  "patched p hash u =
     (let u1 = (case p_role p of Some r \<Rightarrow> u\<lparr>u_role := r\<rparr> | None \<Rightarrow> u);
          u2 = (case p_disabled p of Some b \<Rightarrow> u1\<lparr>u_disabled := b\<rparr> | None \<Rightarrow> u1);
          u3 = (case p_password p of Some _ \<Rightarrow> u2\<lparr>u_hash := hash, u_must := True\<rparr> | None \<Rightarrow> u2)
      in case p_must p of Some b \<Rightarrow> u3\<lparr>u_must := b\<rparr> | None \<Rightarrow> u3)"

definition patch_user :: "string \<Rightarrow> userPatch \<Rightarrow> string \<Rightarrow> fileData \<Rightarrow> auth_error + fileData \<times> user" where
  "patch_user name p hash d =
     (case findUser (fd_users d) name of
        None \<Rightarrow> Inl (NotFoundErr (''user '' @ name @ '' not found''))
      | Some i \<Rightarrow>
          let u = fd_users d ! i;
              u' = patched p hash u
          in if is_enabled_admin u \<and> (u_role u' \<noteq> RoleAdmin \<or> u_disabled u') \<and> enabledAdmins (fd_users d) \<le> 1
             then Inl (ConflictErr ''cannot demote or disable the last admin'')
             else Inr (d\<lparr>fd_users := (fd_users d)[i := u']\<rparr>, u'))"

definition remove_user :: "string \<Rightarrow> fileData \<Rightarrow> auth_error + fileData" where
  "remove_user name d =
     (case findUser (fd_users d) name of
        None \<Rightarrow> Inl (NotFoundErr (''user '' @ name @ '' not found''))
      | Some i \<Rightarrow>
          if is_enabled_admin (fd_users d ! i) \<and> enabledAdmins (fd_users d) \<le> 1
          then Inl (ConflictErr ''cannot delete the last admin'')
          else Inr (d\<lparr>fd_users := take i (fd_users d) @ drop (Suc i) (fd_users d)\<rparr>))"

definition set_own_password :: "string \<Rightarrow> string \<Rightarrow> fileData \<Rightarrow> auth_error + fileData" where
  "set_own_password name hash d =
     (case findUser (fd_users d) name of
        None \<Rightarrow> Inl (NotFoundErr (''user '' @ name @ '' not found''))
      | Some i \<Rightarrow>
          Inr (d\<lparr>fd_users := (fd_users d)[i := (fd_users d ! i)\<lparr>u_hash := hash, u_must := False\<rparr>]\<rparr>))"

definition add_token :: "token \<Rightarrow> fileData \<Rightarrow> auth_error + fileData" where
  "add_token t d = Inr (d\<lparr>fd_tokens := fd_tokens d @ [t]\<rparr>)"

definition revoke_token :: "string \<Rightarrow> fileData \<Rightarrow> auth_error + fileData" where
  "revoke_token tid d =
     (case IndexFunc (fd_tokens d) (\<lambda>t. t_id t = tid) of
        None \<Rightarrow> Inl (NotFoundErr (''token '' @ tid @ '' not found''))
      | Some i \<Rightarrow> Inr (d\<lparr>fd_tokens := (fd_tokens d)[i := (fd_tokens d ! i)\<lparr>t_revoked := True\<rparr>]\<rparr>))"

section \<open>Lemmas\<close>

lemma IndexFunc_Some: "IndexFunc xs P = Some i \<Longrightarrow> i < length xs \<and> P (xs ! i)"
  by (induction xs arbitrary: i) (auto split: if_splits)

lemma IndexFunc_None: "IndexFunc xs P = None \<longleftrightarrow> (\<forall>x \<in> set xs. \<not> P x)"
  by (induction xs) auto

lemma findUser_Some: "findUser us name = Some i \<Longrightarrow> i < length us \<and> u_name (us ! i) = name"
  unfolding findUser_def by (rule IndexFunc_Some)

lemma findUser_None: "findUser us name = None \<longleftrightarrow> name \<notin> u_name ` set us"
  by (auto simp: findUser_def IndexFunc_None)

lemma getUser_SomeD: "getUser s name = Some u \<Longrightarrow> u \<in> set (fd_users (st_data s)) \<and> u_name u = name"
  by (auto simp: getUser_def split: option.splits dest: findUser_Some)

text \<open>The invariant of the accounts: no name twice, and somebody can administer the encoder.\<close>

definition data_ok :: "fileData \<Rightarrow> bool" where
  "data_ok d \<longleftrightarrow> distinct (map u_name (fd_users d)) \<and> 0 < enabledAdmins (fd_users d)"

lemma enabledAdmins_update:
  assumes "i < length us"
  shows "enabledAdmins (us[i := u]) + (if is_enabled_admin (us ! i) then 1 else 0) =
         enabledAdmins us + (if is_enabled_admin u then 1 else 0)"
proof -
  have us: "us = take i us @ us ! i # drop (Suc i) us" using assms by (rule id_take_nth_drop)
  have "enabledAdmins us = enabledAdmins (take i us) + enabledAdmins (us ! i # drop (Suc i) us)"
    by (subst us) (simp add: enabledAdmins_def)
  then show ?thesis using assms by (simp add: upd_conv_take_nth_drop enabledAdmins_def)
qed

lemma enabledAdmins_remove:
  assumes "i < length us"
  shows "enabledAdmins (take i us @ drop (Suc i) us) + (if is_enabled_admin (us ! i) then 1 else 0) = enabledAdmins us"
proof -
  have us: "us = take i us @ us ! i # drop (Suc i) us" using assms by (rule id_take_nth_drop)
  have "enabledAdmins us = enabledAdmins (take i us) + enabledAdmins (us ! i # drop (Suc i) us)"
    by (subst us) (simp add: enabledAdmins_def)
  then show ?thesis by (simp add: enabledAdmins_def)
qed

lemma names_update: "u_name u = u_name (us ! i) \<Longrightarrow> map u_name (us[i := u]) = map u_name us"
  by (metis list_update_id map_update)

lemma patched_name [simp]: "u_name (patched p hash u) = u_name u"
  by (simp add: patched_def Let_def split: option.splits)

lemma add_user_ok: "data_ok d \<Longrightarrow> add_user u d = Inr d' \<Longrightarrow> data_ok d'"
  by (auto simp: add_user_def data_ok_def findUser_None enabledAdmins_def split: if_splits)

lemma patch_user_ok:
  assumes "data_ok d" "patch_user name p hash d = Inr (d', u')"
  shows "data_ok d'"
proof -
  obtain i where i: "findUser (fd_users d) name = Some i"
    using assms(2) by (cases "findUser (fd_users d) name") (simp_all add: patch_user_def)
  let ?u = "patched p hash (fd_users d ! i)"
  have na: "(u_role ?u \<noteq> RoleAdmin \<or> u_disabled ?u) = (\<not> is_enabled_admin ?u)" by (simp add: is_enabled_admin_def)
  have "if is_enabled_admin (fd_users d ! i) \<and> \<not> is_enabled_admin ?u \<and> enabledAdmins (fd_users d) \<le> 1 then False
        else d' = d\<lparr>fd_users := (fd_users d)[i := ?u]\<rparr> \<and> u' = ?u"
    using assms(2) unfolding patch_user_def i option.case Let_def na by (auto split: if_splits)
  then have d': "d' = d\<lparr>fd_users := (fd_users d)[i := u']\<rparr>" and u': "u' = ?u"
    and guard: "\<not> (is_enabled_admin (fd_users d ! i) \<and> \<not> is_enabled_admin u' \<and> enabledAdmins (fd_users d) \<le> 1)"
    by (simp_all split: if_splits)
  have "i < length (fd_users d)" using findUser_Some [OF i] by simp
  from enabledAdmins_update [OF this, of u'] guard assms(1) show ?thesis
    unfolding d' data_ok_def by (auto simp: u' names_update split: if_splits)
qed

lemma remove_user_ok:
  assumes "data_ok d" "remove_user name d = Inr d'"
  shows "data_ok d'"
proof -
  obtain i where i: "findUser (fd_users d) name = Some i"
    and d': "d' = d\<lparr>fd_users := take i (fd_users d) @ drop (Suc i) (fd_users d)\<rparr>"
    and guard: "\<not> (is_enabled_admin (fd_users d ! i) \<and> enabledAdmins (fd_users d) \<le> 1)"
    using assms(2) by (auto simp: remove_user_def split: option.splits if_splits)
  have i': "i < length (fd_users d)" using findUser_Some [OF i] by simp
  have "distinct (map u_name (take i (fd_users d) @ drop (Suc i) (fd_users d)))"
  proof -
    have "distinct (map u_name (take i (fd_users d) @ fd_users d ! i # drop (Suc i) (fd_users d)))"
      using assms(1) id_take_nth_drop [OF i'] by (simp add: data_ok_def)
    then show ?thesis by auto
  qed
  with enabledAdmins_remove [OF i'] guard assms(1) show ?thesis
    unfolding d' data_ok_def by (auto split: if_splits)
qed

lemma set_own_password_ok:
  assumes "data_ok d" "set_own_password name hash d = Inr d'"
  shows "data_ok d'"
proof -
  obtain i where i: "findUser (fd_users d) name = Some i"
    and d': "d' = d\<lparr>fd_users := (fd_users d)[i := (fd_users d ! i)\<lparr>u_hash := hash, u_must := False\<rparr>]\<rparr>"
    using assms(2) by (auto simp: set_own_password_def split: option.splits)
  have "i < length (fd_users d)" using findUser_Some [OF i] by simp
  from enabledAdmins_update [OF this, of "(fd_users d ! i)\<lparr>u_hash := hash, u_must := False\<rparr>"] assms(1) show ?thesis
    unfolding d' data_ok_def by (simp add: names_update is_enabled_admin_def)
qed

lemma token_changes_ok:
  "data_ok d \<Longrightarrow> add_token t d = Inr d' \<Longrightarrow> data_ok d'"
  "data_ok d \<Longrightarrow> revoke_token tid d = Inr d' \<Longrightarrow> data_ok d'"
  by (auto simp: add_token_def revoke_token_def data_ok_def split: option.splits)

text \<open>\<open>update\<close> either changes nothing or makes the change on disk and in memory alike.\<close>

lemma update_cases:
  obtains (changed) d where "fn (clone s) = Inr d" "ok"
      "update ok fn s = (None, s\<lparr>st_disk := Some d, st_data := d, st_dirty := False\<rparr>)"
  | (failed) err where "update ok fn s = (Some err, s)"
  by (cases "fn (clone s)"; cases ok) (auto simp: update_def save_def)

lemma data_ok_clone [simp]: "data_ok (clone s) = data_ok (st_data s)"
  by (simp add: data_ok_def clone_def)

lemma update_ok:
  assumes "data_ok (st_data s)" "\<And>d d'. data_ok d \<Longrightarrow> fn d = Inr d' \<Longrightarrow> data_ok d'"
  shows "data_ok (st_data (snd (update ok fn s)))"
proof (cases rule: update_cases [of fn s ok])
  case (changed d)
  with assms(2) [of "clone s" d] assms(1) show ?thesis by simp
next
  case failed
  with assms(1) show ?thesis by simp
qed

end
