(* ===== verification/Enc_Auth.thy ===== *)
theory Enc_Auth
  imports Enc_Session Enc_Limiter Enc_Store
begin

text \<open>
  The authentication and authorization service of the encoder: \<^verbatim>\<open>auth.go\<close>, \<^verbatim>\<open>middleware.go\<close>, \<^verbatim>\<open>handlers.go\<close> and
  the account operations of \<^verbatim>\<open>store.go\<close> under \<^verbatim>\<open>streamhub-encoder/internal/auth\<close>. It composes the account
  store, the session store, the limiter of failed logins and the route policy: \<open>serve\<close> takes a request
  through the middleware and on to the handler the mux selects.

  Parameters: bcrypt (a third-party package) and the Unicode case tables are the record \<open>platform\<close>. What
  a request draws from outside (clock, random values, whether a file write succeeds, map order) is
  the record \<open>inputs\<close>. A request carries the client address, the decoded body or the decoding error, and
  whether its content type is JSON. The audit log is in \<open>Enc_Audit\<close>; response bodies and the TLS helpers are left out.
\<close>

section \<open>The service\<close>

record platform =
  uni_lower :: "string \<Rightarrow> string"
  bcrypt_generate :: "string \<Rightarrow> string \<Rightarrow> string option" \<comment> \<open>password, salt\<close>
  bcrypt_compare :: "string \<Rightarrow> string \<Rightarrow> bool" \<comment> \<open>hash, password\<close>

record inputs =
  in_now :: int
  in_salt :: string
  in_random :: string
  in_tokenid :: string
  in_touch_saved :: bool
  in_saved :: bool
  in_audit :: bool \<comment> \<open>the audit log could be read\<close>
  in_sess_order :: sess_order
  in_lim_order :: "string list \<Rightarrow> string list"

datatype kind = KindUser | KindToken | KindLegacy

record principal =
  pr_name :: string
  pr_role :: role
  pr_kind :: kind
  pr_tokenID :: string
  pr_must :: bool

record auth =
  a_store :: store
  a_sessions :: sessionStore
  a_limiter :: limiter
  a_policy :: policy
  a_legacy :: bytes
  a_hasLegacy :: bool
  a_metrics :: bool

datatype decode_err = BodyTooLarge | BodyMissing | BodyInvalid | BodyTrailing

record request =
  r_method :: string
  r_escaped :: string \<comment> \<open>the path as it was sent, \<^verbatim>\<open>URL.EscapedPath()\<close>\<close>
  r_limit :: string \<comment> \<open>the query parameter \<^verbatim>\<open>limit\<close>\<close>
  r_authorization :: string
  r_cookie :: "string option"
  r_xrw :: string
  r_ip :: string
  r_json :: bool
  r_login :: "decode_err + string \<times> string"
  r_password :: "decode_err + string \<times> string"
  r_newuser :: "decode_err + string \<times> string \<times> role \<times> bool option"
  r_patch :: "decode_err + userPatch"
  r_newtoken :: "decode_err + string \<times> role"

section \<open>Passwords and the legacy token\<close>

definition MinPasswordLen :: nat where "MinPasswordLen = 10"
definition maxPasswordBytes :: nat where "maxPasswordBytes = 72"
definition bootstrapUser :: string where "bootstrapUser = ''admin''"
definition UIHeaderValue :: string where "UIHeaderValue = ''encoder-ui''"
definition TokenPrefix :: string where "TokenPrefix = ''ek_''"

definition verifyPassword :: "platform \<Rightarrow> string \<Rightarrow> string \<Rightarrow> bool" where
  "verifyPassword env hash pw = (if hash = [] then False else bcrypt_compare env hash pw)"

definition checkPassword :: "string \<Rightarrow> auth_error option" where
  "checkPassword pw =
     (if rune_count pw < MinPasswordLen then Some (InvalidErr ''password must be at least 10 characters'')
      else if length pw > maxPasswordBytes then Some (InvalidErr ''password must be at most 72 bytes'')
      else None)"

definition hashPassword :: "platform \<Rightarrow> string \<Rightarrow> string \<Rightarrow> auth_error + string" where
  "hashPassword env salt pw =
     (case checkPassword pw of
        Some err \<Rightarrow> Inl err
      | None \<Rightarrow> (case bcrypt_generate env pw salt of Some h \<Rightarrow> Inr h | None \<Rightarrow> Inl BcryptErr))"

definition legacyMatches :: "auth \<Rightarrow> string \<Rightarrow> bool" where
  "legacyMatches a tok = (a_hasLegacy a \<and> Sum256 tok = a_legacy a)"

section \<open>Account operations\<close>

definition bad_role :: auth_error where
  "bad_role = InvalidErr ''role must be admin, operator or viewer''"

definition CreateUser :: "platform \<Rightarrow> inputs \<Rightarrow> string \<Rightarrow> string \<Rightarrow> role \<Rightarrow> bool \<Rightarrow> auth \<Rightarrow> (auth_error + user) \<times> auth" where
  "CreateUser env inp name password r must a =
     (case normalizeName (uni_lower env) name of
        Inl err \<Rightarrow> (Inl err, a)
      | Inr name \<Rightarrow>
          if \<not> role_Valid r then (Inl bad_role, a)
          else (case hashPassword env (in_salt inp) password of
            Inl err \<Rightarrow> (Inl err, a)
          | Inr hash \<Rightarrow>
              let u = \<lparr>u_name = name, u_role = r, u_hash = hash, u_must = must, u_created = in_now inp, u_disabled = False\<rparr>
              in case update (in_saved inp) (add_user u) (a_store a) of
                   (Some err, s) \<Rightarrow> (Inl err, a\<lparr>a_store := s\<rparr>)
                 | (None, s) \<Rightarrow> (Inr u, a\<lparr>a_store := s\<rparr>)))"

text \<open>\<^verbatim>\<open>UpdateUser\<close>; the variable \<^verbatim>\<open>res\<close> of the source is the second result of \<open>patch_user\<close>.\<close>

definition UpdateUser :: "platform \<Rightarrow> inputs \<Rightarrow> string \<Rightarrow> userPatch \<Rightarrow> auth \<Rightarrow> (auth_error + user) \<times> auth" where
  "UpdateUser env inp rawname p a =
     (let name = ToLower (uni_lower env) (TrimSpace rawname)
      in if (case p_role p of Some r \<Rightarrow> \<not> role_Valid r | None \<Rightarrow> False) then (Inl bad_role, a)
         else (case (case p_password p of Some pw \<Rightarrow> hashPassword env (in_salt inp) pw | None \<Rightarrow> Inr []) of
           Inl err \<Rightarrow> (Inl err, a)
         | Inr hash \<Rightarrow>
             (case update (in_saved inp) (\<lambda>d. map_sum id fst (patch_user name p hash d)) (a_store a) of
                (Some err, s) \<Rightarrow> (Inl err, a\<lparr>a_store := s\<rparr>)
              | (None, s) \<Rightarrow>
                  (case patch_user name p hash (clone (a_store a)) of
                     Inl err \<Rightarrow> (Inl err, a\<lparr>a_store := s\<rparr>)
                   | Inr (_, res) \<Rightarrow>
                       (Inr res,
                        if p_password p \<noteq> None \<or> u_disabled res
                        then a\<lparr>a_store := s, a_sessions := deleteUser name [] (a_sessions a)\<rparr>
                        else a\<lparr>a_store := s\<rparr>)))))"

definition SetPassword :: "platform \<Rightarrow> inputs \<Rightarrow> string \<Rightarrow> string \<Rightarrow> bool \<Rightarrow> auth \<Rightarrow> (auth_error + user) \<times> auth" where
  "SetPassword env inp name pw must a =
     UpdateUser env inp name \<lparr>p_role = None, p_password = Some pw, p_disabled = None, p_must = Some must\<rparr> a"

definition DeleteUser :: "platform \<Rightarrow> inputs \<Rightarrow> string \<Rightarrow> auth \<Rightarrow> auth_error option \<times> auth" where
  "DeleteUser env inp rawname a =
     (let name = ToLower (uni_lower env) (TrimSpace rawname)
      in case update (in_saved inp) (remove_user name) (a_store a) of
           (Some err, s) \<Rightarrow> (Some err, a\<lparr>a_store := s\<rparr>)
         | (None, s) \<Rightarrow> (None, a\<lparr>a_store := s, a_sessions := deleteUser name [] (a_sessions a)\<rparr>))"

definition changeOwnPassword :: "platform \<Rightarrow> inputs \<Rightarrow> string \<Rightarrow> string \<Rightarrow> string \<Rightarrow> auth \<Rightarrow> auth_error option \<times> auth" where
  "changeOwnPassword env inp name current nxt a =
     (case getUser (a_store a) name of
        None \<Rightarrow> (Some (NotFoundErr (''user '' @ name @ '' not found'')), a)
      | Some u \<Rightarrow>
          if u_disabled u then (Some (NotFoundErr (''user '' @ name @ '' not found'')), a)
          else if \<not> verifyPassword env (u_hash u) current then (Some BadCurrentPassword, a)
          else if current = nxt then (Some (InvalidErr ''the new password must differ from the current one''), a)
          else (case hashPassword env (in_salt inp) nxt of
            Inl err \<Rightarrow> (Some err, a)
          | Inr hash \<Rightarrow>
              (case update (in_saved inp) (set_own_password name hash) (a_store a) of
                 (err, s) \<Rightarrow> (err, a\<lparr>a_store := s\<rparr>))))"

definition CreateToken :: "inputs \<Rightarrow> string \<Rightarrow> role \<Rightarrow> auth \<Rightarrow> (auth_error + token \<times> string) \<times> auth" where
  "CreateToken inp rawname r a =
     (let name = TrimSpace rawname
      in if name = [] \<or> length name > 64 then (Inl (InvalidErr ''token name must be 1-64 characters''), a)
         else if \<not> role_Valid r then (Inl bad_role, a)
         else let plain = TokenPrefix @ in_random inp;
                  t = \<lparr>t_id = ''tk_'' @ in_tokenid inp, t_name = name, t_role = r,
                       t_hash = EncodeToString (Sum256 plain), t_created = in_now inp, t_lastUsed = None, t_revoked = False\<rparr>
              in case update (in_saved inp) (add_token t) (a_store a) of
                   (Some err, s) \<Rightarrow> (Inl err, a\<lparr>a_store := s\<rparr>)
                 | (None, s) \<Rightarrow> (Inr (t, plain), a\<lparr>a_store := s\<rparr>))"

definition RevokeToken :: "inputs \<Rightarrow> string \<Rightarrow> auth \<Rightarrow> auth_error option \<times> auth" where
  "RevokeToken inp tid a =
     (case update (in_saved inp) (revoke_token tid) (a_store a) of (err, s) \<Rightarrow> (err, a\<lparr>a_store := s\<rparr>))"

text \<open>\<^verbatim>\<open>bootstrap\<close>: \<open>pwfile_ok\<close> tells whether the password file could be written.\<close>

definition bootstrap :: "platform \<Rightarrow> inputs \<Rightarrow> bool \<Rightarrow> auth \<Rightarrow> (auth_error + string) \<times> auth" where
  "bootstrap env inp pwfile_ok a =
     (if userCount (a_store a) > 0 then (Inr [], a)
      else let pw = in_random inp
           in case bcrypt_generate env pw (in_salt inp) of
                None \<Rightarrow> (Inl BcryptErr, a)
              | Some hash \<Rightarrow>
                  if \<not> pwfile_ok then (Inl SaveErr, a)
                  else (case update (in_saved inp)
                          (\<lambda>d. Inr (d\<lparr>fd_users := fd_users d @ [\<lparr>u_name = bootstrapUser, u_role = RoleAdmin, u_hash = hash,
                                u_must = True, u_created = in_now inp, u_disabled = False\<rparr>]\<rparr>)) (a_store a) of
                       (Some err, s) \<Rightarrow> (Inl err, a\<lparr>a_store := s\<rparr>)
                     | (None, s) \<Rightarrow> (Inr pw, a\<lparr>a_store := s\<rparr>)))"

section \<open>Authentication\<close>

definition tokenPrincipal :: "inputs \<Rightarrow> string \<Rightarrow> auth \<Rightarrow> principal option \<times> auth" where
  "tokenPrincipal inp tok a =
     (if legacyMatches a tok
      then (Some \<lparr>pr_name = ''legacy-token'', pr_role = RoleAdmin, pr_kind = KindLegacy, pr_tokenID = [], pr_must = False\<rparr>, a)
      else if \<not> HasPrefix tok TokenPrefix \<or> length tok > 256 then (None, a)
      else case tokenByHash (a_store a) (Sum256 tok) of
             None \<Rightarrow> (None, a)
           | Some t \<Rightarrow>
               if t_revoked t \<or> \<not> role_Valid (t_role t) then (None, a)
               else (Some \<lparr>pr_name = t_name t, pr_role = t_role t, pr_kind = KindToken, pr_tokenID = t_id t, pr_must = False\<rparr>,
                     a\<lparr>a_store := snd (touchToken (in_touch_saved inp) (t_id t) (in_now inp) (a_store a))\<rparr>))"

text \<open>\<^verbatim>\<open>authenticate\<close>: the principal, whether it came by cookie, and whether credentials were refused.\<close>

definition authenticate :: "inputs \<Rightarrow> request \<Rightarrow> auth \<Rightarrow> (principal option \<times> bool) \<times> auth" where
  "authenticate inp r a =
     (if r_authorization r \<noteq> [] then
        (case Cut (r_authorization r) CHR '' '' of (scheme, rest, ok) \<Rightarrow>
           let tok = TrimSpace rest
           in if \<not> ok \<or> map lower_char scheme \<noteq> ''bearer'' \<or> tok = [] then ((None, False), a)
              else case tokenPrincipal inp tok a of (p, a') \<Rightarrow> ((p, False), a'))
      else case r_cookie r of
        None \<Rightarrow> ((None, False), a)
      | Some c \<Rightarrow>
          if c = [] then ((None, False), a)
          else (case get c (in_now inp) (a_sessions a) of
            (None, ss) \<Rightarrow> ((None, False), a\<lparr>a_sessions := ss\<rparr>)
          | (Some name, ss) \<Rightarrow>
              (case getUser (a_store a) name of
                 None \<Rightarrow> ((None, False), a\<lparr>a_sessions := delete_session c ss\<rparr>)
               | Some u \<Rightarrow>
                   if u_disabled u then ((None, False), a\<lparr>a_sessions := delete_session c ss\<rparr>)
                   else ((Some \<lparr>pr_name = u_name u, pr_role = u_role u, pr_kind = KindUser, pr_tokenID = [], pr_must = u_must u\<rparr>,
                          True), a\<lparr>a_sessions := ss\<rparr>))))"

end
