(* ===== verification/Enc_Mux.thy ===== *)
theory Enc_Mux
  imports Enc_Policy
begin

text \<open>
  Two readings of one request path. The middleware of the encoder decides on the decoded path
  (\<^verbatim>\<open>URL.Path\<close>, made canonical by \<^verbatim>\<open>cleanPath\<close> of \<^verbatim>\<open>middleware.go\<close>), the mux behind it selects the handler on the
  escaped path, segment by segment. The theory shows when the two agree and that an encoded slash
  can make them differ.
\<close>

section \<open>Escaped paths\<close>

text \<open>\<^verbatim>\<open>url.PathUnescape\<close>; a malformed escape is \<open>None\<close>.\<close>

fun PathUnescape :: "string \<Rightarrow> string option" where
  "PathUnescape [] = Some []"
| "PathUnescape (c # s) =
     (if c \<noteq> CHR ''%'' then map_option ((#) c) (PathUnescape s)
      else case s of
        a # b # t \<Rightarrow>
          (case (unhex a, unhex b) of
             (Some x, Some y) \<Rightarrow> map_option ((#) (char_of (16 * x + y))) (PathUnescape t)
           | _ \<Rightarrow> None)
      | _ \<Rightarrow> None)"

definition pathUnescape :: "string \<Rightarrow> string" where
  "pathUnescape s = (case PathUnescape s of Some t \<Rightarrow> t | None \<Rightarrow> s)"

text \<open>\<^verbatim>\<open>URL.Path\<close> for the escaped path \<open>e\<close>: \<^verbatim>\<open>net/url\<close> keeps \<^verbatim>\<open>URL.EscapedPath()\<close> an encoding of it.\<close>

definition url_path :: "string \<Rightarrow> string" where
  "url_path e = pathUnescape e"

text \<open>
  \<^verbatim>\<open>http.ServeMux\<close> matches the escaped path: one that is not in canonical form is redirected and reaches no
  handler (\<open>None\<close>), any other is split at its slashes and then unescaped segment by segment. The
  canonical form is that of \<^verbatim>\<open>net/http\<close>, a function of its own with a fast path.
\<close>

definition mux_cleanPath :: "string \<Rightarrow> string" where
  "mux_cleanPath p =
     (if p = [] then ''/''
      else let p = (if hd p \<noteq> CHR ''/'' then ''/'' @ p else p);
               np = path_Clean p
           in if last p = CHR ''/'' \<and> np \<noteq> ''/''
              then (if length p = length np + 1 \<and> HasPrefix p np then p else np @ ''/'')
              else np)"

definition mux_segs :: "string \<Rightarrow> string list option" where
  "mux_segs e =
     (if mux_cleanPath e \<noteq> e then None
      else Some (map pathUnescape (Split (drop 1 e) CHR ''/'')))"

text \<open>\<^verbatim>\<open>cleanPath\<close> of the middleware computes the same, as its comment says.\<close>

lemma HasSuffix_slash: "s \<noteq> [] \<Longrightarrow> HasSuffix s ''/'' \<longleftrightarrow> last s = CHR ''/''"
  by (cases s rule: rev_cases) (auto simp: HasSuffix_def HasPrefix_def)

lemma one_more_slash:
  assumes "last q = CHR ''/''" "length q = length np + 1" "HasPrefix q np"
  shows "q = np @ ''/''"
proof -
  obtain x where x: "q = np @ x" using assms(3) by (auto simp: HasPrefix_iff)
  with assms(2) have "length x = Suc 0" by simp
  then obtain d where "x = [d]" by (auto simp: length_Suc_conv)
  with x assms(1) show ?thesis by simp
qed

lemma mux_cleanPath_eq: "mux_cleanPath p = cleanPath p"
proof (cases "p = []")
  case False
  define q where "q = (if hd p \<noteq> CHR ''/'' then ''/'' @ p else p)"
  have "q \<noteq> []" using False by (simp add: q_def)
  then have c: "cleanPath p = (if last q = CHR ''/'' \<and> path_Clean q \<noteq> ''/'' then path_Clean q @ ''/'' else path_Clean q)"
    using False HasSuffix_slash [of q] by (simp add: cleanPath_def q_def [symmetric] Let_def)
  have "mux_cleanPath p = (if last q = CHR ''/'' \<and> path_Clean q \<noteq> ''/''
      then (if length q = length (path_Clean q) + 1 \<and> HasPrefix q (path_Clean q) then q else path_Clean q @ ''/'')
      else path_Clean q)"
    using False by (simp only: mux_cleanPath_def q_def [symmetric] Let_def if_False)
  with c one_more_slash [of q "path_Clean q"] show ?thesis by presburger
qed (simp add: mux_cleanPath_def cleanPath_def)

section \<open>Segments of both readings\<close>

lemma Contains_iff: "Contains s p \<longleftrightarrow> (\<exists>x y. s = x @ p @ y)"
proof (induction s)
  case (Cons c s)
  note IH = Cons.IH
  show ?case
  proof
    assume "Contains (c # s) p"
    then consider "HasPrefix (c # s) p" | "Contains s p" by auto
    then show "\<exists>x y. c # s = x @ p @ y"
      using Cons by cases (auto simp: HasPrefix_iff intro: exI [of _ "[]"], metis append_Cons)
  next
    assume "\<exists>x y. c # s = x @ p @ y"
    then obtain x y where "c # s = x @ p @ y" by blast
    then show "Contains (c # s) p"
    proof (cases x)
      case Nil
      with \<open>c # s = x @ p @ y\<close> have "HasPrefix (c # s) p" by (simp add: HasPrefix_iff)
      then show ?thesis by simp
    next
      case (Cons d x')
      with \<open>c # s = x @ p @ y\<close> have "\<exists>x y. s = x @ p @ y" by auto
      with IH show ?thesis by simp
    qed
  qed
qed simp

lemma hex_slash: "unhex (CHR ''/'') = None"
  by code_simp

text \<open>An escape does not reach over a slash.\<close>

lemma PathUnescape_append:
  assumes "r = [] \<or> hd r = CHR ''/''"
  shows "PathUnescape (s @ r) =
           (case (PathUnescape s, PathUnescape r) of (Some u, Some v) \<Rightarrow> Some (u @ v) | _ \<Rightarrow> None)"
proof (induction s rule: length_induct)
  case (1 s)
  have IH: "PathUnescape (t @ r) =
      (case (PathUnescape t, PathUnescape r) of (Some u, Some v) \<Rightarrow> Some (u @ v) | _ \<Rightarrow> None)"
    if "length t < length s" for t using 1 that by blast
  show ?case
  proof (cases s)
    case Nil
    then show ?thesis by (simp split: option.splits)
  next
    case (Cons c t)
    show ?thesis
    proof (cases "c = CHR ''%''")
      case False
      then show ?thesis using IH [of t] Cons by (simp split: option.splits)
    next
      case True
      consider "t = []" | x where "t = [x]" | x y t' where "t = x # y # t'" by (metis list.exhaust)
      then show ?thesis
      proof cases
        case 1
        with True Cons assms show ?thesis by (cases r) (auto simp: hex_slash split: list.splits option.splits)
      next
        case (2 x)
        with True Cons assms show ?thesis by (cases r) (auto simp: hex_slash split: list.splits option.splits)
      next
        case (3 x y t')
        then show ?thesis using IH [of t'] True Cons by (auto split: option.splits)
      qed
    qed
  qed
qed

lemma PathUnescape_render:
  assumes "sl = [] \<or> sl = ''/''" "PathUnescape (render es @ sl) = Some t"
  shows "\<exists>us. list_all2 (\<lambda>s u. PathUnescape s = Some u) es us \<and> t = render us @ sl"
  using assms(2)
proof (induction es arbitrary: t)
  case Nil
  then show ?case using assms(1) by (auto simp: render_def)
next
  case (Cons s es)
  have hd: "render es @ sl = [] \<or> hd (render es @ sl) = CHR ''/''"
    using assms(1) by (cases es) (auto simp: render_def)
  have "render (s # es) @ sl = CHR ''/'' # s @ (render es @ sl)" by (simp add: render_def)
  with Cons.prems obtain u v where uv: "PathUnescape s = Some u" "PathUnescape (render es @ sl) = Some v"
    "t = CHR ''/'' # u @ v"
    using PathUnescape_append [OF hd, of s] by (auto split: option.splits)
  with Cons.IH obtain us where "list_all2 (\<lambda>s u. PathUnescape s = Some u) es us" "v = render us @ sl" by blast
  with uv show ?case by (intro exI [of _ "u # us"]) (simp add: render_def)
qed

lemma unhex_2: "unhex a = Some 2 \<longleftrightarrow> a = CHR ''2''"
proof
  assume "unhex a = Some 2"
  then have "(of_char a :: nat) = 50" by (auto simp: unhex_def Let_def split: if_splits)
  then have "(of_char a :: nat) = of_char (CHR ''2'')" by simp
  then show "a = CHR ''2''" by (simp only: of_char_eq_iff)
qed (simp add: unhex_def)

lemma unhex_15: "unhex b = Some 15 \<Longrightarrow> lower_char b = CHR ''f''"
proof -
  assume "unhex b = Some 15"
  then have "(of_char b :: nat) = of_char (CHR ''f'') \<or> (of_char b :: nat) = of_char (CHR ''F'')"
    by (auto simp: unhex_def Let_def split: if_splits)
  then have "b = CHR ''f'' \<or> b = CHR ''F''" by (simp only: of_char_eq_iff)
  moreover have "lower_char (CHR ''f'') = CHR ''f''" "lower_char (CHR ''F'') = CHR ''f''" by code_simp+
  ultimately show ?thesis by auto
qed

lemma unhex_less: "unhex a = Some x \<Longrightarrow> x < 16"
  by (auto simp: unhex_def Let_def split: if_splits)

text \<open>Without an encoded slash no segment contains a slash once it is unescaped.\<close>

lemma unescape_no_slash:
  "PathUnescape s = Some u \<Longrightarrow> CHR ''/'' \<notin> set s \<Longrightarrow> \<not> Contains (map lower_char s) ''%2f'' \<Longrightarrow> CHR ''/'' \<notin> set u"
proof (induction s arbitrary: u rule: length_induct)
  case (1 s)
  show ?case
  proof (cases s)
    case Nil
    with 1 show ?thesis by simp
  next
    case (Cons c t)
    have nt: "\<not> Contains (map lower_char t) ''%2f''" using 1 Cons by simp
    show ?thesis
    proof (cases "c = CHR ''%''")
      case False
      then obtain v where v: "PathUnescape t = Some v" "u = c # v" using 1 Cons by auto
      have "CHR ''/'' \<notin> set v" using 1 Cons v nt by auto
      with v 1 Cons show ?thesis by auto
    next
      case True
      then obtain a b t' x y v where t: "t = a # b # t'" "unhex a = Some x" "unhex b = Some y"
        "PathUnescape t' = Some v" "u = char_of (16 * x + y) # v"
        using 1 Cons by (auto split: list.splits option.splits)
      have "length t' < length s" "CHR ''/'' \<notin> set t'" "\<not> Contains (map lower_char t') ''%2f''"
        using 1 Cons t nt by simp_all
      then have "CHR ''/'' \<notin> set v" using "1.IH" t(4) by blast
      moreover have "char_of (16 * x + y) \<noteq> CHR ''/''"
      proof
        assume eq: "char_of (16 * x + y) = CHR ''/''"
        have "x < 16" "y < 16" using t unhex_less by auto
        then have "16 * x + y = of_char (char_of (16 * x + y) :: char)" by simp
        then have "16 * x + y = 47" unfolding eq by simp
        then have "x = 2" "y = 15" using \<open>y < 16\<close> by presburger+
        then have "a = CHR ''2''" "lower_char b = CHR ''f''" using t unhex_2 unhex_15 by auto
        then have "Contains (map lower_char s) ''%2f''"
          using Cons True t by (simp add: HasPrefix_def lower_char_def)
        with 1 show False by simp
      qed
      ultimately show ?thesis using t by auto
    qed
  qed
qed

lemma mux_shape:
  assumes "mux_segs e = Some ms"
  obtains es slash where "list_all seg_ok es" "e = canon_path es slash"
    "ms = (if es = [] then [[]] else map pathUnescape es @ (if slash then [[]] else []))"
proof -
  obtain slash where e: "e = canon_path (clean_segs e) slash"
    using assms cleanPath_shape [of e] by (auto simp: mux_segs_def mux_cleanPath_eq split: if_splits)
  let ?es = "clean_segs e"
  have ms: "ms = map pathUnescape (Split (drop 1 e) CHR ''/'')"
    using assms by (auto simp: mux_segs_def split: if_splits)
  have "ms = (if ?es = [] then [[]] else map pathUnescape ?es @ (if slash then [[]] else []))"
  proof (cases "?es = []")
    case True
    then have "e = ''/''" using e by (simp add: canon_path_def)
    then show ?thesis using ms True by (simp add: pathUnescape_def)
  next
    case False
    obtain e' where "e = CHR ''/'' # e'" using e False by (metis append_Cons canon_path_def render_join)
    then have "e = CHR ''/'' # drop 1 e" by simp
    then have "Split e CHR ''/'' = [] # Split (drop 1 e) CHR ''/''" by (metis Split.simps(2))
    moreover have "Split e CHR ''/'' = [] # ?es @ (if slash then [[]] else [])"
      using e False Split_render [OF clean_segs_ok False] by (cases slash) (simp_all add: canon_path_def)
    ultimately have "Split (drop 1 e) CHR ''/'' = ?es @ (if slash then [[]] else [])" by simp
    then show ?thesis using ms False by (simp add: pathUnescape_def)
  qed
  with that [OF clean_segs_ok e] show thesis by blast
qed

lemma encoded_slash_in_segment:
  assumes "s \<in> set es" "Contains (map lower_char s) p"
  shows "Contains (map lower_char (render es @ sl)) p"
proof -
  obtain xs ys where "es = xs @ s # ys" using assms(1) by (meson split_list)
  moreover obtain x y where "map lower_char s = x @ p @ y" using assms(2) by (auto simp: Contains_iff)
  ultimately have "map lower_char (render es @ sl) =
      (map lower_char (render xs @ ''/'') @ x) @ p @ (y @ map lower_char (render ys @ sl))"
    by (simp add: render_def)
  then show ?thesis unfolding Contains_iff by blast
qed

text \<open>The segments of the decoded path are those of the mux, with the dot segments still in place.\<close>

lemma mux_clean_segs:
  assumes "mux_segs e = Some ms" "\<not> Contains (map lower_char e) ''%2f''" "PathUnescape e \<noteq> None"
  shows "clean_segs (url_path e) = foldl clean_step [] ms" "\<And>m. m \<in> set ms \<Longrightarrow> CHR ''/'' \<notin> set m"
proof -
  obtain es slash where es: "list_all seg_ok es" "e = canon_path es slash"
    "ms = (if es = [] then [[]] else map pathUnescape es @ (if slash then [[]] else []))"
    using mux_shape [OF assms(1)] by blast
  obtain t where t: "PathUnescape e = Some t" using assms(3) by auto
  have "clean_segs (url_path e) = foldl clean_step [] ms \<and> (\<forall>m \<in> set ms. CHR ''/'' \<notin> set m)"
  proof (cases "es = []")
    case True
    then have "e = ''/''" "ms = [[]]" using es by (simp_all add: canon_path_def)
    then show ?thesis by (simp add: url_path_def pathUnescape_def clean_segs_def clean_step_def)
  next
    case False
    let ?sl = "if slash then ''/'' else []"
    have e: "e = render es @ ?sl" using es False by (simp add: canon_path_def)
    obtain us where us: "list_all2 (\<lambda>s u. PathUnescape s = Some u) es us" "t = render us @ ?sl"
      using PathUnescape_render [of ?sl es t] t e by (cases slash) auto
    have no: "CHR ''/'' \<notin> set u" if u: "u \<in> set us" for u
    proof -
      obtain i where i: "i < length us" "us ! i = u" using u unfolding in_set_conv_nth by blast
      then have s: "es ! i \<in> set es" "PathUnescape (es ! i) = Some u"
        using us(1) by (auto simp: list_all2_conv_all_nth)
      have "\<not> Contains (map lower_char (es ! i)) ''%2f''"
        using encoded_slash_in_segment [OF s(1)] assms(2) unfolding e by blast
      with s seg_ok_no_slash [OF es(1)] show ?thesis by (intro unescape_no_slash [OF s(2)]) auto
    qed
    have "map pathUnescape es = us"
      using us(1) by (intro nth_equalityI) (auto simp: list_all2_conv_all_nth pathUnescape_def)
    then have ms: "ms = us @ (if slash then [[]] else [])" using es False by simp
    have "us \<noteq> []" using us(1) False by auto
    note split = Split_segs [OF no this]
    have "url_path e = t" using t by (simp add: url_path_def pathUnescape_def)
    then have "clean_segs (url_path e) = foldl clean_step [] ms"
      using split us(2) ms by (cases slash) (simp_all add: clean_segs_def clean_step_def)
    then show ?thesis using ms no by (cases slash) auto
  qed
  then show "clean_segs (url_path e) = foldl clean_step [] ms" "\<And>m. m \<in> set ms \<Longrightarrow> CHR ''/'' \<notin> set m" by auto
qed

lemma clean_fold_filter:
  "''.'' \<notin> set ms \<Longrightarrow> ''..'' \<notin> set ms \<Longrightarrow> foldl clean_step acc ms = acc @ filter (\<lambda>s. s \<noteq> []) ms"
  by (induction ms arbitrary: acc) (auto simp: clean_step_def)

lemma is_api_clean: "is_api (cleanPath p) \<longleftrightarrow> take 1 (clean_segs p) = [''api'']"
proof -
  obtain slash where s: "cleanPath p = canon_path (clean_segs p) slash" using cleanPath_shape by blast
  have "is_api (cleanPath p) \<longleftrightarrow> hasSegPrefix (cleanPath p) (render [''api''])"
    by (simp add: is_api_def hasSegPrefix_def render_def)
  also have "\<dots> \<longleftrightarrow> take (length [''api'']) (clean_segs p) = [''api'']"
    unfolding s by (rule hasSegPrefix_canon [OF clean_segs_ok]) (simp_all add: seg_ok_def)
  finally show ?thesis by simp
qed

text \<open>The slash at the end of the decoded path is the empty segment at the end for the mux.\<close>

lemma PathUnescape_Nil: "PathUnescape s = Some [] \<Longrightarrow> s = []"
  by (cases s) (auto split: if_splits list.splits option.splits)

lemma mux_slash:
  assumes "mux_segs e = Some ms" "\<not> Contains (map lower_char e) ''%2f''" "PathUnescape e \<noteq> None"
  shows "HasSuffix (url_path e) ''/'' \<longleftrightarrow> last ms = []"
proof -
  obtain es slash where es: "list_all seg_ok es" "e = canon_path es slash"
    "ms = (if es = [] then [[]] else map pathUnescape es @ (if slash then [[]] else []))"
    using mux_shape [OF assms(1)] by blast
  obtain t where t: "PathUnescape e = Some t" using assms(3) by auto
  then have u: "url_path e = t" by (simp add: url_path_def pathUnescape_def)
  show ?thesis
  proof (cases "es = []")
    case True
    then show ?thesis using es t u by (auto simp: canon_path_def HasSuffix_def HasPrefix_def)
  next
    case False
    let ?sl = "if slash then ''/'' else []"
    obtain us where us: "list_all2 (\<lambda>s u. PathUnescape s = Some u) es us" "t = render us @ ?sl"
      using PathUnescape_render [of ?sl es t] t es False by (cases slash) (auto simp: canon_path_def)
    have pu: "map pathUnescape es = us"
      using us(1) by (intro nth_equalityI) (auto simp: list_all2_conv_all_nth pathUnescape_def)
    show ?thesis
    proof (cases slash)
      case True
      then show ?thesis using us(2) u es False by (simp add: HasSuffix_def HasPrefix_def)
    next
      case no: False
      have ms: "ms = us" "us \<noteq> []" using es False no pu us(1) by auto
      have "last us \<in> set us" using ms(2) by simp
      then obtain i where i: "i < length us" "us ! i = last us" unfolding in_set_conv_nth by blast
      then have "PathUnescape (es ! i) = Some (last us)" "es ! i \<in> set es"
        using us(1) by (auto simp: list_all2_conv_all_nth)
      moreover from this have "es ! i \<noteq> []" using es(1) by (auto simp: list_all_iff seg_ok_def)
      ultimately have ne: "last us \<noteq> []" using PathUnescape_Nil by metis
      have "CHR ''/'' \<notin> set (last us)"
        using mux_clean_segs(2) [OF assms, of "last us"] ms by simp
      then have "last (last us) \<noteq> CHR ''/''" using ne last_in_set by metis
      moreover have "render us = render (butlast us) @ CHR ''/'' # last us"
        using ms(2) append_butlast_last_id [OF ms(2)] render_append [of "butlast us" "[last us]"] by (simp add: render_def)
      ultimately have "\<not> HasSuffix (render us) ''/''"
        using ne by (cases "last us" rule: rev_cases) (auto simp: HasSuffix_def HasPrefix_def)
      then show ?thesis using us(2) u no ms ne by simp
    qed
  qed
qed

end
