(* ===== verification/Enc_Serve.thy ===== *)
theory Enc_Serve
  imports Enc_Auth Enc_Mux
begin

text \<open>
  Requests to the encoder's API from the middleware to the handlers
  (\<^verbatim>\<open>middleware.go\<close>, \<^verbatim>\<open>handlers.go\<close> under \<^verbatim>\<open>streamhub-encoder/internal/auth\<close>), and the security properties of
  the service as a whole. A reply is its status, the session cookie it sets and its \<^verbatim>\<open>Retry-After\<close>; a
  request that passes the middleware and belongs to no handler of this package is forwarded.
\<close>

section \<open>The middleware\<close>

datatype mw_result =
    Refused nat
  | Passed "principal option" bool

definition csrfOK :: "request \<Rightarrow> bool" where
  "csrfOK r = (r_xrw r = UIHeaderValue)"

definition Middleware :: "inputs \<Rightarrow> request \<Rightarrow> auth \<Rightarrow> mw_result \<times> auth" where
  "Middleware inp r a =
     (let p = cleanPath (url_path (r_escaped r))
      in if is_api p \<and> Contains (map lower_char (r_escaped r)) ''%2f'' then (Refused 400, a)
         else case classify (a_policy a) (a_metrics a) (r_method r) p of (acc, role) \<Rightarrow>
           (case authenticate inp r a of ((pr, viaCookie), a') \<Rightarrow>
              if acc = accessPublic then
                (if pr \<noteq> None \<and> viaCookie \<and> \<not> isRead (r_method r) \<and> p \<noteq> ''/api/v1/auth/login'' \<and> \<not> csrfOK r
                 then (Refused 403, a')
                 else (Passed pr viaCookie, a'))
              else (case pr of
                 None \<Rightarrow> (Refused 401, a')
               | Some q \<Rightarrow>
                   if viaCookie \<and> \<not> isRead (r_method r) \<and> \<not> csrfOK r then (Refused 403, a')
                   else if acc = accessRole \<and> pr_must q then (Refused 403, a')
                   else if acc = accessRole \<and> \<not> AtLeast (pr_role q) role then (Refused 403, a')
                   else (Passed pr viaCookie, a'))))"

section \<open>The handlers\<close>

record reply =
  rep_status :: nat
  rep_cookie :: "string option"
  rep_retry :: "int option"

definition status :: "nat \<Rightarrow> reply" where
  "status n = \<lparr>rep_status = n, rep_cookie = None, rep_retry = None\<rparr>"

fun decode_status :: "decode_err \<Rightarrow> nat" where
  "decode_status BodyTooLarge = 413"
| "decode_status BodyMissing = 400"
| "decode_status BodyInvalid = 400"
| "decode_status BodyTrailing = 400"

fun writeErr :: "auth_error \<Rightarrow> nat" where
  "writeErr (InvalidErr _) = 422"
| "writeErr (ConflictErr _) = 409"
| "writeErr (NotFoundErr _) = 404"
| "writeErr _ = 500"

definition second :: int where
  "second = 1000000000"

text \<open>\<^verbatim>\<open>int(wait.Round(time.Second) / time.Second)\<close>, at least one: the wait to the nearest second.\<close>

definition login_retry :: "int \<Rightarrow> int" where
  "login_retry wait = max 1 ((wait + second div 2) div second)"

text \<open>Ending the session of the cookie a request carries, if it carries one.\<close>

definition drop_cookie :: "request \<Rightarrow> auth \<Rightarrow> auth" where
  "drop_cookie r a =
     (case r_cookie r of Some c \<Rightarrow> a\<lparr>a_sessions := delete_session c (a_sessions a)\<rparr> | None \<Rightarrow> a)"

text \<open>\<open>None\<close>: the handler does not return (the eviction loop of \<^verbatim>\<open>create\<close>).\<close>

definition new_session :: "inputs \<Rightarrow> string \<Rightarrow> auth \<Rightarrow> auth option" where
  "new_session inp name a =
     map_option (\<lambda>ss. a\<lparr>a_sessions := ss\<rparr>)
       (create (in_sess_order inp) (in_random inp) (in_now inp) name (a_sessions a))"

definition handleLogin :: "platform \<Rightarrow> inputs \<Rightarrow> request \<Rightarrow> auth \<Rightarrow> (reply \<times> auth) option" where
  "handleLogin env inp r a =
     (if \<not> r_json r then Some (status 415, a)
      else case r_login r of
        Inl err \<Rightarrow> Some (status (decode_status err), a)
      | Inr (user, password) \<Rightarrow>
          let name = ToLower (uni_lower env) (TrimSpace user)
          in case blocked name (r_ip r) (in_now inp) (a_limiter a) of (wait, is_blocked, l1) \<Rightarrow>
               let a1 = a\<lparr>a_limiter := l1\<rparr>
               in if is_blocked then Some ((status 429)\<lparr>rep_retry := Some (login_retry wait)\<rparr>, a1)
                  else let u = getUser (a_store a1) name;
                           hash = (case u of Some x \<Rightarrow> u_hash x | None \<Rightarrow> []);
                           ok = verifyPassword env hash password
                       in if \<not> ok \<or> u = None \<or> u_disabled (the u)
                          then Some (status 401, a1\<lparr>a_limiter := fail (in_lim_order inp) name (r_ip r) (in_now inp) l1\<rparr>)
                          else let a2 = drop_cookie r (a1\<lparr>a_limiter := success name (r_ip r) l1\<rparr>)
                               in map_option (\<lambda>a3. ((status 200)\<lparr>rep_cookie := Some (in_random inp)\<rparr>, a3))
                                    (new_session inp (u_name (the u)) a2))"

definition handleLogout :: "request \<Rightarrow> auth \<Rightarrow> reply \<times> auth" where
  "handleLogout r a = ((status 204)\<lparr>rep_cookie := Some []\<rparr>, drop_cookie r a)"

definition handleMe :: "principal option \<Rightarrow> auth \<Rightarrow> reply \<times> auth" where
  "handleMe p a = (case p of None \<Rightarrow> (status 401, a) | Some _ \<Rightarrow> (status 200, a))"

definition handlePassword :: "platform \<Rightarrow> inputs \<Rightarrow> principal option \<Rightarrow> request \<Rightarrow> auth \<Rightarrow> (reply \<times> auth) option" where
  "handlePassword env inp pr r a =
     (case pr of
        None \<Rightarrow> Some (status 401, a)
      | Some p \<Rightarrow>
          if pr_kind p \<noteq> KindUser then Some (status 400, a)
          else (case r_password r of
            Inl err \<Rightarrow> Some (status (decode_status err), a)
          | Inr (current, nxt) \<Rightarrow>
              (case blocked (pr_name p) (r_ip r) (in_now inp) (a_limiter a) of (wait, is_blocked, l1) \<Rightarrow>
                 let a1 = a\<lparr>a_limiter := l1\<rparr>
                 in if is_blocked then Some ((status 429)\<lparr>rep_retry := Some (max 1 (wait div second))\<rparr>, a1)
                    else (case changeOwnPassword env inp (pr_name p) current nxt a1 of
                      (Some BadCurrentPassword, a2) \<Rightarrow>
                        Some (status 403, a2\<lparr>a_limiter := fail (in_lim_order inp) (pr_name p) (r_ip r) (in_now inp) (a_limiter a2)\<rparr>)
                    | (Some err, a2) \<Rightarrow> Some (status (writeErr err), a2)
                    | (None, a2) \<Rightarrow>
                        let a3 = a2\<lparr>a_limiter := success (pr_name p) (r_ip r) (a_limiter a2),
                                    a_sessions := deleteUser (pr_name p) [] (a_sessions a2)\<rparr>
                        in map_option (\<lambda>a4. ((status 200)\<lparr>rep_cookie := Some (in_random inp)\<rparr>, a4))
                             (new_session inp (pr_name p) a3)))))"

text \<open>The wrapper \<^verbatim>\<open>admin\<close>: the refusal, if any.\<close>

definition admin_refusal :: "principal option \<Rightarrow> reply option" where
  "admin_refusal pr =
     (case pr of
        None \<Rightarrow> Some (status 401)
      | Some p \<Rightarrow> if \<not> AtLeast (pr_role p) RoleAdmin \<or> pr_must p then Some (status 403) else None)"

definition handleUsersCreate :: "platform \<Rightarrow> inputs \<Rightarrow> request \<Rightarrow> auth \<Rightarrow> reply \<times> auth" where
  "handleUsersCreate env inp r a =
     (case r_newuser r of
        Inl err \<Rightarrow> (status (decode_status err), a)
      | Inr (name, password, rl, mcp) \<Rightarrow>
          (case CreateUser env inp name password rl (case mcp of Some b \<Rightarrow> b | None \<Rightarrow> True) a of
             (Inl err, a') \<Rightarrow> (status (writeErr err), a')
           | (Inr _, a') \<Rightarrow> (status 201, a')))"

definition handleUsersPatch :: "platform \<Rightarrow> inputs \<Rightarrow> string \<Rightarrow> request \<Rightarrow> auth \<Rightarrow> reply \<times> auth" where
  "handleUsersPatch env inp name r a =
     (case r_patch r of
        Inl err \<Rightarrow> (status (decode_status err), a)
      | Inr p \<Rightarrow>
          (case UpdateUser env inp name p a of
             (Inl err, a') \<Rightarrow> (status (writeErr err), a')
           | (Inr _, a') \<Rightarrow> (status 200, a')))"

definition handleUsersDelete :: "platform \<Rightarrow> inputs \<Rightarrow> string \<Rightarrow> auth \<Rightarrow> reply \<times> auth" where
  "handleUsersDelete env inp name a =
     (case DeleteUser env inp name a of
        (Some err, a') \<Rightarrow> (status (writeErr err), a')
      | (None, a') \<Rightarrow> (status 204, a'))"

definition handleTokensCreate :: "inputs \<Rightarrow> request \<Rightarrow> auth \<Rightarrow> reply \<times> auth" where
  "handleTokensCreate inp r a =
     (case r_newtoken r of
        Inl err \<Rightarrow> (status (decode_status err), a)
      | Inr (name, rl) \<Rightarrow>
          (case CreateToken inp name rl a of
             (Inl err, a') \<Rightarrow> (status (writeErr err), a')
           | (Inr _, a') \<Rightarrow> (status 201, a')))"

definition handleTokensDelete :: "inputs \<Rightarrow> string \<Rightarrow> auth \<Rightarrow> reply \<times> auth" where
  "handleTokensDelete inp tid a =
     (case RevokeToken inp tid a of
        (Some err, a') \<Rightarrow> (status (writeErr err), a')
      | (None, a') \<Rightarrow> (status 204, a'))"

definition maxAuditLimit :: int where
  "maxAuditLimit = 5000"

definition handleAudit :: "inputs \<Rightarrow> request \<Rightarrow> reply" where
  "handleAudit inp r =
     (let tail = status (if in_audit inp then 200 else 500)
      in if r_limit r = [] then tail
         else case Atoi (r_limit r) of
                None \<Rightarrow> status 422
              | Some n \<Rightarrow> if n < 1 \<or> n > maxAuditLimit then status 422 else tail)"

section \<open>The mux\<close>

datatype handler =
    HLogin | HLogout | HMe | HPassword
  | HUsersList | HUsersCreate | HUsersPatch string | HUsersDelete string
  | HTokensList | HTokensCreate | HTokensDelete string | HAudit

text \<open>
  \<^verbatim>\<open>Register\<close>: the routes of this package. A \<^verbatim>\<open>GET\<close> pattern also serves \<^verbatim>\<open>HEAD\<close> and a wildcard takes one
  non-empty segment.
\<close>

definition dispatch :: "request \<Rightarrow> handler option" where
  "dispatch r =
     (let m = r_method r;
          rd = (m = ''GET'' \<or> m = ''HEAD'')
      in case mux_segs (r_escaped r) of
           Some [x, y, z, w] \<Rightarrow>
             if [x, y] \<noteq> [''api'', ''v1''] then None
             else if z = ''auth'' then
               (if m = ''POST'' \<and> w = ''login'' then Some HLogin
                else if m = ''POST'' \<and> w = ''logout'' then Some HLogout
                else if rd \<and> w = ''me'' then Some HMe
                else if m = ''POST'' \<and> w = ''password'' then Some HPassword
                else None)
             else if w = [] then None
             else if z = ''users'' then
               (if m = ''PATCH'' then Some (HUsersPatch w) else if m = ''DELETE'' then Some (HUsersDelete w) else None)
             else if z = ''tokens'' then (if m = ''DELETE'' then Some (HTokensDelete w) else None)
             else None
         | Some [x, y, z] \<Rightarrow>
             if [x, y] \<noteq> [''api'', ''v1''] then None
             else if z = ''users'' then
               (if rd then Some HUsersList else if m = ''POST'' then Some HUsersCreate else None)
             else if z = ''tokens'' then
               (if rd then Some HTokensList else if m = ''POST'' then Some HTokensCreate else None)
             else if z = ''audit'' \<and> rd then Some HAudit
             else None
         | _ \<Rightarrow> None)"

definition run_handler :: "platform \<Rightarrow> inputs \<Rightarrow> handler \<Rightarrow> principal option \<Rightarrow> request \<Rightarrow> auth \<Rightarrow> (reply \<times> auth) option" where
  "run_handler env inp h pr r a =
     (case h of
        HLogin \<Rightarrow> handleLogin env inp r a
      | HLogout \<Rightarrow> Some (handleLogout r a)
      | HMe \<Rightarrow> Some (handleMe pr a)
      | HPassword \<Rightarrow> handlePassword env inp pr r a
      | _ \<Rightarrow>
          (case admin_refusal pr of
             Some rep \<Rightarrow> Some (rep, a)
           | None \<Rightarrow>
               Some (case h of
                 HUsersCreate \<Rightarrow> handleUsersCreate env inp r a
               | HUsersPatch name \<Rightarrow> handleUsersPatch env inp name r a
               | HUsersDelete name \<Rightarrow> handleUsersDelete env inp name a
               | HTokensCreate \<Rightarrow> handleTokensCreate inp r a
               | HTokensDelete tid \<Rightarrow> handleTokensDelete inp tid a
               | HAudit \<Rightarrow> (handleAudit inp r, a)
               | _ \<Rightarrow> (status 200, a))))"

datatype outcome =
    Replied reply
  | Forwarded "principal option"

definition serve :: "platform \<Rightarrow> inputs \<Rightarrow> request \<Rightarrow> auth \<Rightarrow> (outcome \<times> auth) option" where
  "serve env inp r a =
     (case Middleware inp r a of
        (Refused n, a1) \<Rightarrow> Some (Replied (status n), a1)
      | (Passed pr via, a1) \<Rightarrow>
          (case dispatch r of
             None \<Rightarrow> Some (Forwarded pr, a1)
           | Some h \<Rightarrow> map_option (\<lambda>(rep, a2). (Replied rep, a2)) (run_handler env inp h pr r a1)))"

end
