(* ===== verification/Enc_Secure.thy ===== *)
theory Enc_Secure
  imports Enc_Serve
begin

text \<open>
  Security of the encoder's API as a whole. Every request the service handles is a sequence of
  elementary changes of its state; the relation \<open>act\<close> lists them with the \<open>deed\<close> each one amounts to,
  and \<open>serve_acts\<close> shows that a request only does the deeds its credentials allow (\<open>may\<close>). The properties
  of the accounts, sessions and tokens then follow by induction over these changes.
\<close>

section \<open>Elementary changes\<close>

datatype deed =
    Keeps \<comment> \<open>bookkeeping, and ending sessions\<close>
  | Enters string \<comment> \<open>a session for the account\<close>
  | Administers \<comment> \<open>a change to users or tokens\<close>
  | Rehashes string \<comment> \<open>a new password for the account\<close>
  | Mints string \<comment> \<open>a token with this hash\<close>

inductive act :: "inputs \<Rightarrow> deed \<Rightarrow> auth \<Rightarrow> auth \<Rightarrow> bool" for inp where
  act_limiter: "act inp Keeps a (a\<lparr>a_limiter := l\<rparr>)"
| act_get: "act inp Keeps a (a\<lparr>a_sessions := snd (get c (in_now inp) (a_sessions a))\<rparr>)"
| act_drop: "act inp Keeps a (a\<lparr>a_sessions := delete_session c (a_sessions a)\<rparr>)"
| act_clear: "act inp Keeps a (a\<lparr>a_sessions := deleteUser u [] (a_sessions a)\<rparr>)"
| act_touch: "act inp Keeps a (a\<lparr>a_store := snd (touchToken ok tid (in_now inp) (a_store a))\<rparr>)"
| act_enter: "new_session inp u a = Some a' \<Longrightarrow> act inp (Enters u) a a'"
| act_add: "act inp Administers a (a\<lparr>a_store := snd (update (in_saved inp) (add_user u) (a_store a))\<rparr>)"
| act_patch: "act inp Administers a
    (a\<lparr>a_store := snd (update (in_saved inp) (\<lambda>d. map_sum id fst (patch_user n p hash d)) (a_store a))\<rparr>)"
| act_remove: "act inp Administers a (a\<lparr>a_store := snd (update (in_saved inp) (remove_user n) (a_store a))\<rparr>)"
| act_revoke: "act inp Administers a (a\<lparr>a_store := snd (update (in_saved inp) (revoke_token tid) (a_store a))\<rparr>)"
| act_mint: "act inp (Mints (t_hash t)) a (a\<lparr>a_store := snd (update (in_saved inp) (add_token t) (a_store a))\<rparr>)"
| act_rehash: "act inp (Rehashes n) a (a\<lparr>a_store := snd (update (in_saved inp) (set_own_password n hash) (a_store a))\<rparr>)"

inductive_cases act_keepsE: "act inp Keeps a b"
inductive_cases act_entersE: "act inp (Enters u) a b"
inductive_cases act_administersE: "act inp Administers a b"
inductive_cases act_rehashesE: "act inp (Rehashes n) a b"
inductive_cases act_mintsE: "act inp (Mints h) a b"

definition acts :: "inputs \<Rightarrow> deed set \<Rightarrow> auth \<Rightarrow> auth \<Rightarrow> bool" where
  "acts inp D = (\<lambda>a b. \<exists>d \<in> D. act inp d a b)\<^sup>*\<^sup>*"

lemma acts_refl [simp, intro]: "acts inp D a a"
  by (simp add: acts_def)

lemma acts_step: "acts inp D a b \<Longrightarrow> act inp d b c \<Longrightarrow> d \<in> D \<Longrightarrow> acts inp D a c"
  unfolding acts_def by (rule rtranclp.rtrancl_into_rtrancl) auto

lemma acts_one: "act inp d a b \<Longrightarrow> d \<in> D \<Longrightarrow> acts inp D a b"
  by (rule acts_step [OF acts_refl])

lemma acts_trans: "acts inp D a b \<Longrightarrow> acts inp D b c \<Longrightarrow> acts inp D a c"
  unfolding acts_def by (rule rtranclp_trans)

lemma acts_mono: "acts inp D a b \<Longrightarrow> D \<subseteq> E \<Longrightarrow> acts inp E a b"
  unfolding acts_def by (erule rtranclp_mono [THEN predicate2D, rotated]) blast

lemma acts_induct [consumes 1, case_names refl step]:
  assumes "acts inp D a b" "P a" "\<And>b c d. d \<in> D \<Longrightarrow> act inp d b c \<Longrightarrow> P b \<Longrightarrow> P c"
  shows "P b"
  using assms(1) unfolding acts_def by (induction rule: rtranclp_induct) (auto intro: assms(2,3))

section \<open>Requests as changes\<close>

text \<open>The hash of the token that a request may create: its secret is drawn with the request.\<close>

definition minted :: "inputs \<Rightarrow> string" where
  "minted inp = EncodeToString (Sum256 (TokenPrefix @ in_random inp))"

lemma stored:
  "act inp d a (a\<lparr>a_store := snd (update ok f (a_store a))\<rparr>) \<Longrightarrow> update ok f (a_store a) = (err, s) \<Longrightarrow> d \<in> D \<Longrightarrow>
   acts inp D a (a\<lparr>a_store := s\<rparr>)"
  using acts_one by simp

lemma CreateUser_acts: "CreateUser env inp n pw rl m a = (res, a') \<Longrightarrow> acts inp {Administers} a a'"
  unfolding CreateUser_def Let_def
  by (auto split: sum.splits if_splits prod.splits option.splits intro: stored [OF act_add])

lemma CreateToken_acts:
  "CreateToken inp n rl a = (res, a') \<Longrightarrow> acts inp {Mints (minted inp)} a a'"
  unfolding CreateToken_def Let_def minted_def
  by (auto split: if_splits prod.splits option.splits intro!: stored [OF act_mint [where t = t for t, simplified]])

lemma RevokeToken_acts: "RevokeToken inp tid a = (res, a') \<Longrightarrow> acts inp {Administers} a a'"
  unfolding RevokeToken_def by (auto split: prod.splits intro: stored [OF act_revoke])

lemma DeleteUser_acts:
  assumes "DeleteUser env inp n a = (res, a')"
  shows "acts inp {Keeps, Administers} a a'"
proof -
  let ?n = "ToLower (uni_lower env) (TrimSpace n)"
  obtain err s where u: "update (in_saved inp) (remove_user ?n) (a_store a) = (err, s)" by fastforce
  have "acts inp {Keeps, Administers} a (a\<lparr>a_store := s\<rparr>)" using u by (rule stored [OF act_remove]) simp
  then show ?thesis
    using assms u act_clear [of inp "a\<lparr>a_store := s\<rparr>" ?n]
    by (cases err) (auto simp: DeleteUser_def Let_def intro: acts_step)
qed

lemma UpdateUser_acts:
  assumes "UpdateUser env inp n p a = (res, a')"
  shows "acts inp {Keeps, Administers} a a'"
proof -
  let ?n = "ToLower (uni_lower env) (TrimSpace n)"
  have change: "acts inp {Keeps, Administers} a b"
    if "update (in_saved inp) (\<lambda>d. map_sum id fst (patch_user ?n p hash d)) (a_store a) = (err, s)"
      "b = a\<lparr>a_store := s\<rparr> \<or> b = a\<lparr>a_store := s, a_sessions := deleteUser ?n [] (a_sessions a)\<rparr>" for b err s hash
  proof -
    have "acts inp {Keeps, Administers} a (a\<lparr>a_store := s\<rparr>)" using that(1) by (rule stored [OF act_patch]) simp
    then show ?thesis using that(2) act_clear [of inp "a\<lparr>a_store := s\<rparr>" ?n] by (auto intro: acts_step)
  qed
  show ?thesis
    using assms unfolding UpdateUser_def Let_def
    by (auto split: if_splits sum.splits prod.splits option.splits intro: change)
qed

lemma changeOwnPassword_acts:
  "changeOwnPassword env inp n cur nxt a = (res, a') \<Longrightarrow> acts inp {Rehashes n} a a'"
  unfolding changeOwnPassword_def
  by (auto split: option.splits if_splits sum.splits prod.splits intro: stored [OF act_rehash])

lemma tokenPrincipal_acts: "tokenPrincipal inp tok a = (res, a') \<Longrightarrow> acts inp {Keeps} a a'"
  unfolding tokenPrincipal_def
  by (auto split: if_splits option.splits intro: acts_one [OF act_touch])

lemma authenticate_acts:
  assumes "authenticate inp r a = (res, a')"
  shows "acts inp {Keeps} a a'"
proof (cases "r_authorization r = []")
  case False
  then show ?thesis
    using assms by (auto simp: authenticate_def Let_def split: prod.splits if_splits intro: tokenPrincipal_acts)
next
  case True
  show ?thesis
  proof (cases "r_cookie r = None \<or> r_cookie r = Some []")
    case True
    then show ?thesis using assms \<open>r_authorization r = []\<close> by (auto simp: authenticate_def)
  next
    case False
    then obtain c where c: "r_cookie r = Some c" "c \<noteq> []" by auto
    obtain nm ss where g: "get c (in_now inp) (a_sessions a) = (nm, ss)" by fastforce
    have one: "acts inp {Keeps} a (a\<lparr>a_sessions := ss\<rparr>)"
      using act_get [of inp a c] g by (intro acts_one) auto
    have "acts inp {Keeps} a (a\<lparr>a_sessions := delete_session c ss\<rparr>)"
      using acts_step [OF one, of Keeps] act_drop [of inp "a\<lparr>a_sessions := ss\<rparr>" c] by simp
    then show ?thesis
      using assms True c g one by (auto simp: authenticate_def split: option.splits if_splits)
  qed
qed

text \<open>What the middleware establishes for a request that it passes on.\<close>

lemma Middleware_cases:
  assumes "Middleware inp r a = (res, a')"
  shows "acts inp {Keeps} a a'"
    and "res = Passed pr via \<Longrightarrow> authenticate inp r a = ((pr, via), a')"
    and "res = Passed pr via \<Longrightarrow> pr \<noteq> None \<Longrightarrow> via \<Longrightarrow> \<not> isRead (r_method r) \<Longrightarrow>
         cleanPath (url_path (r_escaped r)) \<noteq> ''/api/v1/auth/login'' \<Longrightarrow> csrfOK r"
    and "res = Passed pr via \<Longrightarrow> is_api (cleanPath (url_path (r_escaped r))) \<Longrightarrow>
         \<not> Contains (map lower_char (r_escaped r)) ''%2f''"
proof -
  let ?p = "cleanPath (url_path (r_escaped r))"
  obtain acc role where cl: "classify (a_policy a) (a_metrics a) (r_method r) ?p = (acc, role)" by fastforce
  obtain pr0 via0 a0 where au: "authenticate inp r a = ((pr0, via0), a0)" by (metis prod.exhaust)
  note mw = assms [unfolded Middleware_def Let_def cl au prod.case]
  show "acts inp {Keeps} a a'"
    using mw authenticate_acts [OF au] by (auto split: if_splits option.splits)
  show "res = Passed pr via \<Longrightarrow> authenticate inp r a = ((pr, via), a')"
    using mw au by (auto split: if_splits option.splits)
  show "res = Passed pr via \<Longrightarrow> pr \<noteq> None \<Longrightarrow> via \<Longrightarrow> \<not> isRead (r_method r) \<Longrightarrow>
      ?p \<noteq> ''/api/v1/auth/login'' \<Longrightarrow> csrfOK r"
    using mw by (auto split: if_splits option.splits)
  show "res = Passed pr via \<Longrightarrow> is_api ?p \<Longrightarrow> \<not> Contains (map lower_char (r_escaped r)) ''%2f''"
    using mw by (auto split: if_splits)
qed

text \<open>The handlers that change the accounts are reached by writes, and never on the path of the login.\<close>

definition writes :: "handler \<Rightarrow> bool" where
  "writes h = (case h of HLogin \<Rightarrow> False | HMe \<Rightarrow> False | HUsersList \<Rightarrow> False | HTokensList \<Rightarrow> False | HAudit \<Rightarrow> False | _ \<Rightarrow> True)"

lemma dispatch_writes:
  assumes "dispatch r = Some h" "writes h"
  shows "\<not> isRead (r_method r)"
    and "\<exists>ms. mux_segs (r_escaped r) = Some ms \<and> foldl clean_step [] ms \<noteq> [''api'', ''v1'', ''auth'', ''login'']"
proof -
  obtain ms where ms: "mux_segs (r_escaped r) = Some ms"
    using assms(1) by (cases "mux_segs (r_escaped r)") (simp_all add: dispatch_def Let_def)
  have len: "(\<exists>x y z. ms = [x, y, z]) \<or> (\<exists>x y z w. ms = [x, y, z, w])"
    using assms(1) ms by (auto simp: dispatch_def Let_def split: list.splits)
  then show "\<not> isRead (r_method r)"
    using assms ms by (auto simp: dispatch_def Let_def isRead_def writes_def split: if_splits)
  have "foldl clean_step [] ms \<noteq> [''api'', ''v1'', ''auth'', ''login'']"
    using assms ms len by (auto simp: dispatch_def Let_def writes_def clean_step_def split: if_splits)
  with ms show "\<exists>ms. mux_segs (r_escaped r) = Some ms \<and> foldl clean_step [] ms \<noteq> [''api'', ''v1'', ''auth'', ''login'']"
    by blast
qed

lemma login_path: "clean_segs ''/api/v1/auth/login'' = [''api'', ''v1'', ''auth'', ''login'']"
  "PathUnescape ''/api/v1/auth/login'' \<noteq> None" "is_api ''/api/v1/auth/login''"
  by code_simp+

lemma clean_segs_cleanPath: "clean_segs (cleanPath p) = clean_segs p"
  using cleanPath_shape [of p] clean_segs_canon [OF clean_segs_ok] by metis

lemma written_not_login:
  assumes "dispatch r = Some h" "writes h" "Middleware inp r a = (Passed pr via, a')"
  shows "cleanPath (url_path (r_escaped r)) \<noteq> ''/api/v1/auth/login''"
proof
  let ?e = "r_escaped r"
  assume login: "cleanPath (url_path ?e) = ''/api/v1/auth/login''"
  obtain ms where ms: "mux_segs ?e = Some ms" "foldl clean_step [] ms \<noteq> [''api'', ''v1'', ''auth'', ''login'']"
    using dispatch_writes(2) [OF assms(1,2)] by blast
  have no: "\<not> Contains (map lower_char ?e) ''%2f''"
    by (rule Middleware_cases(4) [OF assms(3) refl]) (unfold login, rule login_path)
  have "PathUnescape ?e \<noteq> None"
  proof
    assume none: "PathUnescape ?e = None"
    then have "url_path ?e = ?e" by (simp add: url_path_def pathUnescape_def)
    moreover have "cleanPath ?e = ?e" using ms(1) by (simp add: mux_segs_def mux_cleanPath_eq split: if_splits)
    ultimately have "?e = ''/api/v1/auth/login''" using login by simp
    with none login_path(2) show False by simp
  qed
  with mux_clean_segs(1) [OF ms(1) no] have "clean_segs (url_path ?e) = foldl clean_step [] ms" by simp
  moreover have "clean_segs (url_path ?e) = [''api'', ''v1'', ''auth'', ''login'']"
    using clean_segs_cleanPath [of "url_path ?e"] unfolding login login_path(1) by simp
  ultimately show False using ms(2) by simp
qed

section \<open>What a request may do\<close>

text \<open>A login that gives the right password of an enabled account and is not locked out.\<close>

definition login_ok :: "platform \<Rightarrow> inputs \<Rightarrow> request \<Rightarrow> auth \<Rightarrow> string \<Rightarrow> bool" where
  "login_ok env inp r a u \<longleftrightarrow>
     dispatch r = Some HLogin \<and> r_json r \<and>
     (\<exists>user pw x. r_login r = Inr (user, pw) \<and> ToLower (uni_lower env) (TrimSpace user) = u \<and>
        getUser (a_store a) u = Some x \<and> \<not> u_disabled x \<and> verifyPassword env (u_hash x) pw \<and>
        \<not> fst (snd (blocked u (r_ip r) (in_now inp) (a_limiter a))))"

definition is_admin :: "principal \<Rightarrow> bool" where
  "is_admin q = (AtLeast (pr_role q) RoleAdmin \<and> \<not> pr_must q)"

definition admin_deeds :: "inputs \<Rightarrow> handler option \<Rightarrow> deed set" where
  "admin_deeds inp h = {Keeps, Administers} \<union> (if h = Some HTokensCreate then {Mints (minted inp)} else {})"

definition may :: "platform \<Rightarrow> inputs \<Rightarrow> request \<Rightarrow> auth \<Rightarrow> deed set" where
  "may env inp r a =
     {Keeps} \<union> {Enters u |u. login_ok env inp r a u} \<union>
     (case fst (authenticate inp r a) of
        (None, _) \<Rightarrow> {}
      | (Some q, via) \<Rightarrow>
          if via \<and> \<not> csrfOK r then {}
          else (if is_admin q then admin_deeds inp (dispatch r) else {}) \<union>
               (if pr_kind q = KindUser then {Rehashes (pr_name q), Enters (pr_name q)} else {}))"

lemma drop_cookie_acts: "acts inp D a b \<Longrightarrow> Keeps \<in> D \<Longrightarrow> acts inp D a (drop_cookie r b)"
  by (auto simp: drop_cookie_def split: option.splits intro: acts_step act_drop)

lemma limiter_acts: "acts inp D a b \<Longrightarrow> Keeps \<in> D \<Longrightarrow> acts inp D a (b\<lparr>a_limiter := l\<rparr>)"
  by (rule acts_step [OF _ act_limiter])

lemma handleLogin_acts:
  assumes "handleLogin env inp r a = Some (rep, a')" "dispatch r = Some HLogin"
  shows "acts inp ({Keeps} \<union> {Enters u |u. login_ok env inp r a u}) a a'"
proof (cases "r_json r \<and> (\<exists>user pw. r_login r = Inr (user, pw))")
  case False
  then show ?thesis using assms by (auto simp: handleLogin_def split: sum.splits if_splits)
next
  case True
  then obtain user pw where lg: "r_login r = Inr (user, pw)" "r_json r" by blast
  let ?u = "ToLower (uni_lower env) (TrimSpace user)" and ?D = "{Keeps} \<union> {Enters u |u. login_ok env inp r a u}"
  obtain w b l where bl: "blocked ?u (r_ip r) (in_now inp) (a_limiter a) = (w, b, l)" by (metis prod.exhaust)
  note h = assms(1) [unfolded handleLogin_def Let_def lg sum.case bl prod.case]
  let ?ok = "case getUser (a_store a) ?u of None \<Rightarrow> False | Some x \<Rightarrow> \<not> u_disabled x \<and> verifyPassword env (u_hash x) pw"
  show ?thesis
  proof (cases "b \<or> \<not> ?ok")
    case True
    then show ?thesis
      using h lg by (auto split: if_splits option.splits intro!: limiter_acts)
  next
    case False
    then obtain x where x: "getUser (a_store a) ?u = Some x" "\<not> u_disabled x" "verifyPassword env (u_hash x) pw" "\<not> b"
      by (auto split: option.splits)
    then have "login_ok env inp r a ?u" using assms(2) lg bl by (auto simp: login_ok_def)
    moreover have "u_name x = ?u" using getUser_SomeD [OF x(1)] by simp
    moreover obtain a3 where "new_session inp (u_name x) (drop_cookie r (a\<lparr>a_limiter := success ?u (r_ip r) l\<rparr>)) = Some a3"
      "a' = a3" using h lg x by auto
    moreover have "acts inp ?D a (drop_cookie r (a\<lparr>a_limiter := success ?u (r_ip r) l\<rparr>))"
      by (intro drop_cookie_acts limiter_acts) auto
    ultimately show ?thesis by (metis (mono_tags, lifting) Un_iff act_enter acts_step mem_Collect_eq)
  qed
qed

lemma handlePassword_acts:
  assumes "handlePassword env inp (Some q) r a = Some (rep, a')"
  shows "acts inp ({Keeps} \<union> (if pr_kind q = KindUser then {Rehashes (pr_name q), Enters (pr_name q)} else {})) a a'"
proof (cases "pr_kind q = KindUser \<and> (\<exists>cur nxt. r_password r = Inr (cur, nxt))")
  case False
  then show ?thesis using assms by (auto simp: handlePassword_def split: sum.splits if_splits)
next
  case True
  then obtain cur nxt where pw: "r_password r = Inr (cur, nxt)" "pr_kind q = KindUser" by blast
  let ?n = "pr_name q"
  let ?D = "{Keeps, Rehashes ?n, Enters ?n}"
  obtain w b l where bl: "blocked ?n (r_ip r) (in_now inp) (a_limiter a) = (w, b, l)" by (metis prod.exhaust)
  let ?a1 = "a\<lparr>a_limiter := l\<rparr>"
  obtain err a2 where ch: "changeOwnPassword env inp ?n cur nxt ?a1 = (err, a2)" by fastforce
  note h = assms [unfolded handlePassword_def Let_def option.case pw sum.case bl prod.case ch]
  have a1: "acts inp ?D a ?a1" by (intro limiter_acts) auto
  have a2: "acts inp ?D a a2" using acts_trans [OF a1] acts_mono [OF changeOwnPassword_acts [OF ch], of ?D] by auto
  let ?a3 = "a2\<lparr>a_limiter := success ?n (r_ip r) (a_limiter a2), a_sessions := deleteUser ?n [] (a_sessions a2)\<rparr>"
  have "act inp Keeps (a2\<lparr>a_limiter := success ?n (r_ip r) (a_limiter a2)\<rparr>) ?a3"
    using act_clear [of inp "a2\<lparr>a_limiter := success ?n (r_ip r) (a_limiter a2)\<rparr>" ?n] by simp
  from acts_step [OF limiter_acts [OF a2] this] have a3: "acts inp ?D a ?a3" by simp
  have "a' = ?a1 \<or> a' = a2 \<or> (\<exists>l. a' = a2\<lparr>a_limiter := l\<rparr>) \<or> new_session inp ?n ?a3 = Some a'"
    using h pw by (auto split: if_splits option.splits auth_error.splits)
  then have "acts inp ?D a a'"
    using a1 a2 limiter_acts [OF a2] acts_step [OF a3 act_enter] by auto
  then show ?thesis using pw(2) by (simp add: insert_commute)
qed

lemma touchToken_users [simp]:
  "fd_users (st_data (snd (touchToken ok tid now s))) = fd_users (st_data s)"
  by (simp add: touchToken_def Let_def save_def split: option.splits)

lemma getUser_cong: "fd_users (st_data s) = fd_users (st_data s') \<Longrightarrow> getUser s u = getUser s' u"
  by (simp add: getUser_def split: option.splits)

lemma authenticate_frame:
  assumes "authenticate inp r a = (res, a')"
  shows "a_limiter a' = a_limiter a" "fd_users (st_data (a_store a')) = fd_users (st_data (a_store a))"
proof -
  have tp: "a_limiter b = a_limiter a \<and> fd_users (st_data (a_store b)) = fd_users (st_data (a_store a))"
    if "tokenPrincipal inp tok a = (q, b)" for tok q b
    using that by (auto simp: tokenPrincipal_def split: if_splits option.splits)
  have "a_limiter a' = a_limiter a \<and> fd_users (st_data (a_store a')) = fd_users (st_data (a_store a))"
  proof (cases "r_authorization r = []")
    case False
    with assms tp show ?thesis by (fastforce simp: authenticate_def Let_def split: prod.splits if_splits)
  next
    case True
    with assms show ?thesis by (auto simp: authenticate_def split: prod.splits if_splits option.splits)
  qed
  then show "a_limiter a' = a_limiter a" "fd_users (st_data (a_store a')) = fd_users (st_data (a_store a))" by auto
qed

lemma login_ok_frame:
  "authenticate inp r a = (res, a') \<Longrightarrow> login_ok env inp r a' u = login_ok env inp r a u"
  using authenticate_frame [of inp r a res a'] getUser_cong [of "a_store a'" "a_store a"] by (simp add: login_ok_def)

definition handler_may :: "platform \<Rightarrow> inputs \<Rightarrow> request \<Rightarrow> auth \<Rightarrow> handler \<Rightarrow> principal option \<Rightarrow> deed set" where
  "handler_may env inp r a h pr =
     {Keeps} \<union> (if h = HLogin then {Enters u |u. login_ok env inp r a u} else {}) \<union>
     (case pr of None \<Rightarrow> {} | Some q \<Rightarrow> if \<not> writes h then {} else
        (if is_admin q then admin_deeds inp (Some h) else {}) \<union>
        (if pr_kind q = KindUser then {Rehashes (pr_name q), Enters (pr_name q)} else {}))"

lemma admin_handlers_act:
  "handleUsersCreate env inp r a = (rep, a') \<Longrightarrow> acts inp (admin_deeds inp h) a a'"
  "handleUsersPatch env inp n r a = (rep, a') \<Longrightarrow> acts inp (admin_deeds inp h) a a'"
  "handleUsersDelete env inp n a = (rep, a') \<Longrightarrow> acts inp (admin_deeds inp h) a a'"
  "handleTokensCreate inp r a = (rep, a') \<Longrightarrow> acts inp (admin_deeds inp (Some HTokensCreate)) a a'"
  "handleTokensDelete inp n a = (rep, a') \<Longrightarrow> acts inp (admin_deeds inp h) a a'"
  unfolding handleUsersCreate_def handleUsersPatch_def handleUsersDelete_def handleTokensCreate_def handleTokensDelete_def
    admin_deeds_def
  by (auto split: sum.splits prod.splits option.splits intro: acts_mono [OF CreateUser_acts] acts_mono [OF UpdateUser_acts]
    acts_mono [OF DeleteUser_acts] acts_mono [OF CreateToken_acts] acts_mono [OF RevokeToken_acts])

lemma run_handler_acts:
  assumes "run_handler env inp h pr r a = Some (rep, a')" "dispatch r = Some h"
  shows "acts inp (handler_may env inp r a h pr) a a'"
proof (cases "h \<in> {HLogin, HLogout, HMe, HPassword}")
  case True
  then consider "h = HLogin" | "h = HLogout" | "h = HMe" | "h = HPassword" "pr = None" | q where "h = HPassword" "pr = Some q"
    by (cases pr) auto
  then show ?thesis
  proof cases
    case 1
    then show ?thesis
      using assms by (intro acts_mono [OF handleLogin_acts]) (auto simp: run_handler_def handler_may_def)
  next
    case 2
    then show ?thesis
      using assms by (auto simp: run_handler_def handleLogout_def handler_may_def intro: drop_cookie_acts)
  next
    case 3
    then show ?thesis using assms by (auto simp: run_handler_def handleMe_def split: option.splits)
  next
    case 4
    then show ?thesis using assms by (auto simp: run_handler_def handlePassword_def)
  next
    case (5 q)
    then show ?thesis
      using assms by (intro acts_mono [OF handlePassword_acts]) (auto simp: run_handler_def handler_may_def writes_def)
  qed
next
  case False
  show ?thesis
  proof (cases "admin_refusal pr = None \<and> writes h")
    case True
    then obtain q where q: "pr = Some q" "is_admin q"
      by (auto simp: admin_refusal_def is_admin_def split: option.splits if_splits)
    have "acts inp (admin_deeds inp (Some h)) a a'"
      using assms(1) True False admin_handlers_act
      by (cases h) (auto simp: run_handler_def writes_def)
    then show ?thesis using q True by (elim acts_mono) (auto simp: handler_may_def)
  next
    case not: False
    then have "a' = a"
      using assms(1) False by (cases h) (auto simp: run_handler_def writes_def split: option.splits)
    then show ?thesis by simp
  qed
qed

text \<open>A request does no more than its credentials allow.\<close>

lemma serve_acts:
  assumes "serve env inp r a = Some (out, a')"
  shows "acts inp (may env inp r a) a a'"
proof -
  obtain res a1 where mw: "Middleware inp r a = (res, a1)" by fastforce
  have a1: "acts inp (may env inp r a) a a1"
    by (rule acts_mono [OF Middleware_cases(1) [OF mw]]) (simp add: may_def)
  show ?thesis
  proof (cases res)
    case (Refused n)
    then show ?thesis using assms mw a1 by (simp add: serve_def)
  next
    case (Passed pr via)
    note au = Middleware_cases(2) [OF mw Passed]
    show ?thesis
    proof (cases "dispatch r")
      case None
      then show ?thesis using assms mw a1 Passed by (simp add: serve_def)
    next
      case (Some h)
      then obtain rep where rh: "run_handler env inp h pr r a1 = Some (rep, a')"
        using assms mw Passed by (auto simp: serve_def)
      have csrf: "csrfOK r" if "writes h" "pr \<noteq> None" "via"
        using Middleware_cases(3) [OF mw Passed that(2,3) dispatch_writes(1) [OF Some that(1)]]
          written_not_login [OF Some that(1)] mw Passed by blast
      have "handler_may env inp r a1 h pr \<subseteq> may env inp r a"
        using csrf au Some by (auto simp: handler_may_def may_def login_ok_frame [OF au] split: option.splits if_splits)
      with run_handler_acts [OF rh Some] show ?thesis using acts_trans [OF a1] acts_mono by blast
    qed
  qed
qed

section \<open>What the changes keep\<close>

definition auth_ok :: "auth \<Rightarrow> bool" where
  "auth_ok a \<longleftrightarrow> data_ok (st_data (a_store a)) \<and> sess_ok (a_sessions a)"

lemma data_ok_users: "fd_users d = fd_users d' \<Longrightarrow> data_ok d = data_ok d'"
  by (simp add: data_ok_def)

lemma new_session_create:
  assumes "sess_ok (a_sessions a)" "permutes (in_sess_order inp)"
  obtains ss where "create (in_sess_order inp) (in_random inp) (in_now inp) u (a_sessions a) = Some ss" "sess_ok ss"
    "new_session inp u a = Some (a\<lparr>a_sessions := ss\<rparr>)"
  using create_total [OF assms, of "in_random inp" "in_now inp" u] by (auto simp: new_session_def)

lemma store_changes_ok:
  assumes "data_ok (st_data s)"
  shows "data_ok (st_data (snd (update ok (add_user u) s)))"
    "data_ok (st_data (snd (update ok (remove_user n) s)))"
    "data_ok (st_data (snd (update ok (set_own_password n hash) s)))"
    "data_ok (st_data (snd (update ok (add_token t) s)))"
    "data_ok (st_data (snd (update ok (revoke_token tid) s)))"
    "data_ok (st_data (snd (update ok (\<lambda>d. map_sum id fst (patch_user n p hash d)) s)))"
proof -
  have patch: "data_ok d'" if "data_ok d" "map_sum id fst (patch_user n p hash d) = Inr d'" for d d'
    using that patch_user_ok [of d n p hash] by (cases "patch_user n p hash d") auto
  note ok = update_ok [OF assms]
  show "data_ok (st_data (snd (update ok (add_user u) s)))" by (rule ok) (rule add_user_ok)
  show "data_ok (st_data (snd (update ok (remove_user n) s)))" by (rule ok) (rule remove_user_ok)
  show "data_ok (st_data (snd (update ok (set_own_password n hash) s)))" by (rule ok) (rule set_own_password_ok)
  show "data_ok (st_data (snd (update ok (add_token t) s)))" by (rule ok) (rule token_changes_ok(1))
  show "data_ok (st_data (snd (update ok (revoke_token tid) s)))" by (rule ok) (rule token_changes_ok(2))
  show "data_ok (st_data (snd (update ok (\<lambda>d. map_sum id fst (patch_user n p hash d)) s)))" by (rule ok) (rule patch)
qed

lemma act_auth_ok:
  assumes "act inp d a b" "auth_ok a" "permutes (in_sess_order inp)"
  shows "auth_ok b"
  using assms(1)
proof cases
  case (act_enter u)
  have "sess_ok (a_sessions a)" using assms(2) by (simp add: auth_ok_def)
  from new_session_create [OF this assms(3)] obtain ss where "sess_ok ss" "b = a\<lparr>a_sessions := ss\<rparr>"
    using act_enter by (metis option.inject)
  with assms(2) show ?thesis by (simp add: auth_ok_def)
next
  case (act_touch ok tid)
  then show ?thesis using assms(2) data_ok_users [OF touchToken_users] by (simp add: auth_ok_def)
qed (use assms(2) in \<open>simp_all add: auth_ok_def sess_ok_get sess.drop_one_invar sess.drop_all_invar store_changes_ok\<close>)

lemma acts_auth_ok: "acts inp D a b \<Longrightarrow> auth_ok a \<Longrightarrow> permutes (in_sess_order inp) \<Longrightarrow> auth_ok b"
  by (induction rule: acts_induct) (auto intro: act_auth_ok)

text \<open>Other accounts are not touched by a password change, nor any by the sessions and tokens.\<close>

lemma getUser_find: "getUser s n = find (\<lambda>u. u_name u = n) (fd_users (st_data s))"
proof -
  have "(case IndexFunc xs P of Some i \<Rightarrow> Some (xs ! i) | None \<Rightarrow> None) = find P xs" for xs :: "user list" and P
    by (induction xs) (auto split: option.splits)
  then show ?thesis by (simp add: getUser_def findUser_def)
qed

lemma find_update_other:
  "i < length us \<Longrightarrow> \<not> P (us ! i) \<Longrightarrow> \<not> P u \<Longrightarrow> find P (us[i := u]) = find P us"
proof (induction us arbitrary: i)
  case (Cons v us)
  then show ?case by (cases i) auto
qed simp

lemma update_users:
  assumes "\<And>d d'. f d = Inr d' \<Longrightarrow> find P (fd_users d') = find P (fd_users d)"
  shows "find P (fd_users (st_data (snd (update ok f s)))) = find P (fd_users (st_data s))"
proof (cases rule: update_cases [of f s ok])
  case (changed d)
  with assms [OF changed(1)] show ?thesis by (simp add: clone_def)
qed simp

lemma set_own_password_other:
  "n \<noteq> m \<Longrightarrow> set_own_password m hash d = Inr d' \<Longrightarrow>
   find (\<lambda>u. u_name u = n) (fd_users d') = find (\<lambda>u. u_name u = n) (fd_users d)"
  by (auto simp: set_own_password_def split: option.splits dest!: findUser_Some intro!: find_update_other)

lemma act_getUser:
  assumes "act inp d a b" "d \<noteq> Administers" "d \<noteq> Rehashes n"
  shows "getUser (a_store b) n = getUser (a_store a) n"
  using assms(1)
proof cases
  case (act_enter u)
  then show ?thesis by (auto simp: new_session_def)
next
  case (act_mint t)
  then show ?thesis by (simp add: getUser_find) (rule update_users, auto simp: add_token_def)
next
  case (act_rehash m hash)
  with assms(3) show ?thesis
    by (simp add: getUser_find) (rule update_users, rule set_own_password_other, auto)
qed (use assms(2) in \<open>auto simp: getUser_find\<close>)

lemma acts_getUser:
  "acts inp D a b \<Longrightarrow> Administers \<notin> D \<Longrightarrow> Rehashes n \<notin> D \<Longrightarrow> getUser (a_store b) n = getUser (a_store a) n"
  by (induction rule: acts_induct) (auto simp: act_getUser, metis act_getUser)

text \<open>Only entering gives an account a session.\<close>

lemma act_owner:
  assumes "act inp d a b" "auth_ok a" "permutes (in_sess_order inp)" "d \<noteq> Enters u"
    and "sess_owner (a_sessions b) sid = Some u"
  shows "sess_owner (a_sessions a) sid = Some u"
proof -
  have ok: "sess_ok (a_sessions a)" using assms(2) by (simp add: auth_ok_def)
  show ?thesis
    using assms(1)
  proof cases
    case (act_enter v)
    then obtain ss where "create (in_sess_order inp) (in_random inp) (in_now inp) v (a_sessions a) = Some ss"
      "b = a\<lparr>a_sessions := ss\<rparr>" by (auto simp: new_session_def)
    with sess.mk_owner [OF ok assms(3)] act_enter assms(4,5) show ?thesis by fastforce
  next
    case (act_get c)
    with sess.look_owner [OF ok] assms(5) show ?thesis by fastforce
  next
    case (act_drop c)
    with sess.drop_one_owner [OF ok] assms(5) show ?thesis by fastforce
  next
    case (act_clear v)
    with sess.drop_all_owner [OF ok] assms(5) show ?thesis by fastforce
  qed (use assms(5) in auto)
qed

definition no_session :: "string \<Rightarrow> auth \<Rightarrow> bool" where
  "no_session u a \<longleftrightarrow> (\<forall>sid. sess_owner (a_sessions a) sid \<noteq> Some u)"

lemma acts_no_session:
  assumes "acts inp D a b" "auth_ok a" "permutes (in_sess_order inp)" "Enters u \<notin> D" "no_session u a"
  shows "no_session u b"
proof -
  from assms(1) have "auth_ok b \<and> no_session u b"
  proof (induction rule: acts_induct)
    case refl
    then show ?case using assms(2,5) by simp
  next
    case (step b c d)
    have "d \<noteq> Enters u" using step(1) assms(4) by auto
    then show ?case
      using act_auth_ok [OF step(2) _ assms(3)] act_owner [OF step(2) _ assms(3)] step(3) by (auto simp: no_session_def)
  qed
  then show ?thesis ..
qed

text \<open>A principal of kind \<open>KindUser\<close> has come by the cookie of a session of that account.\<close>

lemma user_principal_session:
  assumes "authenticate inp r a = ((Some q, via), a')" "pr_kind q = KindUser" "auth_ok a"
  shows "\<not> no_session (pr_name q) a"
proof -
  have "pr_kind p \<noteq> KindUser" if "tokenPrincipal inp tok a = (Some p, b)" for tok p b
    using that by (auto simp: tokenPrincipal_def split: if_splits option.splits)
  with assms(1,2) have none: "r_authorization r = []"
    by (auto simp: authenticate_def Let_def split: prod.splits if_splits)
  obtain c where c: "r_cookie r = Some c" "c \<noteq> []"
    using assms(1) none by (auto simp: authenticate_def split: option.splits if_splits)
  obtain nm ss where g: "get c (in_now inp) (a_sessions a) = (nm, ss)" by fastforce
  obtain u where u: "nm = Some u" "\<exists>x. getUser (a_store a) u = Some x \<and> pr_name q = u_name x"
    using assms(1) none c g by (auto simp: authenticate_def split: option.splits if_splits)
  then have "pr_name q = u" using getUser_SomeD by auto
  moreover have "sess_owner (a_sessions a) c = Some u"
    using sess.look_result [of "a_sessions a" c "in_now inp" u] assms(3) g u(1) by (simp add: auth_ok_def)
  ultimately show ?thesis by (auto simp: no_session_def)
qed

section \<open>Tokens\<close>

text \<open>Every token with this hash is revoked.\<close>

definition dead :: "string \<Rightarrow> fileData \<Rightarrow> bool" where
  "dead h d \<longleftrightarrow> (\<forall>t \<in> set (fd_tokens d). t_hash t = h \<longrightarrow> t_revoked t)"

lemma dead_cong: "fd_tokens d = fd_tokens d' \<Longrightarrow> dead h d = dead h d'"
  by (simp add: dead_def)

lemma dead_replace:
  assumes "dead h d" "i < length (fd_tokens d)" "t_hash t = t_hash (fd_tokens d ! i)"
    "t_revoked (fd_tokens d ! i) \<Longrightarrow> t_revoked t"
  shows "dead h (d\<lparr>fd_tokens := (fd_tokens d)[i := t]\<rparr>)"
  unfolding dead_def
proof (intro ballI impI)
  fix x assume x: "x \<in> set (fd_tokens (d\<lparr>fd_tokens := (fd_tokens d)[i := t]\<rparr>))" "t_hash x = h"
  then have "x = t \<or> x \<in> set (fd_tokens d)" using set_update_subset_insert by fastforce
  with x(2) assms show "t_revoked x" using nth_mem [OF assms(2)] by (auto simp: dead_def)
qed

lemma touchToken_dead: "dead h (st_data s) \<Longrightarrow> dead h (st_data (snd (touchToken ok tid now s)))"
proof (cases "IndexFunc (fd_tokens (st_data s)) (\<lambda>t. t_id t = tid)")
  case (Some i)
  assume dead: "dead h (st_data s)"
  have "dead h ((st_data s)\<lparr>fd_tokens := (fd_tokens (st_data s))[i := (fd_tokens (st_data s) ! i)\<lparr>t_lastUsed := Some now\<rparr>]\<rparr>)"
    using IndexFunc_Some [OF Some] by (intro dead_replace [OF dead]) simp_all
  then show ?thesis by (simp add: touchToken_def Let_def Some save_def split: option.splits)
qed (simp add: touchToken_def)

lemma update_dead:
  assumes "dead h (st_data s)" "\<And>d d'. dead h d \<Longrightarrow> f d = Inr d' \<Longrightarrow> dead h d'"
  shows "dead h (st_data (snd (update ok f s)))"
proof (cases rule: update_cases [of f s ok])
  case (changed d)
  have "dead h (clone s)" using assms(1) by (simp add: clone_def dead_def)
  with assms(2) changed show ?thesis by simp
next
  case failed
  with assms(1) show ?thesis by simp
qed

lemma revoke_token_dead: "dead h d \<Longrightarrow> revoke_token tid d = Inr d' \<Longrightarrow> dead h d'"
  by (auto simp: revoke_token_def split: option.splits dest: IndexFunc_Some intro: dead_replace)

lemma user_changes_tokens:
  "add_user u d = Inr d' \<Longrightarrow> fd_tokens d' = fd_tokens d"
  "remove_user n d = Inr d' \<Longrightarrow> fd_tokens d' = fd_tokens d"
  "set_own_password n hash d = Inr d' \<Longrightarrow> fd_tokens d' = fd_tokens d"
  "map_sum id fst (patch_user n p hash d) = Inr d' \<Longrightarrow> fd_tokens d' = fd_tokens d"
  by (auto simp: add_user_def remove_user_def set_own_password_def patch_user_def Let_def split: if_splits option.splits)

lemma act_dead:
  assumes "act inp d a b" "d \<noteq> Mints h" "dead h (st_data (a_store a))"
  shows "dead h (st_data (a_store b)) \<and> legacyMatches b tok = legacyMatches a tok"
proof -
  note up = update_dead [OF assms(3)]
  have keep: "dead h (st_data (snd (update ok f (a_store a))))"
    if "\<And>d d'. f d = Inr d' \<Longrightarrow> fd_tokens d' = fd_tokens d" for ok f
    using that dead_cong by (intro up) blast
  have revoke: "dead h (st_data (snd (update ok (revoke_token tid) (a_store a))))" for ok tid
    by (rule up) (rule revoke_token_dead)
  show ?thesis
    using assms(1)
  proof cases
    case (act_enter u)
    then show ?thesis using assms(3) by (auto simp: new_session_def legacyMatches_def)
  next
    case (act_mint t)
    have "dead h (st_data (snd (update ok (add_token t) (a_store a))))" for ok
      using act_mint assms(2) by (intro up) (auto simp: add_token_def dead_def)
    with act_mint show ?thesis by (simp add: legacyMatches_def)
  qed (use assms(3) in \<open>simp_all add: legacyMatches_def touchToken_dead keep [OF user_changes_tokens(1)]
    keep [OF user_changes_tokens(2)] keep [OF user_changes_tokens(3)] keep [OF user_changes_tokens(4)]
    revoke\<close>)
qed

lemma tokenByHash_SomeD:
  assumes "tokenByHash s dig = Some t"
  shows "t \<in> set (fd_tokens (st_data s)) \<and> t_hash t = EncodeToString dig"
proof -
  have "foldl (\<lambda>found t. if t_hash t = w then Some t else found) None ts = Some t \<Longrightarrow> t \<in> set ts \<and> t_hash t = w" for w ts
    by (induction ts rule: rev_induct) (auto split: if_splits)
  with assms show ?thesis by (simp add: tokenByHash_def Let_def)
qed

lemma dead_token_refused:
  assumes "dead (EncodeToString (Sum256 tok)) (st_data (a_store a))" "\<not> legacyMatches a tok"
  shows "fst (tokenPrincipal inp tok a) = None"
  using assms tokenByHash_SomeD [of "a_store a" "Sum256 tok"]
  by (auto simp: tokenPrincipal_def dead_def split: option.splits)

text \<open>Revoking a token kills its hash when identifiers and hashes are not shared.\<close>

lemma RevokeToken_dead:
  assumes "RevokeToken inp (t_id t) a = (None, a')" "t \<in> set (fd_tokens (st_data (a_store a)))"
    and "distinct (map t_id (fd_tokens (st_data (a_store a))))" "distinct (map t_hash (fd_tokens (st_data (a_store a))))"
  shows "dead (t_hash t) (st_data (a_store a'))" "legacyMatches a' tok = legacyMatches a tok"
proof -
  let ?ts = "fd_tokens (st_data (a_store a))"
  obtain d where d: "revoke_token (t_id t) (clone (a_store a)) = Inr d" "st_data (a_store a') = d"
    and leg: "legacyMatches a' tok = legacyMatches a tok"
    using assms(1) by (cases rule: update_cases [of "revoke_token (t_id t)" "a_store a" "in_saved inp"])
      (auto simp: RevokeToken_def legacyMatches_def)
  obtain i where i1: "IndexFunc ?ts (\<lambda>x. t_id x = t_id t) = Some i"
    using d(1) by (cases "IndexFunc ?ts (\<lambda>x. t_id x = t_id t)") (auto simp: revoke_token_def clone_def)
  moreover have "fd_tokens d = ?ts[i := (?ts ! i)\<lparr>t_revoked := True\<rparr>]"
    using d(1) i1 by (auto simp: revoke_token_def clone_def)
  ultimately have i: "IndexFunc ?ts (\<lambda>x. t_id x = t_id t) = Some i" "fd_tokens d = ?ts[i := (?ts ! i)\<lparr>t_revoked := True\<rparr>]"
    by simp_all
  have il: "i < length ?ts" "t_id (?ts ! i) = t_id t" using IndexFunc_Some [OF i(1)] by auto
  then have ti: "?ts ! i = t" using assms(2,3) by (metis inj_onD distinct_map nth_mem)
  have "t_revoked x" if x: "x \<in> set (fd_tokens d)" "t_hash x = t_hash t" for x
  proof -
    obtain j where j: "j < length ?ts" "x = (?ts[i := t\<lparr>t_revoked := True\<rparr>]) ! j"
      using x(1) i(2) ti by (auto simp: in_set_conv_nth)
    have "j = i" if "t_hash (?ts ! j) = t_hash t"
      using that ti il(1) j(1) assms(4) by (metis (no_types, lifting) distinct_conv_nth length_map nth_map)
    with j x(2) show ?thesis by (cases "j = i") auto
  qed
  then show "dead (t_hash t) (st_data (a_store a'))" using d(2) by (simp add: dead_def)
  show "legacyMatches a' tok = legacyMatches a tok" by (rule leg)
qed

section \<open>Runs of requests\<close>

fun serve_all :: "platform \<Rightarrow> (inputs \<times> request) list \<Rightarrow> auth \<Rightarrow> (outcome list \<times> auth) option" where
  "serve_all env [] a = Some ([], a)"
| "serve_all env ((inp, r) # reqs) a =
     (case serve env inp r a of
        None \<Rightarrow> None
      | Some (out, a1) \<Rightarrow> map_option (\<lambda>(outs, a2). (out # outs, a2)) (serve_all env reqs a1))"

definition fair_run :: "(inputs \<times> request) list \<Rightarrow> bool" where
  "fair_run reqs \<longleftrightarrow> list_all (\<lambda>(inp, r). permutes (in_sess_order inp)) reqs"

lemma serve_all_Cons:
  assumes "serve_all env ((inp, r) # reqs) a = Some (outs, a')"
  obtains out a1 outs' where "serve env inp r a = Some (out, a1)" "serve_all env reqs a1 = Some (outs', a')" "outs = out # outs'"
  using assms by (auto split: option.splits)

lemma handleLogin_total:
  assumes "auth_ok a" "permutes (in_sess_order inp)"
  shows "handleLogin env inp r a \<noteq> None"
proof -
  have "new_session inp u (drop_cookie r (a\<lparr>a_limiter := l\<rparr>)) \<noteq> None" for u l
  proof -
    have "sess_ok (a_sessions (drop_cookie r (a\<lparr>a_limiter := l\<rparr>)))"
      using assms(1) by (auto simp: auth_ok_def drop_cookie_def sess.drop_one_invar split: option.splits)
    from new_session_create [OF this assms(2), of u] show ?thesis by auto
  qed
  then show ?thesis
    by (auto simp: handleLogin_def Let_def split: sum.splits prod.splits)
qed

lemma handlePassword_total:
  assumes "auth_ok a" "permutes (in_sess_order inp)"
  shows "handlePassword env inp pr r a \<noteq> None"
proof -
  have "new_session inp u (a2\<lparr>a_limiter := l', a_sessions := deleteUser u [] (a_sessions a2)\<rparr>) \<noteq> None"
    if "changeOwnPassword env inp n cur nxt (a\<lparr>a_limiter := l\<rparr>) = (err, a2)" for u l l' n cur nxt err a2
  proof -
    have "auth_ok a2"
      using acts_auth_ok [OF changeOwnPassword_acts [OF that] _ assms(2)] assms(1) by (simp add: auth_ok_def)
    then have "sess_ok (a_sessions (a2\<lparr>a_limiter := l', a_sessions := deleteUser u [] (a_sessions a2)\<rparr>))"
      by (simp add: auth_ok_def sess.drop_all_invar)
    from new_session_create [OF this assms(2), of u] show ?thesis by auto
  qed
  then show ?thesis
    by (auto simp: handlePassword_def Let_def split: sum.splits prod.splits option.splits auth_error.splits)
qed

lemma serve_total:
  assumes "auth_ok a" "permutes (in_sess_order inp)"
  shows "\<exists>out a'. serve env inp r a = Some (out, a') \<and> auth_ok a'"
proof -
  obtain res a1 where mw: "Middleware inp r a = (res, a1)" by fastforce
  have a1: "auth_ok a1" using acts_auth_ok [OF Middleware_cases(1) [OF mw] assms] .
  have "run_handler env inp h pr r a1 \<noteq> None" for h pr
    using handleLogin_total [OF a1 assms(2)] handlePassword_total [OF a1 assms(2)]
    by (cases h) (auto simp: run_handler_def split: option.splits)
  then have "serve env inp r a \<noteq> None"
    by (simp add: serve_def mw del: not_None_eq split: mw_result.splits option.splits)
  then obtain out a' where "serve env inp r a = Some (out, a')" by fastforce
  with acts_auth_ok [OF serve_acts assms] show ?thesis by blast
qed

lemma serve_all_total:
  "auth_ok a \<Longrightarrow> fair_run reqs \<Longrightarrow>
   \<exists>outs a'. serve_all env reqs a = Some (outs, a') \<and> length outs = length reqs \<and> auth_ok a'"
proof (induction reqs arbitrary: a)
  case (Cons x reqs)
  obtain inp r where x: "x = (inp, r)" by fastforce
  then obtain out a1 where s: "serve env inp r a = Some (out, a1)" "auth_ok a1"
    using serve_total [of a inp env r] Cons.prems by (auto simp: fair_run_def)
  moreover obtain outs a' where "serve_all env reqs a1 = Some (outs, a')" "length outs = length reqs" "auth_ok a'"
    using Cons.IH [OF s(2)] Cons.prems(2) by (auto simp: fair_run_def)
  ultimately show ?case using x by simp
qed simp

section \<open>Guessing passwords\<close>

text \<open>A login request for the account \<open>name\<close> from the address \<open>ip\<close>.\<close>

definition attempt :: "platform \<Rightarrow> string \<Rightarrow> string \<Rightarrow> inputs \<times> request \<Rightarrow> bool" where
  "attempt env name ip x \<longleftrightarrow>
     (case x of (inp, r) \<Rightarrow> r_method r = ''POST'' \<and> r_escaped r = ''/api/v1/auth/login'' \<and> r_json r \<and> r_ip r = ip \<and>
        (\<exists>user pw. r_login r = Inr (user, pw) \<and> ToLower (uni_lower env) (TrimSpace user) = name))"

text \<open>The password of the request is not that of an enabled account \<open>name\<close>.\<close>

definition wrong :: "platform \<Rightarrow> string \<Rightarrow> user option \<Rightarrow> inputs \<times> request \<Rightarrow> bool" where
  "wrong env name acct x \<longleftrightarrow>
     (case x of (inp, r) \<Rightarrow> \<forall>user pw u. r_login r = Inr (user, pw) \<longrightarrow> acct = Some u \<longrightarrow>
        u_disabled u \<or> \<not> verifyPassword env (u_hash u) pw)"

definition guess_events :: "string \<Rightarrow> string \<Rightarrow> (inputs \<times> request) list \<Rightarrow> lim_event list" where
  "guess_events name ip reqs =
     concat (map (\<lambda>(inp, r). [Asked name ip (in_now inp), Failed (in_lim_order inp) name ip (in_now inp)]) reqs)"

abbreviation times :: "(inputs \<times> request) list \<Rightarrow> int list" where
  "times reqs \<equiv> map (in_now \<circ> fst) reqs"

lemma attempt_served:
  assumes "attempt env name ip (inp, r)"
  shows "serve env inp r a =
    map_option (\<lambda>(rep, a2). (Replied rep, a2)) (handleLogin env inp r (snd (authenticate inp r a)))"
proof -
  have r: "r_method r = ''POST''" "r_escaped r = ''/api/v1/auth/login''" using assms by (auto simp: attempt_def)
  have p: "cleanPath (url_path ''/api/v1/auth/login'') = ''/api/v1/auth/login''"
    "\<not> Contains (map lower_char ''/api/v1/auth/login'') ''%2f''"
    "mux_segs ''/api/v1/auth/login'' = Some [''api'', ''v1'', ''auth'', ''login'']" by code_simp+
  have c: "classify pol m ''POST'' ''/api/v1/auth/login'' = (accessPublic, [])" for pol m
    by (simp add: classify_def is_api_def HasPrefix_def Let_def)
  obtain pr via a1 where au: "authenticate inp r a = ((pr, via), a1)" by (metis prod.exhaust)
  have "Middleware inp r a = (Passed pr via, a1)"
    unfolding Middleware_def Let_def r p(1) c prod.case au using p(2) by simp
  moreover have "dispatch r = Some HLogin" unfolding dispatch_def r p(3) by simp
  ultimately show ?thesis using au by (simp add: serve_def run_handler_def)
qed

lemma attempt_refused:
  assumes "attempt env name ip (inp, r)" "wrong env name (getUser (a_store a) name) (inp, r)"
    and "\<not> fst (snd (blocked name ip (in_now inp) (a_limiter a)))"
  shows "\<exists>a'. serve env inp r a = Some (Replied (status 401), a') \<and>
           a_limiter a' = foldl lim_step (a_limiter a) (guess_events name ip [(inp, r)]) \<and>
           getUser (a_store a') name = getUser (a_store a) name"
proof -
  obtain user pw where r: "r_json r" "r_ip r = ip" "r_login r = Inr (user, pw)" "ToLower (uni_lower env) (TrimSpace user) = name"
    using assms(1) by (auto simp: attempt_def)
  obtain res a1 where au: "authenticate inp r a = (res, a1)" by fastforce
  have a1: "a_limiter a1 = a_limiter a" "getUser (a_store a1) name = getUser (a_store a) name"
    using authenticate_frame [OF au] getUser_cong by blast+
  obtain w l where bl: "blocked name ip (in_now inp) (a_limiter a) = (w, False, l)"
    using assms(3) by (cases "blocked name ip (in_now inp) (a_limiter a)") auto
  have bad: "\<not> verifyPassword env (case getUser (a_store a) name of Some x \<Rightarrow> u_hash x | None \<Rightarrow> []) pw \<or>
      getUser (a_store a) name = None \<or> u_disabled (the (getUser (a_store a) name))"
    using assms(2) r(3) by (cases "getUser (a_store a) name") (auto simp: wrong_def)
  have "handleLogin env inp r a1 =
      Some (status 401, a1\<lparr>a_limiter := fail (in_lim_order inp) name ip (in_now inp) l\<rparr>)"
    using r bl bad a1 by (auto simp: handleLogin_def Let_def)
  then show ?thesis
    using attempt_served [OF assms(1), of a] au a1 bl by (simp add: guess_events_def)
qed

lemma attempt_locked:
  assumes "attempt env name ip (inp, r)" "fst (snd (blocked name ip (in_now inp) (a_limiter a)))"
  shows "\<exists>rep a'. serve env inp r a = Some (Replied rep, a') \<and> rep_status rep = 429 \<and>
           a' = (snd (authenticate inp r a))\<lparr>a_limiter := snd (snd (blocked name ip (in_now inp) (a_limiter a)))\<rparr>"
proof -
  obtain user pw where r: "r_json r" "r_ip r = ip" "r_login r = Inr (user, pw)" "ToLower (uni_lower env) (TrimSpace user) = name"
    using assms(1) by (auto simp: attempt_def)
  obtain res a1 where au: "authenticate inp r a = (res, a1)" by fastforce
  obtain w l where bl: "blocked name ip (in_now inp) (a_limiter a) = (w, True, l)"
    using assms(2) by (cases "blocked name ip (in_now inp) (a_limiter a)") auto
  have "handleLogin env inp r a1 = Some ((status 429)\<lparr>rep_retry := Some (login_retry w)\<rparr>, a1\<lparr>a_limiter := l\<rparr>)"
    using r bl authenticate_frame(1) [OF au] by (simp add: handleLogin_def Let_def)
  then show ?thesis
    using attempt_served [OF assms(1), of a] au bl by (simp add: status_def)
qed

text \<open>The history of a run of guesses.\<close>

lemma guess_history:
  "user_fails name ip (guess_events name ip reqs) = times reqs"
  "ip_fails ip (guess_events name ip reqs) = times reqs"
  "foldl event_time T (guess_events name ip reqs) = last (T # times reqs)"
proof -
  have "foldl (user_step name ip) H (guess_events name ip reqs) = H @ times reqs" for H
    by (induction reqs arbitrary: H) (auto simp: guess_events_def)
  then show "user_fails name ip (guess_events name ip reqs) = times reqs" by (simp add: user_fails_def)
  have "foldl (ip_step ip) H (guess_events name ip reqs) = H @ times reqs" for H
    by (induction reqs arbitrary: H) (auto simp: guess_events_def)
  then show "ip_fails ip (guess_events name ip reqs) = times reqs" by (simp add: ip_fails_def)
  show "foldl event_time T (guess_events name ip reqs) = last (T # times reqs)"
    by (induction reqs arbitrary: T) (auto simp: guess_events_def)
qed

lemma guess_run_ok:
  assumes "sorted (T # times reqs)" "CHR ''|'' \<notin> set ip" "length reqs \<le> 5"
  shows "run_ok T newLimiter (guess_events name ip reqs)"
proof (rule run_ok_short)
  show "clock_ok T (guess_events name ip reqs)"
    using assms(1) assms(2) by (induction reqs arbitrary: T) (auto simp: guess_events_def)
  have "length (guess_events name ip reqs) = 2 * length reqs"
    by (induction reqs) (auto simp: guess_events_def)
  then show "length (lim_fails newLimiter) + 2 * length (guess_events name ip reqs) < maxLimiterKeys"
    using assms(3) by (simp add: newLimiter_def maxLimiterKeys_def)
qed

lemma guess_blocked:
  assumes "sorted (T # times reqs @ [now])" "CHR ''|'' \<notin> set ip" "length reqs \<le> 5"
  shows "fst (snd (blocked name ip now (foldl lim_step newLimiter (guess_events name ip reqs)))) \<longleftrightarrow>
           5 \<le> length (in_window now (times reqs))"
proof -
  have s: "sorted (T # times reqs)" using assms(1) by (auto simp: sorted_append)
  have "last (T # times reqs) \<in> set (T # times reqs)" by (rule last_in_set) simp
  then have le: "foldl event_time T (guess_events name ip reqs) \<le> now"
    using assms(1) by (auto simp: guess_history sorted_append)
  have "length (in_window now (times reqs)) \<le> 5" using assms(3) by (intro order_trans [OF length_filter_le]) simp
  then have "\<not> maxFailsIP \<le> length (in_window now (times reqs))" unfolding maxFailsIP_def by linarith
  then show ?thesis
    unfolding blocked_iff_history [OF guess_run_ok [OF s assms(2,3)] assms(2) le] guess_history
    by (simp add: maxFailsUserIP_def)
qed

lemma guesses_refused:
  assumes "list_all (attempt env name ip) reqs" "list_all (wrong env name (getUser (a_store a) name)) reqs"
    and "a_limiter a = foldl lim_step newLimiter (guess_events name ip earlier)" "length earlier + length reqs \<le> 5"
    and "sorted (T # times (earlier @ reqs))" "CHR ''|'' \<notin> set ip"
  shows "\<exists>a'. serve_all env reqs a = Some (replicate (length reqs) (Replied (status 401)), a') \<and>
           a_limiter a' = foldl lim_step newLimiter (guess_events name ip (earlier @ reqs))"
  using assms
proof (induction reqs arbitrary: a earlier)
  case (Cons x reqs)
  obtain inp r where x: "x = (inp, r)" by fastforce
  have "sorted (T # times earlier @ [in_now inp])" "length earlier \<le> 5"
    using Cons.prems(4,5) x by (auto simp: sorted_append comp_def)
  moreover have "length (in_window (in_now inp) (times earlier)) < 5"
    by (rule le_less_trans [OF length_filter_le]) (use Cons.prems(4) in simp)
  ultimately have "\<not> fst (snd (blocked name ip (in_now inp) (a_limiter a)))"
    using guess_blocked [of T earlier "in_now inp" ip name] Cons.prems(3,6) by simp
  with attempt_refused [of env name ip inp r a] Cons.prems(1,2) x obtain a1 where
    a1: "serve env inp r a = Some (Replied (status 401), a1)"
      "a_limiter a1 = foldl lim_step (a_limiter a) (guess_events name ip [(inp, r)])"
      "getUser (a_store a1) name = getUser (a_store a) name" by auto
  have "a_limiter a1 = foldl lim_step newLimiter (guess_events name ip (earlier @ [x]))"
    using a1(2) Cons.prems(3) x by (simp add: guess_events_def)
  with Cons.IH [of a1 "earlier @ [x]"] Cons.prems a1(3) obtain a' where
    "serve_all env reqs a1 = Some (replicate (length reqs) (Replied (status 401)), a')"
    "a_limiter a' = foldl lim_step newLimiter (guess_events name ip (earlier @ x # reqs))" by auto
  with a1(1) x show ?case by simp
qed simp

section \<open>Properties\<close>

text \<open>
  C4. The accounts change only with authority. When a served request changes what the store holds for the
  account \<open>n\<close> (creating, changing or removing it), the request was authenticated, carried the CSRF
  header if it came with a cookie, and its principal is an admin without a pending password change or
  the account \<open>n\<close> itself, changing its password. This holds for every path, method and body, also where
  the policy and the mux read the path differently.
\<close>

theorem accounts_change_with_authority:
  assumes "serve env inp r a = Some (out, a')" "getUser (a_store a') n \<noteq> getUser (a_store a) n"
  shows "\<exists>q via. fst (authenticate inp r a) = (Some q, via) \<and> (via \<longrightarrow> csrfOK r) \<and>
           (AtLeast (pr_role q) RoleAdmin \<and> \<not> pr_must q \<or> pr_kind q = KindUser \<and> pr_name q = n)"
proof -
  have "Administers \<in> may env inp r a \<or> Rehashes n \<in> may env inp r a"
    using acts_getUser [OF serve_acts [OF assms(1)], of n] assms(2) by blast
  then show ?thesis
    by (auto simp: may_def is_admin_def admin_deeds_def split: prod.splits option.splits if_splits)
qed

definition demo_env :: platform where
  "demo_env = \<lparr>uni_lower = (\<lambda>s. s), bcrypt_generate = (\<lambda>pw salt. Some (salt @ pw)),
               bcrypt_compare = (\<lambda>h pw. h = ''salt'' @ pw)\<rparr>"

definition demo_inputs :: "int \<Rightarrow> inputs" where
  "demo_inputs t = \<lparr>in_now = t, in_salt = ''salt'', in_random = ''0123456789abcdef'', in_tokenid = ''1'',
     in_touch_saved = True, in_saved = True, in_audit = True, in_sess_order = rev, in_lim_order = rev\<rparr>"

definition demo_request :: "string \<Rightarrow> string \<Rightarrow> string \<Rightarrow> request" where
  "demo_request meth path cred = \<lparr>r_method = meth, r_escaped = path, r_limit = [], r_authorization = cred, r_cookie = None,
     r_xrw = [], r_ip = ''10.0.0.7'', r_json = True, r_login = Inr (''bob'', ''guess''), r_password = Inl BodyMissing,
     r_newuser = Inl BodyMissing, r_patch = Inl BodyMissing, r_newtoken = Inl BodyMissing\<rparr>"

definition demo_user :: "string \<Rightarrow> role \<Rightarrow> user" where
  "demo_user n rl = \<lparr>u_name = n, u_role = rl, u_hash = ''saltcorrect'', u_must = False, u_created = 0, u_disabled = False\<rparr>"

definition demo_token :: token where
  "demo_token = \<lparr>t_id = ''tk_9'', t_name = ''ci'', t_role = RoleViewer, t_hash = EncodeToString (Sum256 ''ek_key''),
     t_created = 0, t_lastUsed = None, t_revoked = False\<rparr>"

definition demo_auth :: auth where
  "demo_auth = \<lparr>a_store = \<lparr>st_data = \<lparr>fd_version = 1, fd_users = [demo_user ''admin'' RoleAdmin, demo_user ''bob'' RoleViewer],
       fd_tokens = [demo_token]\<rparr>, st_dirty = False, st_disk = None\<rparr>,
     a_sessions = newSessionStore 100 1000, a_limiter = newLimiter,
     a_policy = \<lparr>pol_operator = [], pol_adminReads = []\<rparr>, a_legacy = Sum256 ''secret'', a_hasLegacy = True, a_metrics = False\<rparr>"

abbreviation demo_delete :: request where
  "demo_delete \<equiv> demo_request ''DELETE'' ''/api/v1/users/bob'' ''Bearer secret''"

lemma demo_facts:
  "Cut ''Bearer secret'' CHR '' '' = (''Bearer'', ''secret'', True)" "TrimSpace ''secret'' = ''secret''"
  "map lower_char ''Bearer'' = ''bearer''" "cleanPath (url_path ''/api/v1/users/bob'') = ''/api/v1/users/bob''"
  "\<not> Contains (map lower_char ''/api/v1/users/bob'') ''%2f''" "is_api ''/api/v1/users/bob''"
  "classify \<lparr>pol_operator = [], pol_adminReads = []\<rparr> False ''DELETE'' ''/api/v1/users/bob'' = (accessRole, RoleAdmin)"
  "AtLeast RoleAdmin RoleAdmin" "dispatch demo_delete = Some (HUsersDelete ''bob'')"
  "ToLower (\<lambda>s. s) (TrimSpace ''bob'') = ''bob''"
  by code_simp+

lemma demo_delete_passed:
  "Middleware (demo_inputs t) demo_delete demo_auth =
     (Passed (Some \<lparr>pr_name = ''legacy-token'', pr_role = RoleAdmin, pr_kind = KindLegacy, pr_tokenID = [], pr_must = False\<rparr>) False,
      demo_auth)"
proof -
  have "legacyMatches demo_auth ''secret''" by (simp add: legacyMatches_def demo_auth_def)
  then have "authenticate (demo_inputs t) demo_delete demo_auth =
      ((Some \<lparr>pr_name = ''legacy-token'', pr_role = RoleAdmin, pr_kind = KindLegacy, pr_tokenID = [], pr_must = False\<rparr>, False),
       demo_auth)"
    by (simp add: authenticate_def demo_request_def demo_facts tokenPrincipal_def del: list.map)
  moreover have "a_policy demo_auth = \<lparr>pol_operator = [], pol_adminReads = []\<rparr>" "a_metrics demo_auth = False"
    "r_method demo_delete = ''DELETE''" "r_escaped demo_delete = ''/api/v1/users/bob''"
    by (simp_all add: demo_auth_def demo_request_def)
  ultimately show ?thesis
    unfolding Middleware_def Let_def by (simp add: demo_facts del: list.map Contains.simps)
qed

lemma demo_delete_served:
  "\<exists>a'. serve demo_env (demo_inputs t) demo_delete demo_auth = Some (Replied (status 204), a') \<and>
        getUser (a_store a') ''bob'' = None \<and> getUser (a_store demo_auth) ''bob'' \<noteq> None"
proof -
  have admins: "is_enabled_admin (demo_user ''admin'' RoleAdmin)" "\<not> is_enabled_admin (demo_user ''bob'' RoleViewer)"
    by code_simp+
  obtain s where "update True (remove_user ''bob'') (a_store demo_auth) = (None, s)"
    "fd_users (st_data s) = [demo_user ''admin'' RoleAdmin]"
    using admins by (auto simp: update_def save_def clone_def remove_user_def findUser_def demo_auth_def demo_user_def)
  then have "DeleteUser demo_env (demo_inputs t) ''bob'' demo_auth =
      (None, demo_auth\<lparr>a_store := s, a_sessions := deleteUser ''bob'' [] (a_sessions demo_auth)\<rparr>)"
    "getUser s ''bob'' = None"
    by (simp_all add: DeleteUser_def demo_env_def demo_inputs_def demo_facts getUser_find demo_user_def)
  moreover have "getUser (a_store demo_auth) ''bob'' \<noteq> None"
    by (simp add: getUser_find demo_auth_def demo_user_def)
  ultimately show ?thesis
    by (simp add: serve_def demo_delete_passed demo_facts run_handler_def admin_refusal_def handleUsersDelete_def)
qed

theorem accounts_change_with_authority_witness:
  "\<exists>a' q via. serve demo_env (demo_inputs 5) demo_delete demo_auth = Some (Replied (status 204), a') \<and>
     getUser (a_store a') ''bob'' = None \<and>
     fst (authenticate (demo_inputs 5) demo_delete demo_auth) = (Some q, via) \<and>
     (AtLeast (pr_role q) RoleAdmin \<and> \<not> pr_must q \<or> pr_kind q = KindUser \<and> pr_name q = ''bob'')"
proof -
  obtain a' where a': "serve demo_env (demo_inputs 5) demo_delete demo_auth = Some (Replied (status 204), a')"
    "getUser (a_store a') ''bob'' = None" "getUser (a_store demo_auth) ''bob'' \<noteq> None"
    using demo_delete_served by blast
  then have "getUser (a_store a') ''bob'' \<noteq> getUser (a_store demo_auth) ''bob''" by metis
  with accounts_change_with_authority [OF a'(1)] a'(1,2) show ?thesis by blast
qed

text \<open>
  C7. Somebody can always administer the encoder. From the first start, where \<^verbatim>\<open>bootstrap\<close> creates the account
  \<^verbatim>\<open>admin\<close>, every sequence of requests is answered completely (no handler blocks), and at every point no
  two accounts have the same name and there is an enabled account with the role admin.
\<close>

theorem service_keeps_an_admin:
  assumes "userCount (a_store a) = 0" "a_sessions a = newSessionStore idle mx"
    and "bootstrap env inp0 pwfile_ok a = (Inr pw, a0)" "fair_run reqs"
  shows "\<exists>outs a'. serve_all env reqs a0 = Some (outs, a') \<and> length outs = length reqs \<and>
           distinct (map u_name (fd_users (st_data (a_store a')))) \<and>
           (\<exists>u \<in> set (fd_users (st_data (a_store a'))). u_role u = RoleAdmin \<and> \<not> u_disabled u)"
proof -
  have none: "fd_users (st_data (a_store a)) = []" using assms(1) by (simp add: userCount_def)
  obtain u where u: "fd_users (st_data (a_store a0)) = [u]" "is_enabled_admin u" "a_sessions a0 = a_sessions a"
    using assms(1,3) none
    by (auto simp: bootstrap_def Let_def update_def save_def clone_def is_enabled_admin_def split: option.splits if_splits)
  have "auth_ok a0"
    using u assms(2) newSessionStore_ok by (simp add: auth_ok_def data_ok_def enabledAdmins_def)
  from serve_all_total [OF this assms(4)] obtain outs a' where
    r: "serve_all env reqs a0 = Some (outs, a')" "length outs = length reqs" "auth_ok a'" by blast
  have "\<exists>u \<in> set us. is_enabled_admin u" if "0 < enabledAdmins us" for us
    using that by (auto simp: enabledAdmins_def filter_empty_conv)
  with r show ?thesis by (auto simp: auth_ok_def data_ok_def is_enabled_admin_def)
qed

theorem service_keeps_an_admin_witness:
  "\<exists>a0 outs a'. bootstrap demo_env (demo_inputs 0) True (demo_auth\<lparr>a_store := a_store demo_auth\<lparr>st_data :=
       \<lparr>fd_version = 1, fd_users = [], fd_tokens = []\<rparr>\<rparr>\<rparr>) = (Inr ''0123456789abcdef'', a0) \<and>
     serve_all demo_env [(demo_inputs 5, demo_delete), (demo_inputs 7, demo_delete)] a0 = Some (outs, a') \<and>
     (\<exists>u \<in> set (fd_users (st_data (a_store a'))). u_role u = RoleAdmin \<and> \<not> u_disabled u)"
proof -
  let ?a = "demo_auth\<lparr>a_store := a_store demo_auth\<lparr>st_data := \<lparr>fd_version = 1, fd_users = [], fd_tokens = []\<rparr>\<rparr>\<rparr>"
  let ?reqs = "[(demo_inputs 5, demo_delete), (demo_inputs 7, demo_delete)]"
  have cnt: "userCount (a_store ?a) = 0" by (simp add: userCount_def)
  have ss: "a_sessions ?a = newSessionStore 100 1000" by (simp add: demo_auth_def)
  obtain a0 where b: "bootstrap demo_env (demo_inputs 0) True ?a = (Inr ''0123456789abcdef'', a0)"
    using cnt by (auto simp: bootstrap_def Let_def demo_env_def demo_inputs_def update_def save_def)
  have fair: "fair_run ?reqs" by (simp add: fair_run_def demo_inputs_def permutes_rev)
  from service_keeps_an_admin [OF cnt ss b fair] b show ?thesis by blast
qed

text \<open>
  C19. An account that was locked out needs a login to come back. After an admin has given an account a new
  password or disabled it, no request with a session cookie is taken for that account, whatever
  requests are served in between, as long as none of them is a login with the right password of the
  enabled account.
\<close>

fun no_login :: "platform \<Rightarrow> string \<Rightarrow> (inputs \<times> request) list \<Rightarrow> auth \<Rightarrow> bool" where
  "no_login env u [] a = True"
| "no_login env u ((inp, r) # reqs) a =
     (\<not> login_ok env inp r a u \<and>
      (case serve env inp r a of Some (out, a1) \<Rightarrow> no_login env u reqs a1 | None \<Rightarrow> True))"

lemma serve_no_session:
  assumes "serve env inp r a = Some (out, a')" "auth_ok a" "permutes (in_sess_order inp)"
    "\<not> login_ok env inp r a u" "no_session u a"
  shows "no_session u a'"
proof (rule acts_no_session [OF serve_acts [OF assms(1)] assms(2,3) _ assms(5)])
  have "pr_name q \<noteq> u" if "authenticate inp r a = ((Some q, via), a1)" "pr_kind q = KindUser" for q via a1
    using user_principal_session [OF that assms(2)] assms(5) by auto
  then show "Enters u \<notin> may env inp r a"
    using assms(4) by (cases "authenticate inp r a") (auto simp: may_def admin_deeds_def split: option.splits if_splits)
qed

lemma serve_all_no_session:
  "serve_all env reqs a = Some (outs, a') \<Longrightarrow> auth_ok a \<Longrightarrow> fair_run reqs \<Longrightarrow> no_login env u reqs a \<Longrightarrow>
   no_session u a \<Longrightarrow> no_session u a' \<and> auth_ok a'"
proof (induction reqs arbitrary: a outs)
  case (Cons x reqs)
  obtain inp r where x: "x = (inp, r)" by fastforce
  obtain out a1 outs' where s: "serve env inp r a = Some (out, a1)" "serve_all env reqs a1 = Some (outs', a')"
    using Cons.prems(1) x serve_all_Cons by metis
  have fair: "permutes (in_sess_order inp)" "fair_run reqs" using Cons.prems(3) x by (simp_all add: fair_run_def)
  have "auth_ok a1" using acts_auth_ok [OF serve_acts [OF s(1)] Cons.prems(2) fair(1)] .
  moreover have "no_session u a1" "no_login env u reqs a1"
    using serve_no_session [OF s(1) Cons.prems(2) fair(1)] Cons.prems(4,5) x s(1) by simp_all
  ultimately show ?case using Cons.IH [OF s(2)] fair(2) by blast
qed simp

lemma UpdateUser_ends_sessions:
  assumes "UpdateUser env inp n p a = (Inr res, a')" "p_password p \<noteq> None \<or> u_disabled res" "auth_ok a"
  shows "no_session (u_name res) a'"
proof -
  let ?n = "ToLower (uni_lower env) (TrimSpace n)"
  obtain s hash d where s: "patch_user ?n p hash (clone (a_store a)) = Inr (d, res)"
    "a' = a\<lparr>a_store := s, a_sessions := deleteUser ?n [] (a_sessions a)\<rparr>"
    using assms(1,2) by (auto simp: UpdateUser_def Let_def split: if_splits sum.splits prod.splits option.splits)
  have "u_name res = ?n"
    using s(1) by (auto simp: patch_user_def Let_def split: option.splits if_splits dest: findUser_Some)
  with s(2) show ?thesis
    using sess.drop_all_owner [of "a_sessions a"] assms(3) by (fastforce simp: no_session_def auth_ok_def)
qed

theorem locked_account_needs_login:
  assumes "auth_ok a" "permutes (in_sess_order inp0)" "UpdateUser env inp0 n p a = (Inr acct, a0)"
    and "p_password p \<noteq> None \<or> u_disabled acct"
    and "serve_all env reqs a0 = Some (outs, a')" "fair_run reqs" "no_login env (u_name acct) reqs a0"
  shows "\<not> (\<exists>q via. fst (authenticate inp r a') = (Some q, via) \<and> pr_kind q = KindUser \<and> pr_name q = u_name acct)"
proof -
  have a0: "auth_ok a0" using acts_auth_ok [OF UpdateUser_acts [OF assms(3)] assms(1,2)] .
  have "no_session (u_name acct) a'" "auth_ok a'"
    using serve_all_no_session [OF assms(5) a0 assms(6,7)] UpdateUser_ends_sessions [OF assms(3,4,1)] by auto
  with user_principal_session [of inp r a'] show ?thesis
    by (cases "authenticate inp r a'") auto
qed

lemma demo_auth_ok: "data_ok (st_data (a_store demo_auth))"
  by (simp add: data_ok_def enabledAdmins_def demo_auth_def demo_user_def is_enabled_admin_def)

theorem locked_account_needs_login_witness:
  "\<exists>acct a0 outs a'. UpdateUser demo_env (demo_inputs 1) ''bob''
       \<lparr>p_role = None, p_password = None, p_disabled = Some True, p_must = None\<rparr>
       (demo_auth\<lparr>a_sessions := (newSessionStore 100 1000)\<lparr>sess_m :=
          [(sessionKey ''cookie'', \<lparr>s_user = ''bob'', s_created = 0, s_lastSeen = 0\<rparr>)]\<rparr>\<rparr>) = (Inr acct, a0) \<and>
     u_name acct = ''bob'' \<and> serve_all demo_env [(demo_inputs 2, demo_delete)] a0 = Some (outs, a') \<and>
     \<not> (\<exists>q via. fst (authenticate (demo_inputs 3) ((demo_request ''GET'' ''/'' [])\<lparr>r_cookie := Some ''cookie''\<rparr>) a') = (Some q, via) \<and>
          pr_kind q = KindUser \<and> pr_name q = ''bob'')"
proof -
  let ?a = "demo_auth\<lparr>a_sessions := (newSessionStore 100 1000)\<lparr>sess_m :=
     [(sessionKey ''cookie'', \<lparr>s_user = ''bob'', s_created = 0, s_lastSeen = 0\<rparr>)]\<rparr>\<rparr>"
  let ?p = "\<lparr>p_role = None, p_password = None, p_disabled = Some True, p_must = None\<rparr>" and ?reqs = "[(demo_inputs 2, demo_delete)]"
  have ok: "auth_ok ?a"
    using demo_auth_ok by (simp add: auth_ok_def sess_ok_def matching_def newSessionStore_def maxSessionsPerUser_def maxSessionsTotal_def)
  obtain acct a0 where up: "UpdateUser demo_env (demo_inputs 1) ''bob'' ?p ?a = (Inr acct, a0)" "u_name acct = ''bob''" "u_disabled acct"
    by (simp add: UpdateUser_def demo_env_def demo_inputs_def demo_facts Let_def patch_user_def update_def save_def clone_def
      findUser_def demo_auth_def demo_user_def patched_def is_enabled_admin_def RoleViewer_def RoleAdmin_def)
  have fair: "permutes (in_sess_order (demo_inputs 1))" "fair_run ?reqs" by (simp_all add: fair_run_def demo_inputs_def permutes_rev)
  have a0: "auth_ok a0" using acts_auth_ok [OF UpdateUser_acts [OF up(1)] ok fair(1)] .
  obtain outs a' where s: "serve_all demo_env ?reqs a0 = Some (outs, a')" using serve_all_total [OF a0 fair(2)] by blast
  have "no_login demo_env (u_name acct) ?reqs a0" by (simp add: login_ok_def demo_facts split: option.splits)
  from locked_account_needs_login [OF ok fair(1) up(1) _ s fair(2) this] up s show ?thesis by auto
qed

text \<open>
  C21. A revoked API token is never accepted again. Once \<^verbatim>\<open>RevokeToken\<close> has returned, the secret of the token
  authenticates no request, whatever requests are served afterwards, unless one of them creates a
  token and draws a secret with the same SHA-256 hash.
\<close>

lemma serve_all_dead:
  "serve_all env reqs a = Some (outs, a') \<Longrightarrow>
   list_all (\<lambda>(inp, r). dispatch r = Some HTokensCreate \<longrightarrow> minted inp \<noteq> h) reqs \<Longrightarrow>
   dead h (st_data (a_store a)) \<Longrightarrow> dead h (st_data (a_store a')) \<and> legacyMatches a' tok = legacyMatches a tok"
proof (induction reqs arbitrary: a outs)
  case (Cons x reqs)
  obtain inp r where x: "x = (inp, r)" by fastforce
  obtain out a1 outs' where s: "serve env inp r a = Some (out, a1)" "serve_all env reqs a1 = Some (outs', a')"
    using Cons.prems(1) x serve_all_Cons by metis
  have no: "Mints h \<notin> may env inp r a"
    using Cons.prems(2) x by (auto simp: may_def admin_deeds_def split: prod.splits option.splits if_splits)
  from serve_acts [OF s(1)] have "dead h (st_data (a_store a1)) \<and> legacyMatches a1 tok = legacyMatches a tok"
  proof (induction rule: acts_induct)
    case refl
    then show ?case using Cons.prems(3) by simp
  next
    case (step b c d)
    then show ?case using act_dead [OF step(2), of h tok] no by auto
  qed
  with Cons.IH [OF s(2)] Cons.prems(2) show ?case by simp
qed simp

theorem revoked_token_stays_revoked:
  assumes "RevokeToken inp0 (t_id t) a = (None, a0)" "t \<in> set (fd_tokens (st_data (a_store a)))"
    and "distinct (map t_id (fd_tokens (st_data (a_store a))))" "distinct (map t_hash (fd_tokens (st_data (a_store a))))"
    and "t_hash t = EncodeToString (Sum256 tok)" "\<not> legacyMatches a tok"
    and "serve_all env reqs a0 = Some (outs, a')"
    and "list_all (\<lambda>(inp, r). dispatch r = Some HTokensCreate \<longrightarrow> minted inp \<noteq> t_hash t) reqs"
  shows "fst (tokenPrincipal inp tok a') = None"
proof -
  note rv = RevokeToken_dead [OF assms(1-4)]
  show ?thesis
    using serve_all_dead [OF assms(7,8) rv(1), of tok] rv(2) [of tok] assms(5,6) by (intro dead_token_refused) simp_all
qed

theorem revoked_token_stays_revoked_witness:
  "\<exists>a0 outs a'. RevokeToken (demo_inputs 1) ''tk_9'' (demo_auth\<lparr>a_hasLegacy := False\<rparr>) = (None, a0) \<and>
     serve_all demo_env [(demo_inputs 2, demo_delete)] a0 = Some (outs, a') \<and>
     fst (tokenPrincipal (demo_inputs 3) ''ek_key'' a') = None"
proof -
  let ?a = "demo_auth\<lparr>a_hasLegacy := False\<rparr>" and ?reqs = "[(demo_inputs 2, demo_delete)]"
  have t: "demo_token \<in> set (fd_tokens (st_data (a_store ?a)))" "t_hash demo_token = EncodeToString (Sum256 ''ek_key'')"
    "t_id demo_token = ''tk_9''" "\<not> legacyMatches ?a ''ek_key''"
    "distinct (map t_id (fd_tokens (st_data (a_store ?a))))" "distinct (map t_hash (fd_tokens (st_data (a_store ?a))))"
    by (simp_all add: demo_auth_def demo_token_def legacyMatches_def)
  obtain a0 where rv: "RevokeToken (demo_inputs 1) (t_id demo_token) ?a = (None, a0)"
    by (simp add: RevokeToken_def demo_inputs_def update_def save_def clone_def revoke_token_def demo_auth_def)
  have fair: "permutes (in_sess_order (demo_inputs 1))" "fair_run ?reqs" by (simp_all add: fair_run_def demo_inputs_def permutes_rev)
  have "auth_ok ?a" using demo_auth_ok newSessionStore_ok by (simp add: auth_ok_def) (simp add: demo_auth_def)
  then have "auth_ok a0" using acts_auth_ok [OF RevokeToken_acts [OF rv]] fair(1) by blast
  then obtain outs a' where s: "serve_all demo_env ?reqs a0 = Some (outs, a')" using serve_all_total fair(2) by blast
  have "list_all (\<lambda>(inp, r). dispatch r = Some HTokensCreate \<longrightarrow> minted inp \<noteq> t_hash demo_token) ?reqs"
    by (simp add: demo_facts)
  from revoked_token_stays_revoked [OF rv t(1,5,6,2,4) s this, of "demo_inputs 3"] rv s t(3) show ?thesis by auto
qed

text \<open>
  C13. Guessing is locked out. On a fresh limiter, five logins with a wrong password for one account from one
  address within fifteen minutes are answered with 401, and the next one is answered with 429 whether
  or not its password is right; it creates no session and leaves the accounts as they are.
\<close>

theorem guessing_is_locked_out:
  assumes "a_limiter a = newLimiter" "CHR ''|'' \<notin> set ip"
    and "length reqs = 5" "list_all (attempt env name ip) reqs" "list_all (wrong env name (getUser (a_store a) name)) reqs"
    and "attempt env name ip (inp, r)" "sorted (times reqs @ [in_now inp])" "in_now inp - in_now (fst (hd reqs)) < loginWindow"
  shows "\<exists>a1 rep a2. serve_all env reqs a = Some (replicate 5 (Replied (status 401)), a1) \<and>
           serve env inp r a1 = Some (Replied rep, a2) \<and> rep_status rep = 429 \<and>
           a_sessions a2 = a_sessions (snd (authenticate inp r a1)) \<and>
           fd_users (st_data (a_store a2)) = fd_users (st_data (a_store a1))"
proof -
  obtain x xs where xs: "reqs = x # xs" using assms(3) by (cases reqs) auto
  let ?T = "in_now (fst x)"
  have sorted: "sorted (?T # times reqs @ [in_now inp])" using assms(7) xs by auto
  then have "sorted (?T # times ([] @ reqs))" by (auto simp: sorted_append)
  from guesses_refused [OF assms(4,5) _ _ this assms(2)] assms(1,3) obtain a1 where
    a1: "serve_all env reqs a = Some (replicate 5 (Replied (status 401)), a1)"
      "a_limiter a1 = foldl lim_step newLimiter (guess_events name ip reqs)" by (auto simp: guess_events_def)
  have "t \<ge> ?T" if "t \<in> set (times reqs)" for t using that sorted by (auto simp: sorted_append)
  then have "in_window (in_now inp) (times reqs) = times reqs"
    using assms(8) xs by (intro filter_True) fastforce
  then have "fst (snd (blocked name ip (in_now inp) (a_limiter a1)))"
    unfolding a1(2) using guess_blocked [OF sorted assms(2)] assms(3) by (simp del: filter_map)
  from attempt_locked [OF assms(6) this] obtain rep a2 where
    a2: "serve env inp r a1 = Some (Replied rep, a2)" "rep_status rep = 429"
      "a2 = (snd (authenticate inp r a1))\<lparr>a_limiter := snd (snd (blocked name ip (in_now inp) (a_limiter a1)))\<rparr>" by blast
  moreover have "fd_users (st_data (a_store (snd (authenticate inp r a1)))) = fd_users (st_data (a_store a1))"
    using authenticate_frame(2) by (cases "authenticate inp r a1") auto
  ultimately show ?thesis using a1(1) by auto
qed

theorem guessing_is_locked_out_witness:
  "\<exists>a1 rep a2. serve_all demo_env (map (\<lambda>t. (demo_inputs t, demo_request ''POST'' ''/api/v1/auth/login'' [])) [1, 2, 3, 4, 5])
       demo_auth = Some (replicate 5 (Replied (status 401)), a1) \<and>
     serve demo_env (demo_inputs 6) ((demo_request ''POST'' ''/api/v1/auth/login'' [])\<lparr>r_login := Inr ('' Bob'', ''correct'')\<rparr>) a1 =
       Some (Replied rep, a2) \<and> rep_status rep = 429"
proof -
  let ?g = "demo_request ''POST'' ''/api/v1/auth/login'' []"
  let ?reqs = "map (\<lambda>t. (demo_inputs t, ?g)) [1, 2, 3, 4, 5]" and ?r = "?g\<lparr>r_login := Inr ('' Bob'', ''correct'')\<rparr>"
  have lower: "ToLower (\<lambda>s. s) (TrimSpace '' Bob'') = ''bob''" by code_simp
  have at: "attempt demo_env ''bob'' ''10.0.0.7'' (demo_inputs t, ?g)"
    "wrong demo_env ''bob'' (getUser (a_store demo_auth) ''bob'') (demo_inputs t, ?g)"
    "attempt demo_env ''bob'' ''10.0.0.7'' (demo_inputs t, ?r)" for t
    by (simp_all add: attempt_def wrong_def demo_request_def demo_env_def demo_facts lower verifyPassword_def getUser_find
      demo_auth_def demo_user_def)
  have "\<exists>a1 rep a2. serve_all demo_env ?reqs demo_auth = Some (replicate 5 (Replied (status 401)), a1) \<and>
      serve demo_env (demo_inputs 6) ?r a1 = Some (Replied rep, a2) \<and> rep_status rep = 429 \<and>
      a_sessions a2 = a_sessions (snd (authenticate (demo_inputs 6) ?r a1)) \<and>
      fd_users (st_data (a_store a2)) = fd_users (st_data (a_store a1))"
    by (rule guessing_is_locked_out [where name = "''bob''" and ip = "''10.0.0.7''"])
      (simp_all add: at, simp_all add: demo_auth_def demo_inputs_def loginWindow_def)
  then show ?thesis by blast
qed

end
