(* ===== verification/Enc_Paths.thy ===== *)
theory Enc_Paths
  imports Enc_Secure
begin

text \<open>
  The access decision against the routing. The middleware decides on the decoded path, the mux behind it routes by
  the escaped path. The theory compares the two for whole requests: what a request that passes the
  middleware was granted, in terms of the segments the mux routes by, and the family of requests with
  encoded slashes that reach a route of the API as public reads.
\<close>

section \<open>Decision and route\<close>

text \<open>The access that the segments \<open>ms\<close> of the mux call for; an empty last segment is a slash at the end.\<close>

definition mux_access ::
  "string list list \<Rightarrow> policy \<Rightarrow> bool \<Rightarrow> string \<Rightarrow> string list \<Rightarrow> access \<times> role" where
  "mux_access reads pol metrics method ms =
     seg_access reads pol metrics method (filter (\<lambda>s. s \<noteq> []) ms) (last ms = [])"

text \<open>Whether the principal of a request meets a required access.\<close>

fun granted :: "access \<times> role \<Rightarrow> principal option \<Rightarrow> bool" where
  "granted (accessPublic, role) pr = True"
| "granted (accessAuthOnly, role) pr = (pr \<noteq> None)"
| "granted (accessRole, role) pr =
     (case pr of None \<Rightarrow> False | Some q \<Rightarrow> \<not> pr_must q \<and> AtLeast (pr_role q) role)"

text \<open>
  The route \<^verbatim>\<open>GET /api/v1/channels/{id}/thumbnail.jpg\<close> of the API, which the mux also selects for
  \<^verbatim>\<open>HEAD\<close>: the id it takes from the path when the request matches it.
\<close>

definition thumbnail_route :: "request \<Rightarrow> string option" where
  "thumbnail_route r =
     (if r_method r = ''GET'' \<or> r_method r = ''HEAD'' then
        (case mux_segs (r_escaped r) of
           Some [x, y, z, w, v] \<Rightarrow>
             if [x, y, z, v] = [''api'', ''v1'', ''channels'', ''thumbnail.jpg''] \<and> w \<noteq> [] then Some w else None
         | _ \<Rightarrow> None)
      else None)"

lemma classify_mux:
  assumes "newPolicy upper ops (map prefix_of extra) = Some pol" "\<forall>y \<in> set extra. list_all seg_ok (fst y)"
    and "mux_segs e = Some ms" "\<not> Contains (map lower_char e) ''%2f''" "PathUnescape e \<noteq> None"
    and "''.'' \<notin> set ms" "''..'' \<notin> set ms"
  shows "classify pol metrics method (cleanPath (url_path e)) =
    mux_access (admin_read_segs @ map fst extra) pol metrics method ms"
proof -
  have "clean_segs (url_path e) = filter (\<lambda>s. s \<noteq> []) ms"
    using mux_clean_segs(1) [OF assms(3-5)] clean_fold_filter [OF assms(6,7), of "[]"] by simp
  then show ?thesis
    unfolding cleanPath_canon_path mux_slash [OF assms(3-5)] mux_access_def classify_canon [OF assms(1,2) clean_segs_ok]
    by simp
qed

lemma Middleware_grants:
  assumes "Middleware inp r a = (Passed pr via, a')"
  shows "granted (classify (a_policy a) (a_metrics a) (r_method r) (cleanPath (url_path (r_escaped r)))) pr"
proof -
  obtain acc role where cl: "classify (a_policy a) (a_metrics a) (r_method r) (cleanPath (url_path (r_escaped r))) = (acc, role)"
    by fastforce
  obtain pr0 via0 a0 where au: "authenticate inp r a = ((pr0, via0), a0)" by (metis prod.exhaust)
  show ?thesis
    using assms [unfolded Middleware_def Let_def cl au prod.case] unfolding cl
    by (cases acc) (auto split: if_splits option.splits)
qed

section \<open>Encoded slashes\<close>

text \<open>The segment \<^verbatim>\<open>..%2f..%2f..\<close> with \<open>n\<close> times two dots.\<close>

definition climb :: "nat \<Rightarrow> string" where
  "climb n = join ''%2f'' (replicate n ''..'')"

lemma climb_Suc: "climb (Suc (Suc n)) = ''..%2f'' @ climb (Suc n)"
  by (simp add: climb_def)

lemma join_chars: "set (join sep ss) \<subseteq> set sep \<union> \<Union> (set ` set ss)"
  by (induction sep ss rule: join.induct) auto

lemma climb_no_slash: "CHR ''/'' \<notin> set (climb n)"
  using join_chars [of "''%2f''" "replicate n ''..''"] by (auto simp: climb_def split: if_splits)

lemma unhex_2f: "unhex (CHR ''2'') = Some 2" "unhex (CHR ''f'') = Some 15" "char_of (47 :: nat) = CHR ''/''"
  by code_simp+

lemma PathUnescape_climb: "PathUnescape (climb n) = Some (join ''/'' (replicate n ''..''))"
  by (induction n rule: induct_nat_012) (simp_all add: climb_def unhex_2f)

lemma render_replicate: "render (replicate (Suc n) s) = ''/'' @ join ''/'' (replicate (Suc n) s)"
  by (simp add: render_join)

lemma clean_climbs: "length acc \<le> n \<Longrightarrow> foldl clean_step acc (replicate n ''..'') = []"
  by (induction n arbitrary: acc) (auto simp: clean_step_def)

text \<open>The two readings of \<^verbatim>\<open>/api/v1/channels/..%2f..%2f../thumbnail.jpg\<close> and its longer variants.\<close>

abbreviation climbing :: "nat \<Rightarrow> string" where
  "climbing n \<equiv> ''/api/v1/channels/'' @ climb n @ ''/thumbnail.jpg''"

lemma climbing_canon:
  assumes "3 \<le> n"
  shows "climbing n = render [''api'', ''v1'', ''channels'', climb n, ''thumbnail.jpg'']" (is "_ = render ?es")
    "list_all seg_ok [''api'', ''v1'', ''channels'', climb n, ''thumbnail.jpg'']"
proof -
  obtain k where "n = Suc (Suc k)" using assms that [of "n - 2"] by simp
  then have "climb n \<noteq> []" "length (climb n) > 2" by (simp_all add: climb_Suc)
  then have "seg_ok (climb n)" using climb_no_slash by (auto simp: seg_ok_def)
  then show "list_all seg_ok ?es" by (simp add: seg_ok_def)
qed (simp add: render_def)

lemma mux_climbing:
  assumes "3 \<le> n"
  shows "mux_segs (climbing n) = Some [''api'', ''v1'', ''channels'', join ''/'' (replicate n ''..''), ''thumbnail.jpg'']"
proof -
  let ?es = "[''api'', ''v1'', ''channels'', climb n, ''thumbnail.jpg'']"
  have e: "climbing n = canon_path ?es False" using climbing_canon [OF assms] by (simp add: canon_path_def)
  have "Split (climbing n) CHR ''/'' = [] # ?es"
    using Split_render(1) [OF climbing_canon(2) [OF assms]] climbing_canon(1) [OF assms] by simp
  then have "Split (drop 1 (climbing n)) CHR ''/'' = ?es" by simp
  moreover have "mux_cleanPath (climbing n) = climbing n"
    unfolding e mux_cleanPath_eq by (rule cleanPath_canon [OF climbing_canon(2) [OF assms]])
  moreover have "map pathUnescape ?es = [''api'', ''v1'', ''channels'', join ''/'' (replicate n ''..''), ''thumbnail.jpg'']"
    using PathUnescape_climb [of n] by (simp add: pathUnescape_def)
  ultimately show ?thesis by (simp only: mux_segs_def) simp
qed

lemma clean_climbing:
  assumes "3 \<le> n"
  shows "cleanPath (url_path (climbing n)) = ''/thumbnail.jpg''"
proof -
  let ?us = "[''api'', ''v1'', ''channels''] @ replicate n ''..'' @ [''thumbnail.jpg'']"
  obtain k where k: "n = Suc k" using assms that [of "n - 1"] by simp
  have t: "PathUnescape (''/thumbnail.jpg'') = Some ''/thumbnail.jpg''" by simp
  have "PathUnescape (climb n @ ''/thumbnail.jpg'') = Some (join ''/'' (replicate n ''..'') @ ''/thumbnail.jpg'')"
    by (subst PathUnescape_append) (simp_all add: PathUnescape_climb t del: PathUnescape.simps)
  then have "url_path (climbing n) = ''/api/v1/channels/'' @ join ''/'' (replicate n ''..'') @ ''/thumbnail.jpg''"
    by (simp add: url_path_def pathUnescape_def)
  also have "\<dots> = render ?us"
    unfolding k render_append render_replicate by (simp add: render_def)
  finally have u: "url_path (climbing n) = render ?us" .
  have "Split (render ?us) CHR ''/'' = [] # ?us" by (rule Split_segs) auto
  moreover have "foldl clean_step [''api'', ''v1'', ''channels''] (replicate n ''..'') = []"
    using assms by (intro clean_climbs) simp
  ultimately have "clean_segs (render ?us) = [''thumbnail.jpg'']"
    by (simp add: clean_segs_def clean_step_def)
  moreover have "\<not> HasSuffix (render ?us) ''/''" by (simp add: render_def HasSuffix_def HasPrefix_def)
  ultimately show ?thesis unfolding u cleanPath_canon_path by (simp add: canon_path_def render_def)
qed

section \<open>Properties\<close>

text \<open>
  C24. The middleware and the mux agree on what a request asks for. Let a request pass the middleware, with a
  policy built by \<^verbatim>\<open>newPolicy\<close> from any operator routes and any further prefixes for admins, and let
  the mux route it by the segments \<open>ms\<close>. Suppose its path is well formed, none of its
  segments decodes to a dot segment (\<^verbatim>\<open>%2e%2e\<close> does, and the policy then resolves what the mux keeps), and it
  is a path of the API for the middleware or has no encoded slash. Then the access the
  policy decided on is the one that the segments of the mux call for, and the principal
  of the request, the one that its credentials give, meets it: a role at least as
  high and no pending change of password where a role is required, any principal below
  \<^verbatim>\<open>/api/v1/auth\<close>.
\<close>

theorem policy_agrees_with_mux:
  assumes "newPolicy upper ops (map prefix_of extra) = Some (a_policy a)" "\<forall>y \<in> set extra. list_all seg_ok (fst y)"
    and "Middleware inp r a = (Passed pr via, a')"
    and "mux_segs (r_escaped r) = Some ms" "PathUnescape (r_escaped r) \<noteq> None" "''.'' \<notin> set ms" "''..'' \<notin> set ms"
    and "is_api (cleanPath (url_path (r_escaped r))) \<or> \<not> Contains (map lower_char (r_escaped r)) ''%2f''"
  shows "classify (a_policy a) (a_metrics a) (r_method r) (cleanPath (url_path (r_escaped r))) =
           mux_access (admin_read_segs @ map fst extra) (a_policy a) (a_metrics a) (r_method r) ms \<and>
         granted (mux_access (admin_read_segs @ map fst extra) (a_policy a) (a_metrics a) (r_method r) ms) pr \<and>
         authenticate inp r a = ((pr, via), a')"
proof -
  have "\<not> Contains (map lower_char (r_escaped r)) ''%2f''"
    using Middleware_cases(4) [OF assms(3) refl] assms(8) by blast
  note agree = classify_mux [OF assms(1,2,4) this assms(5-7)]
  have "granted (mux_access (admin_read_segs @ map fst extra) (a_policy a) (a_metrics a) (r_method r) ms) pr"
    using Middleware_grants [OF assms(3)] unfolding agree .
  with agree Middleware_cases(2) [OF assms(3) refl] show ?thesis by blast
qed

text \<open>The policy of \<^verbatim>\<open>encoderd\<close>, and a read of the notifications with an escaped letter in the path.\<close>

abbreviation demo_notify :: request where
  "demo_notify \<equiv> demo_request ''GET'' ''/api/v1/not%69fy'' ''Bearer secret''"

lemma demo_notify_facts:
  "r_method demo_notify = ''GET''" "mux_segs (r_escaped demo_notify) = Some [''api'', ''v1'', ''notify'']"
  "cleanPath (url_path (r_escaped demo_notify)) = ''/api/v1/notify''" "PathUnescape (r_escaped demo_notify) \<noteq> None"
  "\<not> Contains (map lower_char (r_escaped demo_notify)) ''%2f''"
  by code_simp+

lemma demo_notify_access:
  "mux_access (admin_read_segs @ map fst [([''api'', ''v1'', ''notify''], False)]) pol False ''GET'' [''api'', ''v1'', ''notify''] =
     (accessRole, RoleAdmin)"
  by (auto simp: mux_access_def seg_access_def seg_role_def isRead_def admin_read_segs_def below_def doc_segs_def HasPrefix_def)

theorem policy_agrees_with_mux_witness:
  "\<exists>pol pr a'. newPolicy (\<lambda>s. s) [''POST /api/v1/channels/*/loudness/reset''] [''/api/v1/notify''] = Some pol \<and>
     Middleware (demo_inputs 0) demo_notify (demo_auth\<lparr>a_policy := pol\<rparr>) = (Passed (Some pr) False, a') \<and>
     classify pol False ''GET'' ''/api/v1/notify'' = (accessRole, RoleAdmin) \<and> AtLeast (pr_role pr) RoleAdmin"
proof -
  let ?extra = "[([''api'', ''v1'', ''notify''], False)]"
  let ?pr = "\<lparr>pr_name = ''legacy-token'', pr_role = RoleAdmin, pr_kind = KindLegacy, pr_tokenID = [], pr_must = False\<rparr>"
  have pre: "[''/api/v1/notify''] = map prefix_of ?extra" by (simp add: prefix_of_def render_def)
  have "newPolicy (\<lambda>s. s) [''POST /api/v1/channels/*/loudness/reset''] [''/api/v1/notify''] \<noteq> None"
    by (simp add: newPolicy_def DefaultOperatorRoutes_def TrimSpace_id printable_def Cut_def HasPrefix_def)
  then obtain pol where pol: "newPolicy (\<lambda>s. s) [''POST /api/v1/channels/*/loudness/reset''] [''/api/v1/notify''] = Some pol"
    by auto
  let ?a = "demo_auth\<lparr>a_policy := pol\<rparr>"
  have a: "a_policy ?a = pol" "a_metrics ?a = False" by (simp_all add: demo_auth_def)
  have extra: "\<forall>y \<in> set ?extra. list_all seg_ok (fst y)" by (simp add: seg_ok_def)
  have cl: "classify pol False ''GET'' ''/api/v1/notify'' = (accessRole, RoleAdmin)"
    using classify_mux [OF pol [unfolded pre] extra demo_notify_facts(2,5,4), of False "''GET''"]
    unfolding demo_notify_facts(3) demo_notify_access by simp
  have "legacyMatches ?a ''secret''" by (simp add: legacyMatches_def demo_auth_def)
  then have "authenticate (demo_inputs 0) demo_notify ?a = ((Some ?pr, False), ?a)"
    by (simp add: authenticate_def demo_request_def demo_facts tokenPrincipal_def del: list.map)
  then have mw: "Middleware (demo_inputs 0) demo_notify ?a = (Passed (Some ?pr) False, ?a)"
    unfolding Middleware_def Let_def demo_notify_facts a cl using demo_notify_facts(5) demo_facts(8) by simp
  have "granted (accessRole, RoleAdmin) (Some ?pr)"
    using policy_agrees_with_mux [OF _ extra mw demo_notify_facts(2,4), unfolded a, OF pol [unfolded pre]] demo_notify_facts(5)
    unfolding demo_notify_facts(1) demo_notify_access by simp
  with pol mw cl show ?thesis by (intro exI conjI) auto
qed

text \<open>
  C32. An encoded slash lets a request without any credentials past the middleware to a route of the API. For
  every \<open>n \<ge> 3\<close>, every state of the service and every policy, \<^verbatim>\<open>GET /api/v1/channels/..%2f...%2f../thumbnail.jpg\<close> with
  \<open>n\<close> dot segments is forwarded with no principal: the decoded path resolves to
  \<^verbatim>\<open>/thumbnail.jpg\<close>, which is neither refused for its encoded slash nor restricted. The mux behind
  it selects the route of the thumbnails, with the id that climbs, although these segments
  call for a role.
\<close>

theorem encoded_slash_hides_api:
  assumes "3 \<le> n" "r_escaped r = climbing n" "r_method r = ''GET''" "r_authorization r = []" "r_cookie r = None"
  shows "serve env inp r a = Some (Forwarded None, a) \<and>
    thumbnail_route r = Some (join ''/'' (replicate n ''..'')) \<and>
    (\<exists>ms role. mux_segs (r_escaped r) = Some ms \<and>
       mux_access reads (a_policy a) (a_metrics a) (r_method r) ms = (accessRole, role) \<and>
       \<not> granted (accessRole, role) None)"
proof (intro conjI exI)
  let ?ms = "[''api'', ''v1'', ''channels'', join ''/'' (replicate n ''..''), ''thumbnail.jpg'']"
  obtain k where "n = Suc (Suc k)" using assms(1) that [of "n - 2"] by simp
  then have ne: "join ''/'' (replicate n ''..'') \<noteq> []" by simp
  show m: "mux_segs (r_escaped r) = Some ?ms" unfolding assms(2) by (rule mux_climbing [OF assms(1)])
  have p: "cleanPath (url_path (r_escaped r)) = ''/thumbnail.jpg''" unfolding assms(2) by (rule clean_climbing [OF assms(1)])
  have api: "\<not> is_api ''/thumbnail.jpg''" by code_simp
  then have "classify (a_policy a) (a_metrics a) ''GET'' ''/thumbnail.jpg'' = (accessPublic, [])"
    by (simp add: classify_def isRead_def)
  with api have "Middleware inp r a = (Passed None False, a)"
    unfolding Middleware_def p Let_def assms(3) authenticate_def assms(4,5) by simp
  moreover have "dispatch r = None" unfolding dispatch_def m by simp
  ultimately show "serve env inp r a = Some (Forwarded None, a)" by (simp add: serve_def)
  show "thumbnail_route r = Some (join ''/'' (replicate n ''..''))"
    unfolding thumbnail_route_def m using assms(3) ne by simp
  show "mux_access reads (a_policy a) (a_metrics a) (r_method r) ?ms = (accessRole, seg_role reads (a_policy a) ''GET'' ?ms)"
    using ne unfolding assms(3) by (simp add: mux_access_def seg_access_def below_def doc_segs_def HasPrefix_def)
  show "\<not> granted (accessRole, seg_role reads (a_policy a) ''GET'' ?ms) None" by simp
qed

theorem encoded_slash_hides_api_witness:
  "let r = demo_request ''GET'' ''/api/v1/channels/..%2f..%2f../thumbnail.jpg'' []
   in serve demo_env (demo_inputs 0) r demo_auth = Some (Forwarded None, demo_auth) \<and> thumbnail_route r = Some ''../../..''"
proof -
  let ?r = "demo_request ''GET'' ''/api/v1/channels/..%2f..%2f../thumbnail.jpg'' []"
  have esc: "r_escaped ?r = climbing 3" by (simp add: demo_request_def climb_def numeral_3_eq_3)
  have rest: "r_method ?r = ''GET''" "r_authorization ?r = []" "r_cookie ?r = None" by (simp_all add: demo_request_def)
  have climbed: "join ''/'' (replicate 3 ''..'') = ''../../..''" by code_simp
  note hidden = encoded_slash_hides_api [OF order_refl esc rest, of demo_env "demo_inputs 0" demo_auth, unfolded climbed]
  show ?thesis unfolding Let_def by (intro conjI hidden [THEN conjunct1] hidden [THEN conjunct2, THEN conjunct1])
qed

end
