(* ===== verification/Go_Netip.thy ===== *)
theory Go_Netip
  imports Go_Strings
begin

text \<open>
  IP addresses as the Go packages \<^verbatim>\<open>net/netip\<close> and \<^verbatim>\<open>net\<close> read and print them: \<^verbatim>\<open>ParseAddr\<close>, \<^verbatim>\<open>ParsePrefix\<close>,
  \<^verbatim>\<open>Addr.String\<close>, \<^verbatim>\<open>Unmap\<close>, \<^verbatim>\<open>Prefix.Contains\<close> and \<^verbatim>\<open>SplitHostPort\<close>. An IPv4 address is its four octets, an IPv6
  address its eight groups of 16 bits and its zone. An error is \<open>None\<close>.
\<close>

datatype addr = Addr4 "nat list" | Addr6 "nat list" string

section \<open>Reading\<close>

definition parse_octet :: "string \<Rightarrow> nat option" where
  "parse_octet s =
     (if s = [] \<or> \<not> list_all is_digit s \<or> length s > 3 \<or> (length s > 1 \<and> hd s = CHR ''0'') \<or> dec_val s > 255
      then None else Some (dec_val s))"

definition parseIPv4 :: "string \<Rightarrow> nat list option" where
  "parseIPv4 s =
     (let parts = map parse_octet (Split s CHR ''.'')
      in if length parts = 4 \<and> list_all (\<lambda>p. p \<noteq> None) parts then Some (map the parts) else None)"

definition hex_num :: "string \<Rightarrow> nat" where
  "hex_num s = foldl (\<lambda>acc c. 16 * acc + (case unhex c of Some d \<Rightarrow> d | None \<Rightarrow> 0)) 0 s"

text \<open>
  The loop of \<^verbatim>\<open>parseIPv6\<close>: the groups read so far, the place of \<^verbatim>\<open>::\<close>, the rest of the text. The result is
  the groups and the place of the ellipsis when the text is used up. The loop stops after eight groups;
  text left over is an error.
\<close>

function v6_loop :: "nat list \<Rightarrow> nat option \<Rightarrow> string \<Rightarrow> (nat list \<times> nat option) option" where
  "v6_loop gs ell s =
     (if length gs \<ge> 8 then (if s = [] then Some (gs, ell) else None)
      else let ds = takeWhile (\<lambda>c. unhex c \<noteq> None) s;
               r = drop (length ds) s
           in if ds = [] \<or> length ds > 4 then None
              else if r \<noteq> [] \<and> hd r = CHR ''.'' then
                (if ell = None \<and> length gs \<noteq> 6 \<or> length gs > 6 then None
                 else case parseIPv4 s of
                        Some [a, b, c, d] \<Rightarrow> Some (gs @ [256 * a + b, 256 * c + d], ell)
                      | _ \<Rightarrow> None)
              else let gs' = gs @ [hex_num ds]
                   in case r of
                        [] \<Rightarrow> Some (gs', ell)
                      | c # r' \<Rightarrow>
                          if c \<noteq> CHR '':'' \<or> r' = [] then None
                          else if hd r' = CHR '':'' then
                            (if ell \<noteq> None then None
                             else if tl r' = [] then Some (gs', Some (length gs'))
                             else v6_loop gs' (Some (length gs')) (tl r'))
                          else v6_loop gs' ell r')"
  by auto

termination v6_loop
  by (relation "measure (\<lambda>(gs, ell, s). 8 - length gs)") auto

declare v6_loop.simps [simp del]

definition expand6 :: "nat list \<Rightarrow> nat option \<Rightarrow> nat list option" where
  "expand6 gs ell =
     (case ell of
        None \<Rightarrow> if length gs = 8 then Some gs else None
      | Some i \<Rightarrow> if length gs \<ge> 8 then None else Some (take i gs @ replicate (8 - length gs) 0 @ drop i gs))"

definition parseIPv6 :: "string \<Rightarrow> addr option" where
  "parseIPv6 inp =
     (case Cut inp CHR ''%'' of (s, zone, zoned) \<Rightarrow>
        if zoned \<and> zone = [] then None
        else if HasPrefix s ''::'' then
          (if length s = 2 then Some (Addr6 (replicate 8 0) zone)
           else Option.bind (v6_loop [] (Some 0) (drop 2 s)) (\<lambda>(gs, ell). map_option (\<lambda>g. Addr6 g zone) (expand6 gs ell)))
        else Option.bind (v6_loop [] None s) (\<lambda>(gs, ell). map_option (\<lambda>g. Addr6 g zone) (expand6 gs ell)))"

definition ParseAddr :: "string \<Rightarrow> addr option" where
  "ParseAddr s =
     (case dropWhile (\<lambda>c. c \<noteq> CHR ''.'' \<and> c \<noteq> CHR '':'' \<and> c \<noteq> CHR ''%'') s of
        [] \<Rightarrow> None
      | c # _ \<Rightarrow> if c = CHR ''.'' then map_option Addr4 (parseIPv4 s) else if c = CHR '':'' then parseIPv6 s else None)"

section \<open>Printing\<close>

definition hex_of :: "nat \<Rightarrow> char" where
  "hex_of d = (if d < 10 then char_of (48 + d) else char_of (87 + d))"

fun itoa16 :: "nat \<Rightarrow> string" where
  "itoa16 n = (if n < 16 then [hex_of n] else itoa16 (n div 16) @ [hex_of (n mod 16)])"

definition dotted :: "nat list \<Rightarrow> string" where
  "dotted os = join ''.'' (map itoa os)"

definition is_4in6 :: "nat list \<Rightarrow> bool" where
  "is_4in6 g = (take 6 g = [0, 0, 0, 0, 0, 0xFFFF])"

definition v4_of :: "nat list \<Rightarrow> nat list" where
  "v4_of g = [g ! 6 div 256, g ! 6 mod 256, g ! 7 div 256, g ! 7 mod 256]"

text \<open>The run of zero groups that \<^verbatim>\<open>::\<close> stands for: the first of the longest, at least two groups.\<close>

definition zero_run :: "nat list \<Rightarrow> nat \<Rightarrow> nat" where
  "zero_run g i = length (takeWhile (\<lambda>x. x = 0) (drop i g))"

definition best_run :: "nat list \<Rightarrow> nat \<times> nat" where
  "best_run g = foldl (\<lambda>(i, n) j. if zero_run g j > n then (j, zero_run g j) else (i, n)) (0, 1) [0..<8]"

definition string6 :: "nat list \<Rightarrow> string" where
  "string6 g =
     (case best_run g of (i, n) \<Rightarrow>
        if n < 2 then join '':'' (map itoa16 g)
        else join '':'' (map itoa16 (take i g)) @ ''::'' @ join '':'' (map itoa16 (drop (i + n) g)))"

fun addr_String :: "addr \<Rightarrow> string" where
  "addr_String (Addr4 os) = dotted os"
| "addr_String (Addr6 g zone) =
     (if is_4in6 g then ''::ffff:'' @ dotted (v4_of g) else string6 g) @ (if zone = [] then [] else ''%'' @ zone)"

fun Unmap :: "addr \<Rightarrow> addr" where
  "Unmap (Addr4 os) = Addr4 os"
| "Unmap (Addr6 g zone) = (if is_4in6 g then Addr4 (v4_of g) else Addr6 g zone)"

section \<open>Prefixes\<close>

datatype prefix = Prefix addr nat

fun BitLen :: "addr \<Rightarrow> nat" where
  "BitLen (Addr4 os) = 32"
| "BitLen (Addr6 g zone) = 128"

fun addr_bits :: "addr \<Rightarrow> bool list" where
  "addr_bits (Addr4 os) = concat (map (\<lambda>x. map (\<lambda>i. bit x (7 - i)) [0..<8]) os)"
| "addr_bits (Addr6 g zone) = concat (map (\<lambda>x. map (\<lambda>i. bit x (15 - i)) [0..<16]) g)"

fun hasZone :: "addr \<Rightarrow> bool" where
  "hasZone (Addr4 os) = False"
| "hasZone (Addr6 g zone) = (zone \<noteq> [])"

text \<open>\<^verbatim>\<open>Contains\<close> compares the leading bits, so that it does not matter whether the prefix is masked.\<close>

fun prefix_Contains :: "prefix \<Rightarrow> addr \<Rightarrow> bool" where
  "prefix_Contains (Prefix p n) ip =
     (\<not> hasZone ip \<and> BitLen p = BitLen ip \<and> take n (addr_bits p) = take n (addr_bits ip))"

text \<open>The leading \<open>n\<close> bits of groups of \<open>w\<close> bits; the others become zero.\<close>

fun mask_groups :: "nat \<Rightarrow> nat \<Rightarrow> nat list \<Rightarrow> nat list" where
  "mask_groups w n [] = []"
| "mask_groups w n (x # xs) = (let k = w - min w n in x div 2 ^ k * 2 ^ k) # mask_groups w (n - w) xs"

fun Masked :: "prefix \<Rightarrow> prefix" where
  "Masked (Prefix (Addr4 os) n) = Prefix (Addr4 (mask_groups 8 n os)) n"
| "Masked (Prefix (Addr6 g zone) n) = Prefix (Addr6 (mask_groups 16 n g) []) n"

definition ParsePrefix :: "string \<Rightarrow> prefix option" where
  "ParsePrefix s =
     (case index_char CHR ''/'' (rev s) of
        None \<Rightarrow> None
      | Some j \<Rightarrow>
          let bits = drop (length s - j) s
          in case ParseAddr (take (length s - j - 1) s) of
               None \<Rightarrow> None
             | Some ip \<Rightarrow>
                 if hasZone ip \<or> (length bits > 1 \<and> (hd bits = CHR ''0'' \<or> \<not> is_digit (hd bits))) then None
                 else case Atoi bits of
                        None \<Rightarrow> None
                      | Some n \<Rightarrow> if n < 0 \<or> n > int (BitLen ip) then None else Some (Prefix ip (nat n)))"

section \<open>Host and port\<close>

text \<open>\<^verbatim>\<open>net.SplitHostPort\<close>: the host and the port.\<close>

definition SplitHostPort :: "string \<Rightarrow> (string \<times> string) option" where
  "SplitHostPort hp =
     (case index_char CHR '':'' (rev hp) of
        None \<Rightarrow> None
      | Some j \<Rightarrow>
          let i = length hp - j - 1
          in if hd hp = CHR ''['' then
               (case index_char CHR '']'' hp of
                  None \<Rightarrow> None
                | Some e \<Rightarrow>
                    if e + 1 \<noteq> i \<or> CHR ''['' \<in> set (drop 1 hp) \<or> CHR '']'' \<in> set (drop (e + 1) hp) then None
                    else Some (drop 1 (take e hp), drop (i + 1) hp))
             else if CHR '':'' \<in> set (take i hp) \<or> CHR ''['' \<in> set hp \<or> CHR '']'' \<in> set hp then None
             else Some (take i hp, drop (i + 1) hp))"

end
