(* ===== verification/Enc_Client.thy ===== *)
theory Enc_Client
  imports Enc_Serve Go_Netip
begin

text \<open>
  Who is at the other end of a connection to the encoder (\<^verbatim>\<open>clientIP\<close>, \<^verbatim>\<open>isTrusted\<close>, \<^verbatim>\<open>isHTTPS\<close> of
  \<^verbatim>\<open>middleware.go\<close>, \<^verbatim>\<open>parsePrefix\<close> of \<^verbatim>\<open>auth.go\<close>), and the start of the service (\<^verbatim>\<open>New\<close>), which puts its
  parts together.
\<close>

section \<open>The client's address\<close>

definition isTrusted :: "prefix list \<Rightarrow> addr \<Rightarrow> bool" where
  "isTrusted trusted ip = list_ex (\<lambda>p. prefix_Contains p ip) trusted"

definition forwarded_hops :: "string list \<Rightarrow> string list" where
  "forwarded_hops xff = filter (\<lambda>h. h \<noteq> []) (map TrimSpace (concat (map (\<lambda>v. Split v CHR '','') xff)))"

text \<open>The loop over the hops, from the right.\<close>

fun walk_hops :: "prefix list \<Rightarrow> addr \<Rightarrow> string list \<Rightarrow> string" where
  "walk_hops trusted peer [] = addr_String peer"
| "walk_hops trusted peer (h # hs) =
     (case ParseAddr h of
        None \<Rightarrow> addr_String peer
      | Some ip \<Rightarrow>
          if \<not> isTrusted trusted (Unmap ip) then addr_String (Unmap ip)
          else walk_hops trusted (Unmap ip) hs)"

definition clientIP :: "prefix list \<Rightarrow> string \<Rightarrow> string list \<Rightarrow> string" where
  "clientIP trusted remoteAddr xff =
     (let host = (case SplitHostPort remoteAddr of Some (h, _) \<Rightarrow> h | None \<Rightarrow> remoteAddr)
      in case ParseAddr host of
           None \<Rightarrow> host
         | Some peer \<Rightarrow>
             if \<not> isTrusted trusted (Unmap peer) then addr_String (Unmap peer)
             else walk_hops trusted (Unmap peer) (rev (forwarded_hops xff)))"

definition isHTTPS :: "prefix list \<Rightarrow> bool \<Rightarrow> string \<Rightarrow> string \<Rightarrow> bool" where
  "isHTTPS trusted tls remoteAddr proto =
     (if tls then True
      else case SplitHostPort remoteAddr of
             None \<Rightarrow> False
           | Some (host, _) \<Rightarrow>
               (case ParseAddr host of
                  None \<Rightarrow> False
                | Some ip \<Rightarrow> isTrusted trusted (Unmap ip) \<and> EqualFold proto ''https''))"

definition parsePrefix :: "string \<Rightarrow> prefix option" where
  "parsePrefix raw =
     (let s = TrimSpace raw
      in if Contains s ''/'' then map_option Masked (ParsePrefix s)
         else case ParseAddr s of
                None \<Rightarrow> None
              | Some ip \<Rightarrow> Some (Prefix (Unmap ip) (BitLen (Unmap ip))))"

section \<open>The start of the service\<close>

definition DefaultBcryptCost :: int where "DefaultBcryptCost = 12"
definition DefaultSessionIdle :: int where "DefaultSessionIdle = 12 * 3600 * second"
definition DefaultSessionMax :: int where "DefaultSessionMax = 7 * 24 * 3600 * second"

record Options =
  o_DataDir :: string
  o_LegacyToken :: string
  o_MetricsPublic :: bool
  o_TrustedProxies :: "string list"
  o_ExtraOperatorRoutes :: "string list"
  o_ExtraAdminReadPrefixes :: "string list"
  o_SessionIdle :: int
  o_SessionMax :: int
  o_BcryptCost :: int

text \<open>What the file system answers: the directory, the account file, the audit log and the password file.\<close>

record start_io =
  io_mkdir :: bool
  io_store :: file_read
  io_audit :: bool
  io_pwfile :: bool

fun parse_trusted :: "string list \<Rightarrow> prefix list option" where
  "parse_trusted [] = Some []"
| "parse_trusted (s # ss) =
     (case parsePrefix s of None \<Rightarrow> None | Some p \<Rightarrow> map_option ((#) p) (parse_trusted ss))"

text \<open>
  \<^verbatim>\<open>New\<close>; \<open>None\<close> is an error. The range of the bcrypt cost and the Unicode tables of \<^verbatim>\<open>ToUpper\<close> are arguments.
  The result is the service, its trusted prefixes and the initial password.
\<close>

definition New :: "platform \<Rightarrow> (string \<Rightarrow> string) \<Rightarrow> int \<times> int \<Rightarrow> inputs \<Rightarrow> start_io \<Rightarrow> Options \<Rightarrow>
    (auth \<times> prefix list \<times> string) option" where
  "New env upper costs inp io opts =
     (if o_DataDir opts = [] \<or> \<not> io_mkdir io then None
      else let cost = (if o_BcryptCost opts = 0 then DefaultBcryptCost else o_BcryptCost opts);
               idle = (if o_SessionIdle opts \<le> 0 then DefaultSessionIdle else o_SessionIdle opts);
               mx = (if o_SessionMax opts \<le> 0 then DefaultSessionMax else o_SessionMax opts);
               t = TrimSpace (o_LegacyToken opts)
           in if cost < fst costs \<or> cost > snd costs then None
              else do {
                trusted \<leftarrow> parse_trusted (o_TrustedProxies opts);
                pol \<leftarrow> newPolicy upper (o_ExtraOperatorRoutes opts) (o_ExtraAdminReadPrefixes opts);
                st \<leftarrow> openStore (io_store io);
                if \<not> io_audit io then None
                else let a = \<lparr>a_store = st, a_sessions = newSessionStore idle mx, a_limiter = newLimiter, a_policy = pol,
                              a_legacy = (if t \<noteq> [] then Sum256 t else replicate 32 0), a_hasLegacy = (t \<noteq> []),
                              a_metrics = o_MetricsPublic opts\<rparr>
                     in case bootstrap env inp (io_pwfile io) a of
                          (Inl _, _) \<Rightarrow> None
                        | (Inr pw, a') \<Rightarrow> Some (a', trusted, pw)
              })"

definition SetMetricsPublic :: "bool \<Rightarrow> auth \<Rightarrow> auth" where
  "SetMetricsPublic public a = a\<lparr>a_metrics := public\<rparr>"

section \<open>Properties\<close>

lemma walk_hops_trusted:
  assumes "\<And>h. h \<in> set hs \<Longrightarrow> \<exists>q. ParseAddr h = Some q \<and> isTrusted trusted (Unmap q)"
    and "ParseAddr h0 = Some ip" "\<not> isTrusted trusted (Unmap ip)"
  shows "walk_hops trusted peer (hs @ h0 # rest) = addr_String (Unmap ip)"
  using assms(1)
proof (induction hs arbitrary: peer)
  case Nil
  then show ?case using assms(2,3) by simp
next
  case (Cons h hs)
  obtain q where q: "ParseAddr h = Some q" "isTrusted trusted (Unmap q)" using Cons.prems [of h] by auto
  have "walk_hops trusted (Unmap q) (hs @ h0 # rest) = addr_String (Unmap ip)"
    by (rule Cons.IH) (rule Cons.prems, simp)
  with q show ?case by simp
qed

lemma clientIP_peer:
  assumes "SplitHostPort remoteAddr = Some (host, port)" "ParseAddr host = Some peer"
  shows "clientIP trusted remoteAddr xff =
    (if isTrusted trusted (Unmap peer) then walk_hops trusted (Unmap peer) (rev (forwarded_hops xff))
     else addr_String (Unmap peer))"
  unfolding clientIP_def Let_def assms option.case prod.case by simp

text \<open>
  C34. A client cannot choose the address it is judged by. A peer that is not a trusted proxy gets its own
  address, whatever \<^verbatim>\<open>X-Forwarded-For\<close> says. Behind trusted proxies the address is the right-most hop that
  is not a trusted proxy: the entries to the left of it, which the client can write, have no influence.
\<close>

theorem client_cannot_choose_its_address:
  assumes "SplitHostPort remoteAddr = Some (host, port)" "ParseAddr host = Some peer"
  shows "(\<not> isTrusted trusted (Unmap peer) \<longrightarrow> clientIP trusted remoteAddr xff = addr_String (Unmap peer)) \<and>
    (\<forall>forged hop proxies ip. isTrusted trusted (Unmap peer) \<and> forwarded_hops xff = forged @ hop # proxies \<and>
       ParseAddr hop = Some ip \<and> \<not> isTrusted trusted (Unmap ip) \<and>
       (\<forall>h \<in> set proxies. \<exists>q. ParseAddr h = Some q \<and> isTrusted trusted (Unmap q)) \<longrightarrow>
       clientIP trusted remoteAddr xff = addr_String (Unmap ip))"
proof (intro conjI impI allI)
  show "clientIP trusted remoteAddr xff = addr_String (Unmap peer)" if "\<not> isTrusted trusted (Unmap peer)"
    unfolding clientIP_peer [OF assms] using that by simp
next
  fix forged hop proxies ip
  assume a: "isTrusted trusted (Unmap peer) \<and> forwarded_hops xff = forged @ hop # proxies \<and>
       ParseAddr hop = Some ip \<and> \<not> isTrusted trusted (Unmap ip) \<and>
       (\<forall>h \<in> set proxies. \<exists>q. ParseAddr h = Some q \<and> isTrusted trusted (Unmap q))"
  then have "walk_hops trusted (Unmap peer) (rev proxies @ hop # rev forged) = addr_String (Unmap ip)"
    by (intro walk_hops_trusted) auto
  with a show "clientIP trusted remoteAddr xff = addr_String (Unmap ip)"
    unfolding clientIP_peer [OF assms] by simp
qed

theorem client_cannot_choose_its_address_witness:
  "clientIP [Prefix (Addr4 [10, 0, 0, 0]) 8] ''10.0.0.2:4711'' [''1.2.3.4, 203.0.113.9'', '' 10.0.0.3''] = ''203.0.113.9''"
proof -
  let ?T = "[Prefix (Addr4 [10, 0, 0, 0]) 8]" and ?xff = "[''1.2.3.4, 203.0.113.9'', '' 10.0.0.3'']"
  have h: "SplitHostPort ''10.0.0.2:4711'' = Some (''10.0.0.2'', ''4711'')" "ParseAddr ''10.0.0.2'' = Some (Addr4 [10, 0, 0, 2])"
    by code_simp+
  have f: "forwarded_hops ?xff = [''1.2.3.4''] @ ''203.0.113.9'' # [''10.0.0.3'']"
    "ParseAddr ''203.0.113.9'' = Some (Addr4 [203, 0, 113, 9])" "ParseAddr ''10.0.0.3'' = Some (Addr4 [10, 0, 0, 3])"
    by code_simp+
  have t: "isTrusted ?T (Unmap (Addr4 [10, 0, 0, 2]))" "isTrusted ?T (Unmap (Addr4 [10, 0, 0, 3]))"
    "\<not> isTrusted ?T (Unmap (Addr4 [203, 0, 113, 9]))"
    by (simp_all add: isTrusted_def upt_rec bit_iff_odd)
  have "\<forall>h \<in> set [''10.0.0.3'']. \<exists>q. ParseAddr h = Some q \<and> isTrusted ?T (Unmap q)"
    using f(3) t(2) unfolding list.set by blast
  with t f have "isTrusted ?T (Unmap (Addr4 [10, 0, 0, 2])) \<and> forwarded_hops ?xff = [''1.2.3.4''] @ ''203.0.113.9'' # [''10.0.0.3''] \<and>
      ParseAddr ''203.0.113.9'' = Some (Addr4 [203, 0, 113, 9]) \<and> \<not> isTrusted ?T (Unmap (Addr4 [203, 0, 113, 9])) \<and>
      (\<forall>h \<in> set [''10.0.0.3'']. \<exists>q. ParseAddr h = Some q \<and> isTrusted ?T (Unmap q))" by (intro conjI)
  with conjunct2 [OF client_cannot_choose_its_address [OF h, of ?T ?xff]]
  have "clientIP ?T ''10.0.0.2:4711'' ?xff = addr_String (Unmap (Addr4 [203, 0, 113, 9]))" by (elim allE) (erule mp)
  moreover have "addr_String (Unmap (Addr4 [203, 0, 113, 9])) = ''203.0.113.9''" by code_simp
  ultimately show ?thesis by (rule trans)
qed

end
