(* ===== verification/Core_Window.thy ===== *)
theory Core_Window
  imports Go_Strings Go_Map
begin

text \<open>
  Fixed-window counting, the contract shared by the two rate limiters of the core service
  (\<^verbatim>\<open>authn/throttle.go\<close> and \<^verbatim>\<open>platform/httpx/ratelimit.go\<close>): a window opens with the first hit of a key and
  every hit in it is counted. The locale states what one hit does and what the other operations of the
  limiter may do to the counts; its lemmas show that a run answers as separate counters per key would,
  and how many hits can be let through in any interval. Times are nanoseconds.
\<close>

section \<open>Durations\<close>

definition secs :: "int \<Rightarrow> int" where
  "secs n = n * 1000000000"

section \<open>Windows\<close>

datatype 'e win_event = Hit string int | Other 'e int

fun win_time :: "'e win_event \<Rightarrow> int" where
  "win_time (Hit k now) = now"
| "win_time (Other e now) = now"

fun hits_of :: "string \<Rightarrow> 'e win_event list \<Rightarrow> int list" where
  "hits_of k [] = []"
| "hits_of k (Hit k' now # es) = (if k' = k then now # hits_of k es else hits_of k es)"
| "hits_of k (Other e now # es) = hits_of k es"

lemma hits_of_times: "set (hits_of k es) \<subseteq> set (map win_time es)"
  by (induction k es rule: hits_of.induct) auto

lemma hits_of_sorted: "sorted (map win_time es) \<Longrightarrow> sorted (hits_of k es)"
proof (induction k es rule: hits_of.induct)
  case (2 k k' now es)
  then show ?case using hits_of_times [of k es] by auto
qed auto

lemma within_limit:
  "length (filter P (map fst (filter (\<lambda>(now, n, u). n \<le> k) rs))) = length (filter (\<lambda>(now, n, u). P now \<and> n \<le> k) rs)"
  for rs :: "(int \<times> nat \<times> int) list"
  by (induction rs) auto

locale fixed_window =
  fixes invar :: "'s \<Rightarrow> bool"
    and entry :: "'s \<Rightarrow> string \<Rightarrow> (nat \<times> int) option"
    and hit :: "string \<Rightarrow> int \<Rightarrow> 's \<Rightarrow> (nat \<times> int) \<times> 's"
    and span :: "'s \<Rightarrow> int"
    and other :: "'e \<Rightarrow> int \<Rightarrow> 's \<Rightarrow> 's"
  assumes hit_invar: "invar s \<Longrightarrow> invar (snd (hit k now s))"
    and hit_span: "invar s \<Longrightarrow> span (snd (hit k now s)) = span s"
    and hit_count: "invar s \<Longrightarrow> fst (hit k now s) =
          (case entry s k of Some (n, t) \<Rightarrow> if now < t then (n + 1, t) else (1, now + span s) | None \<Rightarrow> (1, now + span s))"
    and hit_entry: "invar s \<Longrightarrow> entry (snd (hit k now s)) k = Some (fst (hit k now s))"
    and hit_other: "invar s \<Longrightarrow> k' \<noteq> k \<Longrightarrow> entry (snd (hit k now s)) k' = entry s k' \<or>
          entry (snd (hit k now s)) k' = None \<and> (\<exists>n t. entry s k' = Some (n, t) \<and> t \<le> now)"
    and other_invar: "invar s \<Longrightarrow> invar (other e now s)"
    and other_span: "invar s \<Longrightarrow> span (other e now s) = span s"
    and other_entry: "invar s \<Longrightarrow> entry (other e now s) k = entry s k \<or>
          entry (other e now s) k = None \<and> (\<exists>n t. entry s k = Some (n, t) \<and> t \<le> now)"
begin

text \<open>The counts and ends of window that the hits of the key \<open>k\<close> get in a run of operations.\<close>

fun answers :: "string \<Rightarrow> 'e win_event list \<Rightarrow> 's \<Rightarrow> (int \<times> nat \<times> int) list" where
  "answers k [] s = []"
| "answers k (Hit k' now # es) s =
     (case hit k' now s of (c, s') \<Rightarrow> (if k' = k then [(now, c)] else []) @ answers k es s')"
| "answers k (Other e now # es) s = answers k es (other e now s)"

text \<open>The specification: one counter, hit at the times of its own key.\<close>

fun counter :: "int \<Rightarrow> (nat \<times> int) option \<Rightarrow> int list \<Rightarrow> (int \<times> nat \<times> int) list" where
  "counter w e [] = []"
| "counter w e (now # ts) =
     (let c = (case e of Some (n, t) \<Rightarrow> if now < t then (n + 1, t) else (1, now + w) | None \<Rightarrow> (1, now + w))
      in (now, c) # counter w (Some c) ts)"

definition stale :: "int \<Rightarrow> (nat \<times> int) option \<Rightarrow> (nat \<times> int) option \<Rightarrow> bool" where
  "stale now e e' \<longleftrightarrow> e = e' \<or> e' = None \<and> (\<exists>n t. e = Some (n, t) \<and> t \<le> now)"

lemma counter_stale: "stale T e e' \<Longrightarrow> \<forall>t \<in> set ts. T \<le> t \<Longrightarrow> counter w e ts = counter w e' ts"
  by (cases ts) (auto simp: stale_def Let_def)

lemma stale_trans: "stale T e e' \<Longrightarrow> T \<le> T' \<Longrightarrow> stale T' e' e'' \<Longrightarrow> stale T' e e''"
  by (auto simp: stale_def)

text \<open>Each key has a counter of its own, whatever the other keys do and whenever old ones are dropped.\<close>

lemma answers_counter:
  "invar s \<Longrightarrow> sorted (T # map win_time es) \<Longrightarrow> stale T e (entry s k) \<Longrightarrow>
   answers k es s = counter (span s) e (hits_of k es)"
proof (induction es arbitrary: s T e)
  case (Cons ev es)
  show ?case
  proof (cases ev)
    case (Other x now)
    have srt: "sorted (now # map win_time es)" "T \<le> now" using Cons.prems(2) Other by auto
    have "stale now (entry s k) (entry (other x now s) k)"
      using other_entry [OF Cons.prems(1), of x now k] by (auto simp: stale_def)
    with Cons.prems(3) srt(2) have "stale now e (entry (other x now s) k)" by (rule stale_trans)
    from Cons.IH [OF other_invar [OF Cons.prems(1)] srt(1) this] show ?thesis
      using Other other_span [OF Cons.prems(1)] by simp
  next
    case (Hit k' now)
    obtain c s' where hit: "hit k' now s = (c, s')" by fastforce
    have s': "invar s'" "span s' = span s" using hit_invar [OF Cons.prems(1)] hit_span [OF Cons.prems(1)] hit by (metis snd_conv)+
    have srt: "sorted (now # map win_time es)" "T \<le> now" using Cons.prems(2) Hit by auto
    show ?thesis
    proof (cases "k' = k")
      case True
      have c: "c = (case e of Some (n, t) \<Rightarrow> if now < t then (n + 1, t) else (1, now + span s) | None \<Rightarrow> (1, now + span s))"
        using hit_count [OF Cons.prems(1), of k now] hit True Cons.prems(3) srt(2)
        by (auto simp: stale_def split: option.splits)
      have "entry s' k = Some c" using hit_entry [OF Cons.prems(1), of k now] hit True by simp
      then have "stale now (Some c) (entry s' k)" by (simp add: stale_def)
      from Cons.IH [OF s'(1) srt(1) this] show ?thesis
        using Hit hit True s'(2) c by (simp add: Let_def)
    next
      case False
      have "stale now (entry s k) (entry s' k)"
        using hit_other [OF Cons.prems(1), of k k' now] False hit by (auto simp: stale_def)
      with Cons.prems(3) srt(2) have "stale now e (entry s' k)" by (rule stale_trans)
      from Cons.IH [OF s'(1) srt(1) this] show ?thesis using Hit hit False s'(2) by simp
    qed
  qed
qed simp

text \<open>Two answers of one counter: counted in the same window, or a full window apart.\<close>

definition later :: "int \<Rightarrow> int \<times> nat \<times> int \<Rightarrow> int \<times> nat \<times> int \<Rightarrow> bool" where
  "later w x y \<longleftrightarrow> snd (snd x) = snd (snd y) \<and> fst (snd x) < fst (snd y) \<or> snd (snd x) + w \<le> snd (snd y)"

lemma later_trans: "0 < w \<Longrightarrow> later w x y \<Longrightarrow> later w y z \<Longrightarrow> later w x z"
  by (auto simp: later_def)

lemma counter_after: "0 < w \<Longrightarrow> x \<in> set (counter w (Some (n, t)) ts) \<Longrightarrow> later w (now, n, t) x"
proof (induction ts arbitrary: n t now)
  case (Cons now' ts)
  let ?c = "if now' < t then (n + 1, t) else (1, now' + w)"
  have first: "later w (now, n, t) (now', ?c)" by (auto simp: later_def)
  consider "x = (now', ?c)" | "x \<in> set (counter w (Some (fst ?c, snd ?c)) ts)" using Cons.prems(2) by (auto simp: Let_def)
  then show ?case
  proof cases
    case 1
    with first show ?thesis by simp
  next
    case 2
    with Cons.IH [of "fst ?c" "snd ?c" now'] Cons.prems(1) have "later w (now', ?c) x" by simp
    with later_trans [OF Cons.prems(1) first] show ?thesis by blast
  qed
qed simp

lemma counter_sorted: "0 < w \<Longrightarrow> sorted_wrt (later w) (counter w e ts)"
proof (induction ts arbitrary: e)
  case (Cons now ts)
  let ?c = "case e of Some (n, t) \<Rightarrow> if now < t then (n + 1, t) else (1, now + w) | None \<Rightarrow> (1, now + w)"
  obtain n t where c: "?c = (n, t)" by fastforce
  then show ?case using Cons.IH [OF Cons.prems] counter_after [OF Cons.prems, of _ n t ts now] by (simp add: Let_def)
qed simp

lemma counter_times:
  assumes "0 < w" "sorted ts" "\<And>n t x. e = Some (n, t) \<Longrightarrow> x \<in> set ts \<Longrightarrow> t \<le> x + w" "(now, n, t) \<in> set (counter w e ts)"
  shows "now < t \<and> t \<le> now + w \<and> 1 \<le> n"
  using assms(2-4)
proof (induction ts arbitrary: e)
  case (Cons now' ts)
  obtain cn ct where c: "(case e of Some (n, t) \<Rightarrow> if now' < t then (n + 1, t) else (1, now' + w) | None \<Rightarrow> (1, now' + w)) = (cn, ct)"
    by fastforce
  have ct: "ct \<le> now' + w" "now' < ct" "1 \<le> cn"
    using Cons.prems(2) [of _ _ now'] assms(1) c by (auto split: option.splits if_splits)
  have "counter w e (now' # ts) = (now', cn, ct) # counter w (Some (cn, ct)) ts" by (simp add: c Let_def)
  with Cons.prems(3) consider "(now, n, t) = (now', cn, ct)" | "(now, n, t) \<in> set (counter w (Some (cn, ct)) ts)" by auto
  then show ?case
  proof cases
    case 1
    with ct show ?thesis by simp
  next
    case 2
    have "ct \<le> x + w" if "x \<in> set ts" for x using Cons.prems(1) that ct(1) by fastforce
    then show ?thesis using Cons.prems(1) by (intro Cons.IH [OF _ _ 2]) auto
  qed
qed simp

text \<open>At most \<open>limit\<close> answers within the limit belong to one window.\<close>

lemma one_window:
  assumes "sorted_wrt (later w) rs" "0 < w" "\<And>now n t. (now, n, t) \<in> set rs \<Longrightarrow> t = a \<and> 1 \<le> n \<and> n \<le> limit"
  shows "length rs \<le> limit"
proof -
  let ?ns = "map (fst \<circ> snd) rs"
  have "sorted_wrt (<) ?ns"
    unfolding sorted_wrt_map
  proof (rule sorted_wrt_mono_rel [OF _ assms(1)])
    fix x y assume "x \<in> set rs" "y \<in> set rs" "later w x y"
    then show "(fst \<circ> snd) x < (fst \<circ> snd) y"
      using assms(2) assms(3) [of "fst x" "fst (snd x)" "snd (snd x)"] assms(3) [of "fst y" "fst (snd y)" "snd (snd y)"]
      by (auto simp: later_def)
  qed
  then have "distinct ?ns" using strict_sorted_iff by blast
  moreover have "set ?ns \<subseteq> {1..limit}" using assms(3) by fastforce
  ultimately have "length ?ns \<le> card {1..limit}" by (metis card_mono distinct_card finite_atLeastAtMost)
  then show ?thesis by simp
qed

lemma two_windows:
  assumes "sorted_wrt (later w) rs" "0 < w"
    and "\<And>now n t. (now, n, t) \<in> set rs \<Longrightarrow> x < t \<and> t < x + 2 * w \<and> 1 \<le> n \<and> n \<le> limit"
  shows "length rs \<le> 2 * limit"
proof (cases rs)
  case (Cons f rs')
  let ?fin = "\<lambda>r :: int \<times> nat \<times> int. snd (snd r)"
  let ?A = "filter (\<lambda>r. ?fin r = ?fin f) rs" and ?B = "filter (\<lambda>r. ?fin r \<noteq> ?fin f) rs"
  have A: "length ?A \<le> limit"
    using assms(3) by (intro one_window [OF sorted_wrt_filter [OF assms(1)] assms(2), of _ "?fin f"]) auto
  have B: "length ?B \<le> limit"
  proof (cases ?B)
    case (Cons g B')
    have "g \<in> set ?B" unfolding Cons by simp
    then have g: "g \<in> set rs'" "?fin g \<noteq> ?fin f" using \<open>rs = f # rs'\<close> by auto
    have fg: "?fin f + w \<le> ?fin g"
      using assms(1) g \<open>rs = f # rs'\<close> by (auto simp: later_def)
    have "?fin r = ?fin g" if "r \<in> set ?B" for r
    proof (rule ccontr)
      assume ne: "?fin r \<noteq> ?fin g"
      then have "r \<in> set B'" using that Cons by auto
      moreover have "sorted_wrt (later w) (g # B')" using sorted_wrt_filter [OF assms(1)] Cons by metis
      ultimately have "?fin g + w \<le> ?fin r" using ne by (auto simp: later_def)
      moreover have "x < ?fin f" "?fin r < x + 2 * w"
        using assms(3) [of "fst f" "fst (snd f)" "?fin f"] assms(3) [of "fst r" "fst (snd r)" "?fin r"] that \<open>rs = f # rs'\<close> by auto
      ultimately show False using fg by linarith
    qed
    then show ?thesis
      using assms(3) by (intro one_window [OF sorted_wrt_filter [OF assms(1)] assms(2), of _ "?fin g"]) fastforce
  qed simp
  show ?thesis using A B sum_length_filter_compl [of "\<lambda>r. ?fin r = ?fin f" rs] by simp
qed simp

text \<open>In any interval as long as the window, at most twice the limit is let through.\<close>

lemma burst_bound:
  assumes "invar s" "entry s k = None" "0 < span s" "sorted (map win_time es)"
  shows "length (filter (\<lambda>(now, n, t). x \<le> now \<and> now < x + span s \<and> n \<le> limit) (answers k es s)) \<le> 2 * limit"
proof (cases es)
  case (Cons ev es')
  have "sorted (win_time ev # map win_time es)" using assms(4) Cons by simp
  then have ans: "answers k es s = counter (span s) None (hits_of k es)"
    by (rule answers_counter [OF assms(1)]) (simp add: stale_def assms(2))
  note times = counter_times [OF assms(3) hits_of_sorted [OF assms(4), of k], of None]
  show ?thesis
    unfolding ans
  proof (rule two_windows [OF sorted_wrt_filter [OF counter_sorted [OF assms(3)]] assms(3)])
    fix now n t
    assume "(now, n, t) \<in> set (filter (\<lambda>(now, n, t). x \<le> now \<and> now < x + span s \<and> n \<le> limit) (counter (span s) None (hits_of k es)))"
    then show "x < t \<and> t < x + 2 * span s \<and> 1 \<le> n \<and> n \<le> limit" using times [of now n t] by auto
  qed
qed simp

end

end
