(* ===== verification/Core_Throttle.thy ===== *)
theory Core_Throttle
  imports Core_Window
begin

text \<open>
  The brute-force brake of the core service's sign-in (\<^verbatim>\<open>streamhub-core-go/internal/authn/throttle.go\<close> and the
  reading of its settings): a fixed window per client address and a lockout per account that doubles
  with every further failure. Times and durations are nanoseconds; the product in \<^verbatim>\<open>Fail\<close> is a
  \<^verbatim>\<open>time.Duration\<close> and wraps at 64 bits. The zero time is \<open>None\<close>. A refusal is the number of seconds of its
  \<^verbatim>\<open>Retry-After\<close>, \<open>None\<close> is the nil error.
\<close>

section \<open>The throttle\<close>

record ipHits =
  ih_hits :: nat
  ih_resetAt :: int

record accountFails =
  af_fails :: nat
  af_lockedUntil :: "int option"
  af_last :: int

record Throttle =
  th_ipMax :: int
  th_failMax :: int
  th_window :: int
  th_baseDelay :: int
  th_maxDelay :: int
  th_ips :: "(string \<times> ipHits) list"
  th_accounts :: "(string \<times> accountFails) list"
  th_nextSweep :: "int option"

record ThrottleConfig =
  tc_IPMax :: int
  tc_FailMax :: int
  tc_Window :: int
  tc_BaseDelay :: int
  tc_MaxDelay :: int

definition defaultAuthIPLimit :: int where "defaultAuthIPLimit = 10"
definition defaultAuthAccountFails :: int where "defaultAuthAccountFails = 5"

text \<open>\<^verbatim>\<open>config.ParseIntPrefix\<close>: the longest prefix that the pattern \<^verbatim>\<open>^\s*[+-]?\d+\<close> matches.\<close>

definition re_space :: "char \<Rightarrow> bool" where
  "re_space c = (of_char c \<in> {9, 10, 12, 13, 32 :: nat})"

definition intPrefix :: "string \<Rightarrow> string" where
  "intPrefix v =
     (let sp = takeWhile re_space v;
          r = dropWhile re_space v;
          sg = (case r of c # _ \<Rightarrow> if c = CHR ''+'' \<or> c = CHR ''-'' then [c] else [] | [] \<Rightarrow> []);
          ds = takeWhile is_digit (drop (length sg) r)
      in if ds = [] then [] else sp @ sg @ ds)"

definition ParseIntPrefix :: "string \<Rightarrow> int option" where
  "ParseIntPrefix v = (let m = intPrefix v in if m = [] then None else Atoi (TrimSpace m))"

definition read_setting :: "(string \<Rightarrow> string) \<Rightarrow> string \<Rightarrow> int \<Rightarrow> int" where
  "read_setting env name def =
     (let raw = TrimSpace (env name)
      in if raw = [] then def
         else case ParseIntPrefix raw of None \<Rightarrow> def | Some n \<Rightarrow> if n < 0 then def else n)"

definition ThrottleConfigFromEnv :: "(string \<Rightarrow> string) \<Rightarrow> ThrottleConfig" where
  "ThrottleConfigFromEnv env =
     \<lparr>tc_IPMax = read_setting env ''STREAMHUB_AUTH_IP_LIMIT'' defaultAuthIPLimit,
      tc_FailMax = read_setting env ''STREAMHUB_AUTH_ACCOUNT_FAILS'' defaultAuthAccountFails,
      tc_Window = 0, tc_BaseDelay = 0, tc_MaxDelay = 0\<rparr>"

definition NewThrottle :: "ThrottleConfig \<Rightarrow> Throttle" where
  "NewThrottle c =
     \<lparr>th_ipMax = tc_IPMax c, th_failMax = tc_FailMax c,
      th_window = (if tc_Window c \<le> 0 then secs 60 else tc_Window c),
      th_baseDelay = (if tc_BaseDelay c \<le> 0 then secs 30 else tc_BaseDelay c),
      th_maxDelay = (if tc_MaxDelay c \<le> 0 then secs 900 else tc_MaxDelay c),
      th_ips = [], th_accounts = [], th_nextSweep = None\<rparr>"

definition after :: "int option \<Rightarrow> int \<Rightarrow> bool" where
  "after t now = (case t of Some u \<Rightarrow> now < u | None \<Rightarrow> False)"

definition sweep_throttle :: "int \<Rightarrow> Throttle \<Rightarrow> Throttle" where
  "sweep_throttle now t =
     (if after (th_nextSweep t) now then t
      else t\<lparr>th_nextSweep := Some (now + th_window t),
             th_ips := filter (\<lambda>(k, h). now < ih_resetAt h) (th_ips t),
             th_accounts := filter (\<lambda>(k, a). after (af_lockedUntil a) now \<or> now - af_last a \<le> 2 * th_maxDelay t) (th_accounts t)\<rparr>)"

text \<open>\<^verbatim>\<open>throttled\<close>: whole seconds, rounded up, at least one.\<close>

definition throttled :: "int \<Rightarrow> int" where
  "throttled wait = max 1 (- ((- wait) div 1000000000))"

text \<open>The counting part of \<^verbatim>\<open>Attempt\<close>.\<close>

definition ip_hit :: "string \<Rightarrow> int \<Rightarrow> Throttle \<Rightarrow> (nat \<times> int) \<times> Throttle" where
  "ip_hit ip now t =
     (let t1 = sweep_throttle now t;
          fresh = \<lparr>ih_hits = 0, ih_resetAt = now + th_window t1\<rparr>;
          h = (case map_of (th_ips t1) ip of Some h \<Rightarrow> if now < ih_resetAt h then h else fresh | None \<Rightarrow> fresh);
          h' = h\<lparr>ih_hits := ih_hits h + 1\<rparr>
      in ((ih_hits h', ih_resetAt h'), t1\<lparr>th_ips := AList.update ip h' (th_ips t1)\<rparr>))"

definition Attempt :: "string option \<Rightarrow> int \<Rightarrow> Throttle \<Rightarrow> int option \<times> Throttle" where
  "Attempt ip now t =
     (case ip of
        None \<Rightarrow> (None, t)
      | Some i \<Rightarrow>
          if th_ipMax t \<le> 0 \<or> i = [] then (None, t)
          else case ip_hit i now t of ((n, resetAt), t') \<Rightarrow>
            (if int n > th_ipMax t then Some (throttled (resetAt - now)) else None, t'))"

definition Locked :: "string \<Rightarrow> int \<Rightarrow> Throttle \<Rightarrow> int option" where
  "Locked account now t =
     (if th_failMax t \<le> 0 \<or> account = [] then None
      else case map_of (th_accounts t) account of
        None \<Rightarrow> None
      | Some a \<Rightarrow>
          (case af_lockedUntil a of
             None \<Rightarrow> None
           | Some u \<Rightarrow> if now < u then Some (throttled (u - now)) else None))"

definition backoff :: "Throttle \<Rightarrow> nat \<Rightarrow> int" where
  "backoff t fails =
     (let ex = fails - nat (th_failMax t)
      in if ex < 32 then min (th_maxDelay t) (mul64 (th_baseDelay t) (2 ^ ex)) else th_maxDelay t)"

definition Fail :: "string \<Rightarrow> int \<Rightarrow> Throttle \<Rightarrow> Throttle" where
  "Fail account now t =
     (if th_failMax t \<le> 0 \<or> account = [] then t
      else let t1 = sweep_throttle now t;
               a = (case map_of (th_accounts t1) account of
                      Some a \<Rightarrow> a | None \<Rightarrow> \<lparr>af_fails = 0, af_lockedUntil = None, af_last = 0\<rparr>);
               a1 = a\<lparr>af_fails := af_fails a + 1, af_last := now\<rparr>;
               a2 = (if int (af_fails a1) \<ge> th_failMax t
                     then a1\<lparr>af_lockedUntil := Some (now + backoff t (af_fails a1))\<rparr> else a1)
           in t1\<lparr>th_accounts := AList.update account a2 (th_accounts t1)\<rparr>)"

definition Succeed :: "string \<Rightarrow> Throttle \<Rightarrow> Throttle" where
  "Succeed account t = (if account = [] then t else t\<lparr>th_accounts := AList.delete account (th_accounts t)\<rparr>)"

definition accountKey :: "(string \<Rightarrow> string) \<Rightarrow> string option \<Rightarrow> string \<Rightarrow> string" where
  "accountKey lower email i =
     (case email of Some e \<Rightarrow> if e \<noteq> [] then ToLower lower (TrimSpace e) else ''id:'' @ i | None \<Rightarrow> ''id:'' @ i)"

section \<open>Attempts per address\<close>

datatype account_op = Failing string | Succeeding string

fun account_step :: "account_op \<Rightarrow> int \<Rightarrow> Throttle \<Rightarrow> Throttle" where
  "account_step (Failing a) now t = Fail a now t"
| "account_step (Succeeding a) now t = Succeed a t"

definition th_ok :: "Throttle \<Rightarrow> bool" where
  "th_ok t \<longleftrightarrow> distinct (map fst (th_ips t)) \<and> distinct (map fst (th_accounts t))"

definition ip_entry :: "Throttle \<Rightarrow> string \<Rightarrow> (nat \<times> int) option" where
  "ip_entry t ip = map_option (\<lambda>h. (ih_hits h, ih_resetAt h)) (map_of (th_ips t) ip)"

lemma sweep_throttle_ok [simp]: "th_ok t \<Longrightarrow> th_ok (sweep_throttle now t)"
  by (simp add: sweep_throttle_def th_ok_def distinct_map_filter)

lemma sweep_throttle_const [simp]:
  "th_window (sweep_throttle now t) = th_window t" "th_failMax (sweep_throttle now t) = th_failMax t"
  "th_baseDelay (sweep_throttle now t) = th_baseDelay t" "th_maxDelay (sweep_throttle now t) = th_maxDelay t"
  "th_ipMax (sweep_throttle now t) = th_ipMax t"
  by (simp_all add: sweep_throttle_def)

lemma sweep_ip_entry:
  assumes "th_ok t"
  shows "ip_entry (sweep_throttle now t) k = ip_entry t k \<or>
         ip_entry (sweep_throttle now t) k = None \<and> (\<exists>n u. ip_entry t k = Some (n, u) \<and> u \<le> now)"
  using assms by (cases "map_of (th_ips t) k")
    (auto simp: sweep_throttle_def ip_entry_def th_ok_def map_of_filter simp del: map_of_eq_Some_iff)

lemma Fail_const [simp]:
  "th_window (Fail a now t) = th_window t" "th_ips (Fail a now t) = (if th_failMax t \<le> 0 \<or> a = [] then th_ips t else th_ips (sweep_throttle now t))"
  "th_failMax (Fail a now t) = th_failMax t" "th_baseDelay (Fail a now t) = th_baseDelay t"
  "th_maxDelay (Fail a now t) = th_maxDelay t" "th_ipMax (Fail a now t) = th_ipMax t"
  by (simp_all add: Fail_def Let_def)

lemma Fail_ok: "th_ok t \<Longrightarrow> th_ok (Fail a now t)"
  using sweep_throttle_ok [of t now] by (simp add: Fail_def Let_def th_ok_def distinct_update)

interpretation ipw: fixed_window th_ok ip_entry ip_hit th_window account_step
proof
  fix t k k' now and e :: account_op
  assume ok: "th_ok t"
  note sw = sweep_ip_entry [OF ok, of now]
  show "th_ok (snd (ip_hit k now t))"
    using sweep_throttle_ok [OF ok, of now] by (simp add: ip_hit_def Let_def th_ok_def distinct_update)
  show "th_window (snd (ip_hit k now t)) = th_window t" by (simp add: ip_hit_def Let_def)
  show "fst (ip_hit k now t) = (case ip_entry t k of
      Some (n, u) \<Rightarrow> if now < u then (n + 1, u) else (1, now + th_window t) | None \<Rightarrow> (1, now + th_window t))"
    using sw [of k] by (auto simp: ip_hit_def Let_def ip_entry_def split: option.splits)
  show "ip_entry (snd (ip_hit k now t)) k = Some (fst (ip_hit k now t))"
    by (simp add: ip_hit_def Let_def ip_entry_def update_conv')
  show "ip_entry (snd (ip_hit k now t)) k' = ip_entry t k' \<or>
      ip_entry (snd (ip_hit k now t)) k' = None \<and> (\<exists>n u. ip_entry t k' = Some (n, u) \<and> u \<le> now)" if "k' \<noteq> k"
    using sw [of k'] that by (simp add: ip_hit_def Let_def ip_entry_def update_conv')
  show "th_ok (account_step e now t)"
    using ok Fail_ok by (cases e) (auto simp: Succeed_def th_ok_def distinct_delete)
  show "th_window (account_step e now t) = th_window t" by (cases e) (simp_all add: Succeed_def)
  show "ip_entry (account_step e now t) k = ip_entry t k \<or>
      ip_entry (account_step e now t) k = None \<and> (\<exists>n u. ip_entry t k = Some (n, u) \<and> u \<le> now)"
    using sw [of k] by (cases e) (auto simp: Succeed_def ip_entry_def)
qed

text \<open>One operation of a run, and the times at which attempts from an address are let through.\<close>

fun th_step :: "Throttle \<Rightarrow> account_op win_event \<Rightarrow> Throttle" where
  "th_step t (Hit ip now) = snd (Attempt (Some ip) now t)"
| "th_step t (Other e now) = account_step e now t"

fun admitted :: "string \<Rightarrow> account_op win_event list \<Rightarrow> Throttle \<Rightarrow> int list" where
  "admitted ip [] t = []"
| "admitted ip (Hit i now # es) t =
     (if i = ip \<and> fst (Attempt (Some i) now t) = None then [now] else []) @ admitted ip es (th_step t (Hit i now))"
| "admitted ip (Other e now # es) t = admitted ip es (th_step t (Other e now))"

fun counted :: "account_op win_event \<Rightarrow> bool" where
  "counted (Hit i now) = (i \<noteq> [])"
| "counted (Other e now) = True"

lemma ip_hit_ipMax [simp]: "th_ipMax (snd (ip_hit k now t)) = th_ipMax t"
  by (simp add: ip_hit_def Let_def)

lemma account_step_ipMax [simp]: "th_ipMax (account_step e now t) = th_ipMax t"
  by (cases e) (simp_all add: Succeed_def)

lemma admitted_answers:
  "0 < th_ipMax t \<Longrightarrow> ip \<noteq> [] \<Longrightarrow>
   admitted ip es t = map fst (filter (\<lambda>(now, n, u). n \<le> nat (th_ipMax t)) (ipw.answers ip (filter counted es) t))"
proof (induction ip es t rule: admitted.induct)
  case (2 ip i now es t)
  obtain n u t' where h: "ip_hit i now t = ((n, u), t')" by (metis prod.exhaust)
  have m: "th_ipMax t' = th_ipMax t" using ip_hit_ipMax [of i now t] h by simp
  show ?case
  proof (cases "i = []")
    case True
    then show ?thesis using 2 by (simp add: Attempt_def)
  next
    case False
    have a: "Attempt (Some i) now t = (if int n > th_ipMax t then Some (throttled (u - now)) else None, t')"
      using False "2.prems" h by (simp add: Attempt_def)
    have "admitted ip es t' = map fst (filter (\<lambda>(now, n, u). n \<le> nat (th_ipMax t)) (ipw.answers ip (filter counted es) t'))"
      using "2.IH" "2.prems" m a by simp
    moreover have "n \<le> nat (th_ipMax t) \<longleftrightarrow> \<not> int n > th_ipMax t" using "2.prems"(1) by linarith
    ultimately show ?thesis using False h a by auto
  qed
qed simp_all

section \<open>Lockout per account\<close>

text \<open>The consecutive failures of an account: those since its last success.\<close>

fun fail_step :: "string \<Rightarrow> int list \<Rightarrow> account_op win_event \<Rightarrow> int list" where
  "fail_step a H (Other (Failing b) now) = (if b = a then H @ [now] else H)"
| "fail_step a H (Other (Succeeding b) now) = (if b = a then [] else H)"
| "fail_step a H (Hit i now) = H"

text \<open>No operation comes more than \<open>g\<close> after the account's latest failure, so that it is not forgotten.\<close>

fun steady :: "string \<Rightarrow> int \<Rightarrow> int list \<Rightarrow> account_op win_event list \<Rightarrow> bool" where
  "steady a g H [] = True"
| "steady a g H (ev # es) = ((H = [] \<or> win_time ev \<le> last H + g) \<and> steady a g (fail_step a H ev) es)"

definition account_of :: "Throttle \<Rightarrow> int list \<Rightarrow> accountFails option" where
  "account_of t H =
     (if H = [] then None
      else Some \<lparr>af_fails = length H,
                 af_lockedUntil = (if int (length H) \<ge> th_failMax t then Some (last H + backoff t (length H)) else None),
                 af_last = last H\<rparr>)"

lemma sweep_account:
  assumes "th_ok t" "map_of (th_accounts t) a = account_of t H" "H = [] \<or> now \<le> last H + 2 * th_maxDelay t"
  shows "map_of (th_accounts (sweep_throttle now t)) a = account_of t H"
  using assms by (cases "H = []") (auto simp: sweep_throttle_def th_ok_def map_of_filter account_of_def simp del: map_of_eq_Some_iff)

lemma backoff_cong:
  "th_failMax t = th_failMax t' \<Longrightarrow> th_baseDelay t = th_baseDelay t' \<Longrightarrow> th_maxDelay t = th_maxDelay t' \<Longrightarrow>
   backoff t n = backoff t' n \<and> account_of t H = account_of t' H"
  by (simp add: backoff_def account_of_def Let_def)

lemma th_step_const [simp]:
  "th_failMax (th_step t ev) = th_failMax t" "th_baseDelay (th_step t ev) = th_baseDelay t"
  "th_maxDelay (th_step t ev) = th_maxDelay t"
proof -
  have hit: "th_failMax (snd (Attempt (Some i) now t)) = th_failMax t \<and> th_baseDelay (snd (Attempt (Some i) now t)) = th_baseDelay t \<and>
      th_maxDelay (snd (Attempt (Some i) now t)) = th_maxDelay t" for i now
    by (simp add: Attempt_def ip_hit_def Let_def)
  have other: "th_failMax (account_step e now t) = th_failMax t \<and> th_baseDelay (account_step e now t) = th_baseDelay t \<and>
      th_maxDelay (account_step e now t) = th_maxDelay t" for e now
    by (cases e) (simp_all add: Succeed_def)
  show "th_failMax (th_step t ev) = th_failMax t" "th_baseDelay (th_step t ev) = th_baseDelay t"
    "th_maxDelay (th_step t ev) = th_maxDelay t"
    using hit other by (cases ev; simp)+
qed

lemma th_step_ok: "th_ok t \<Longrightarrow> th_ok (th_step t ev)"
proof (cases ev)
  case (Hit i now)
  assume ok: "th_ok t"
  show ?thesis using ipw.hit_invar [OF ok, of i now] ok Hit by (auto simp: Attempt_def split: prod.splits)
qed (simp add: ipw.other_invar)

lemma th_step_account:
  assumes "th_ok t" "map_of (th_accounts t) a = account_of t H" "H = [] \<or> win_time ev \<le> last H + 2 * th_maxDelay t"
    and "0 < th_failMax t" "a \<noteq> []"
  shows "map_of (th_accounts (th_step t ev)) a = account_of t (fail_step a H ev)"
proof (cases ev)
  case (Hit i now)
  then show ?thesis
    using assms(2) sweep_account [OF assms(1,2), of now] assms(3) by (auto simp: Attempt_def ip_hit_def Let_def)
next
  case (Other e now)
  note sw = sweep_account [OF assms(1,2), of now]
  show ?thesis
  proof (cases e)
    case (Failing b)
    show ?thesis
    proof (cases "b = a")
      case True
      with Failing Other assms sw show ?thesis
        by (simp add: Fail_def Let_def update_conv' account_of_def)
    next
      case False
      with Failing Other assms sw show ?thesis by (simp add: Fail_def Let_def update_conv')
    qed
  next
    case (Succeeding b)
    with Other assms(2) show ?thesis by (auto simp: Succeed_def delete_conv' account_of_def assms(5))
  qed
qed

lemma th_run_account:
  "th_ok t \<Longrightarrow> map_of (th_accounts t) a = account_of t H \<Longrightarrow> steady a (2 * th_maxDelay t) H es \<Longrightarrow>
   0 < th_failMax t \<Longrightarrow> a \<noteq> [] \<Longrightarrow>
   map_of (th_accounts (foldl th_step t es)) a = account_of t (foldl (fail_step a) H es) \<and>
   th_failMax (foldl th_step t es) = th_failMax t"
proof (induction es arbitrary: t H)
  case (Cons ev es)
  have "map_of (th_accounts (th_step t ev)) a = account_of (th_step t ev) (fail_step a H ev)"
    using th_step_account [OF Cons.prems(1,2) _ Cons.prems(4,5), of ev] Cons.prems(3)
      backoff_cong [of "th_step t ev" t] by simp
  from Cons.IH [OF th_step_ok [OF Cons.prems(1)] this] Cons.prems backoff_cong [of "th_step t ev" t]
  show ?case by simp
qed simp

section \<open>Properties\<close>

text \<open>
  C31. An address cannot try more often than twice the limit per window. In every run of the throttle with
  a clock that does not go back, attempts of all addresses, failures and successes in any order, at
  most twice \<^verbatim>\<open>IPMax\<close> attempts of one address are let through in any interval as long as the window.
\<close>

theorem attempts_are_bounded:
  assumes "0 < tc_IPMax c" "ip \<noteq> []" "sorted (map win_time es)"
  shows "length (filter (\<lambda>now. x \<le> now \<and> now < x + th_window (NewThrottle c)) (admitted ip es (NewThrottle c))) \<le>
         2 * nat (tc_IPMax c)"
proof -
  let ?t = "NewThrottle c" and ?es = "filter counted es"
  have m: "th_ipMax ?t = tc_IPMax c" by (simp add: NewThrottle_def)
  have "sorted (map win_time ?es)" using assms(3) by (rule sorted_filter)
  then have "length (filter (\<lambda>(now, n, u). x \<le> now \<and> now < x + th_window ?t \<and> n \<le> nat (tc_IPMax c)) (ipw.answers ip ?es ?t)) \<le>
      2 * nat (tc_IPMax c)"
    by (intro ipw.burst_bound) (simp_all add: th_ok_def ip_entry_def NewThrottle_def secs_def)
  moreover have "admitted ip es ?t = map fst (filter (\<lambda>(now, n, u). n \<le> nat (tc_IPMax c)) (ipw.answers ip ?es ?t))"
    using admitted_answers [of ?t ip es] assms(1,2) m by simp
  ultimately show ?thesis by (simp only: within_limit conj_assoc)
qed

theorem attempts_are_bounded_witness:
  "length (filter (\<lambda>now. 0 \<le> now \<and> now < 0 + th_window (NewThrottle (ThrottleConfigFromEnv (\<lambda>_. []))))
     (admitted ''10.0.0.7'' (map (Hit ''10.0.0.7'') [1, 2, 3]) (NewThrottle (ThrottleConfigFromEnv (\<lambda>_. []))))) \<le>
   2 * nat (tc_IPMax (ThrottleConfigFromEnv (\<lambda>_. [])))"
proof (rule attempts_are_bounded)
  have "TrimSpace [] = []" by code_simp
  then show "0 < tc_IPMax (ThrottleConfigFromEnv (\<lambda>_. []))"
    by (simp add: ThrottleConfigFromEnv_def read_setting_def defaultAuthIPLimit_def)
qed simp_all

text \<open>
  C26. The lockout is the documented one as long as the product does not overflow. After \<open>n\<close> consecutive
  failures of an account, none of them forgotten for idleness, the account is refused exactly until the
  last failure plus \<^verbatim>\<open>BaseDelay * 2^(n - FailMax)\<close>, at most \<^verbatim>\<open>MaxDelay\<close>, and not at all below \<^verbatim>\<open>FailMax\<close>
  failures, whatever other accounts and addresses do in between.
\<close>

theorem lockout_is_exact:
  fixes c :: ThrottleConfig and a :: string and es :: "account_op win_event list"
  defines "t0 \<equiv> NewThrottle c" and "H \<equiv> foldl (fail_step a) [] es"
  defines "d \<equiv> th_baseDelay t0 * 2 ^ (length H - nat (tc_FailMax c))"
  assumes "0 < tc_FailMax c" "a \<noteq> []" "steady a (2 * th_maxDelay t0) [] es"
    and "length H - nat (tc_FailMax c) < 32" "d < 2 ^ 63"
  shows "Locked a now (foldl th_step t0 es) =
    (if tc_FailMax c \<le> int (length H) \<and> now < last H + min (th_maxDelay t0) d
     then Some (throttled (last H + min (th_maxDelay t0) d - now)) else None)"
proof -
  have "0 < th_baseDelay t0" by (simp add: t0_def NewThrottle_def secs_def)
  then have "0 \<le> d" by (simp add: d_def)
  have f: "th_failMax t0 = tc_FailMax c" by (simp add: t0_def NewThrottle_def)
  have b: "backoff t0 (length H) = min (th_maxDelay t0) d"
    using assms(7,8) \<open>0 \<le> d\<close> mul64_small [of "th_baseDelay t0"] unfolding backoff_def f d_def by (simp add: Let_def)
  have "th_ok t0" "map_of (th_accounts t0) a = account_of t0 []"
    by (simp_all add: t0_def NewThrottle_def th_ok_def account_of_def)
  from th_run_account [OF this assms(6) _ assms(5)] assms(4) f
  have "map_of (th_accounts (foldl th_step t0 es)) a = account_of t0 H" "th_failMax (foldl th_step t0 es) = tc_FailMax c"
    by (auto simp: H_def)
  then show ?thesis using assms(4,5) f b by (auto simp: Locked_def account_of_def)
qed

definition demo_throttle :: ThrottleConfig where
  "demo_throttle = \<lparr>tc_IPMax = 10, tc_FailMax = 5, tc_Window = 0, tc_BaseDelay = 0, tc_MaxDelay = 0\<rparr>"

theorem lockout_is_exact_witness:
  "Locked ''ann'' (secs 60) (foldl th_step (NewThrottle demo_throttle) (map (\<lambda>s. Other (Failing ''ann'') (secs s)) [1, 2, 3, 4, 5, 40])) =
     Some (throttled (secs 40))"
proof -
  let ?es = "map (\<lambda>s. Other (Failing ''ann'') (secs s)) [1, 2, 3, 4, 5, 40]"
  have H: "foldl (fail_step ''ann'') [] ?es = map secs [1, 2, 3, 4, 5, 40]" by simp
  have p: "0 < tc_FailMax demo_throttle" "(''ann'' :: string) \<noteq> []"
    "steady ''ann'' (2 * th_maxDelay (NewThrottle demo_throttle)) [] ?es"
    "length (foldl (fail_step ''ann'') [] ?es) - nat (tc_FailMax demo_throttle) < 32"
    "th_baseDelay (NewThrottle demo_throttle) * 2 ^ (length (foldl (fail_step ''ann'') [] ?es) - nat (tc_FailMax demo_throttle)) < 2 ^ 63"
    by (simp_all add: demo_throttle_def NewThrottle_def secs_def)
  show ?thesis
    using lockout_is_exact [OF p, of "secs 60"] unfolding H by (simp add: demo_throttle_def NewThrottle_def secs_def)
qed

text \<open>
  C35. The back-off overflows. With the default delays the factor \<^verbatim>\<open>2^29\<close> of the thirty-fourth consecutive
  failure takes the product of 64 bits below zero: the delay is negative and the account is not
  locked at all, where the documentation promises fifteen minutes.
\<close>

theorem backoff_overflows:
  assumes "th_failMax t = 5" "th_baseDelay t = secs 30" "th_maxDelay t = secs 900" "th_ok t"
    and "map_of (th_accounts t) a = Some acc" "af_fails acc = 33" "now - af_last acc \<le> secs 1800" "a \<noteq> []"
  shows "Locked a now (Fail a now t) = None \<and> map_option af_fails (map_of (th_accounts (Fail a now t)) a) = Some 34"
proof -
  have "map_of (th_accounts (sweep_throttle now t)) a = Some acc"
    using assms by (simp add: sweep_throttle_def map_of_filter th_ok_def secs_def del: map_of_eq_Some_iff)
  moreover have "backoff t 34 < 0"
    using assms(1-3) by (simp add: backoff_def mul64_def secs_def)
  ultimately show ?thesis
    using assms(1,6,8) by (simp add: Locked_def Fail_def Let_def update_conv')
qed

theorem backoff_overflows_witness:
  "Locked ''ann'' (secs 1000) (Fail ''ann'' (secs 1000) ((NewThrottle demo_throttle)\<lparr>th_accounts :=
     [(''ann'', \<lparr>af_fails = 33, af_lockedUntil = Some (secs 950), af_last = secs 50\<rparr>)]\<rparr>)) = None"
  using backoff_overflows [of "(NewThrottle demo_throttle)\<lparr>th_accounts :=
     [(''ann'', \<lparr>af_fails = 33, af_lockedUntil = Some (secs 950), af_last = secs 50\<rparr>)]\<rparr>" "''ann''" _ "secs 1000"]
  by (simp add: NewThrottle_def demo_throttle_def th_ok_def secs_def)

end
