(* ===== verification/Core_RateLimit.thy ===== *)
theory Core_RateLimit
  imports Core_Window Go_Netip
begin

text \<open>
  The rate limiter in front of the credential endpoints of the core service
  (\<^verbatim>\<open>streamhub-core-go/internal/platform/httpx/ratelimit.go\<close>) and the client address it is keyed by
  (\<^verbatim>\<open>request.go\<close>). A request is its path, peer and \<^verbatim>\<open>X-Forwarded-For\<close> header; the reply is whether it is
  passed on and the headers set. The reporter of offenses is a flag (installed or not) and its calls
  are counted by address.
\<close>

section \<open>The client's address\<close>

definition normalizeIP :: "string \<Rightarrow> string" where
  "normalizeIP ip = TrimPrefix ip ''::ffff:''"

definition ClientIP :: "string \<Rightarrow> string \<Rightarrow> string" where
  "ClientIP remoteAddr xff =
     (let ip = TrimSpace (last (Split xff CHR '',''))
      in if xff \<noteq> [] \<and> ip \<noteq> [] then normalizeIP ip
         else normalizeIP (case SplitHostPort remoteAddr of Some (h, _) \<Rightarrow> h | None \<Rightarrow> remoteAddr))"

definition BearerToken :: "string \<Rightarrow> string" where
  "BearerToken h =
     (if length h > 7 \<and> map lower_char (take 7 h) = ''bearer '' then TrimSpace (drop 7 h) else [])"

text \<open>\<^verbatim>\<open>rateKey\<close>: \<^verbatim>\<open>net.ParseIP\<close> refuses zones; an IPv6 address is grouped by its leading 56 bits.\<close>

definition rateKey :: "string \<Rightarrow> string" where
  "rateKey ip =
     (case ParseAddr ip of
        Some (Addr6 g zone) \<Rightarrow>
          if zone \<noteq> [] \<or> is_4in6 g then ip else string6 (mask_groups 16 56 g) @ ''/56''
      | _ \<Rightarrow> ip)"

section \<open>The limiter\<close>

definition AuthRateLimitPaths :: "string list" where
  "AuthRateLimitPaths = [''/api/v1/auth/login'', ''/api/v1/auth/magic-link'', ''/api/v1/auth/magic/verify'']"

record rlClient =
  rc_hits :: nat
  rc_resetAt :: int

record RateLimiter =
  rl_window :: int
  rl_limit :: int
  rl_paths :: "string list"
  rl_clients :: "(string \<times> rlClient) list"
  rl_nextSweep :: "int option"
  rl_reporter :: bool

definition NewRateLimiter :: "int \<Rightarrow> int \<Rightarrow> string list \<Rightarrow> RateLimiter" where
  "NewRateLimiter window limit paths =
     \<lparr>rl_window = window, rl_limit = limit, rl_paths = paths, rl_clients = [], rl_nextSweep = None, rl_reporter = False\<rparr>"

text \<open>\<^verbatim>\<open>fmt.Sscanf(s, "%d", &n)\<close> after trimming: an optional sign and digits; what follows is ignored.\<close>

definition parseIntPrefix_scan :: "string \<Rightarrow> int option" where
  "parseIntPrefix_scan s0 =
     (let s = TrimSpace s0;
          sg = (case s of c # _ \<Rightarrow> if c = CHR ''+'' \<or> c = CHR ''-'' then [c] else [] | [] \<Rightarrow> []);
          ds = takeWhile is_digit (drop (length sg) s)
      in if ds = [] then None else Atoi (sg @ ds))"

definition envPositive :: "(string \<Rightarrow> string) \<Rightarrow> string \<Rightarrow> int \<Rightarrow> int" where
  "envPositive env name fallback =
     (let raw = env name
      in if raw = [] then fallback
         else case parseIntPrefix_scan raw of None \<Rightarrow> fallback | Some n \<Rightarrow> if n \<le> 0 then fallback else n)"

definition NewAuthRateLimiter :: "(string \<Rightarrow> string) \<Rightarrow> RateLimiter" where
  "NewAuthRateLimiter env =
     NewRateLimiter (mul64 (envPositive env ''AUTH_RATE_LIMIT_WINDOW_MS'' (15 * 60 * 1000)) 1000000)
       (envPositive env ''AUTH_RATE_LIMIT_MAX'' 10) AuthRateLimitPaths"

definition SetOffenseReporter :: "bool \<Rightarrow> RateLimiter \<Rightarrow> RateLimiter" where
  "SetOffenseReporter fn l = l\<lparr>rl_reporter := fn\<rparr>"

definition rl_matches :: "RateLimiter \<Rightarrow> string \<Rightarrow> bool" where
  "rl_matches l path =
     list_ex (\<lambda>p. length path \<ge> length p \<and> map lower_char (take (length p) path) = map lower_char p \<and>
                  (length path = length p \<or> path ! length p = CHR ''/'')) (rl_paths l)"

definition increment :: "string \<Rightarrow> int \<Rightarrow> RateLimiter \<Rightarrow> (nat \<times> int) \<times> RateLimiter" where
  "increment key now l =
     (let l1 = (if (case rl_nextSweep l of None \<Rightarrow> True | Some t \<Rightarrow> t < now)
                then l\<lparr>rl_clients := filter (\<lambda>(k, c). now < rc_resetAt c) (rl_clients l), rl_nextSweep := Some (now + rl_window l)\<rparr>
                else l);
          fresh = \<lparr>rc_hits = 0, rc_resetAt = now + rl_window l1\<rparr>;
          c = (case map_of (rl_clients l1) key of Some c \<Rightarrow> if now < rc_resetAt c then c else fresh | None \<Rightarrow> fresh);
          c' = c\<lparr>rc_hits := rc_hits c + 1\<rparr>
      in ((rc_hits c', rc_resetAt c'), l1\<lparr>rl_clients := AList.update key c' (rl_clients l1)\<rparr>))"

record rl_reply =
  rp_passed :: bool
  rp_policy :: string
  rp_ratelimit :: string
  rp_retry :: "string option"
  rp_reported :: "string option"

definition ceil_secs :: "int \<Rightarrow> int" where
  "ceil_secs d = - ((- d) div 1000000000)"

text \<open>\<open>None\<close>: the path is not limited and the request is passed on untouched.\<close>

definition rl_Middleware :: "string \<Rightarrow> string \<Rightarrow> string \<Rightarrow> int \<Rightarrow> RateLimiter \<Rightarrow> rl_reply option \<times> RateLimiter" where
  "rl_Middleware path remoteAddr xff now l =
     (if \<not> rl_matches l path then (None, l)
      else let ip = ClientIP remoteAddr xff
           in case increment (rateKey ip) now l of ((hits, resetAt), l') \<Rightarrow>
                let resetS = max 0 (ceil_secs (resetAt - now));
                    remaining = max 0 (rl_limit l - int hits);
                    over = (int hits > rl_limit l)
                in (Some \<lparr>rp_passed = \<not> over,
                      rp_policy = itoa_int (rl_limit l) @ '';w='' @ itoa_int (ceil_secs (rl_window l)),
                      rp_ratelimit = ''limit='' @ itoa_int (rl_limit l) @ '', remaining='' @ itoa_int remaining @ '', reset='' @ itoa_int resetS,
                      rp_retry = (if over then Some (itoa_int resetS) else None),
                      rp_reported = (if over \<and> rl_reporter l \<and> ip \<noteq> [] then Some ip else None)\<rparr>, l'))"

section \<open>One counter per client\<close>

definition rl_ok :: "RateLimiter \<Rightarrow> bool" where
  "rl_ok l \<longleftrightarrow> distinct (map fst (rl_clients l))"

definition client_entry :: "RateLimiter \<Rightarrow> string \<Rightarrow> (nat \<times> int) option" where
  "client_entry l k = map_option (\<lambda>c. (rc_hits c, rc_resetAt c)) (map_of (rl_clients l) k)"

definition rl_sweep :: "int \<Rightarrow> RateLimiter \<Rightarrow> RateLimiter" where
  "rl_sweep now l =
     (if (case rl_nextSweep l of None \<Rightarrow> True | Some t \<Rightarrow> t < now)
      then l\<lparr>rl_clients := filter (\<lambda>(k, c). now < rc_resetAt c) (rl_clients l), rl_nextSweep := Some (now + rl_window l)\<rparr>
      else l)"

lemma increment_sweep:
  "increment key now l =
     (let l1 = rl_sweep now l;
          c = (case client_entry l1 key of Some (n, t) \<Rightarrow> if now < t then (n + 1, t) else (1, now + rl_window l) | None \<Rightarrow> (1, now + rl_window l))
      in (c, l1\<lparr>rl_clients := AList.update key \<lparr>rc_hits = fst c, rc_resetAt = snd c\<rparr> (rl_clients l1)\<rparr>))"
proof -
  have u: "c\<lparr>rc_hits := n\<rparr> = \<lparr>rc_hits = n, rc_resetAt = rc_resetAt c\<rparr>" for c :: rlClient and n by (cases c) simp
  have "rl_window (rl_sweep now l) = rl_window l" by (simp add: rl_sweep_def)
  then show ?thesis
    unfolding increment_def rl_sweep_def [symmetric]
    by (cases "map_of (rl_clients (rl_sweep now l)) key") (simp_all add: Let_def client_entry_def u)
qed

lemma rl_sweep_entry:
  assumes "rl_ok l"
  shows "client_entry (rl_sweep now l) k = client_entry l k \<or>
         client_entry (rl_sweep now l) k = None \<and> (\<exists>n u. client_entry l k = Some (n, u) \<and> u \<le> now)"
  using assms by (cases "map_of (rl_clients l) k")
    (auto simp: rl_sweep_def client_entry_def rl_ok_def map_of_filter simp del: map_of_eq_Some_iff)

lemma rl_sweep_ok: "rl_ok l \<Longrightarrow> rl_ok (rl_sweep now l) \<and> rl_window (rl_sweep now l) = rl_window l"
  by (simp add: rl_sweep_def rl_ok_def distinct_map_filter)

interpretation rlw: fixed_window rl_ok client_entry increment rl_window "\<lambda>fn now. SetOffenseReporter fn"
proof
  fix l k k' now and fn :: bool
  assume ok: "rl_ok l"
  note sw = rl_sweep_entry [OF ok, of now] and so = rl_sweep_ok [OF ok, of now]
  show "rl_ok (snd (increment k now l))" using so by (simp add: increment_sweep Let_def rl_ok_def distinct_update)
  show "rl_window (snd (increment k now l)) = rl_window l" using so by (simp add: increment_sweep Let_def)
  show "fst (increment k now l) = (case client_entry l k of
      Some (n, u) \<Rightarrow> if now < u then (n + 1, u) else (1, now + rl_window l) | None \<Rightarrow> (1, now + rl_window l))"
    using sw [of k] by (auto simp: increment_sweep Let_def)
  show "client_entry (snd (increment k now l)) k = Some (fst (increment k now l))"
    by (simp add: increment_sweep Let_def) (simp add: client_entry_def update_conv')
  show "client_entry (snd (increment k now l)) k' = client_entry l k' \<or>
      client_entry (snd (increment k now l)) k' = None \<and> (\<exists>n u. client_entry l k' = Some (n, u) \<and> u \<le> now)" if "k' \<noteq> k"
    using sw [of k'] that by (simp add: increment_sweep Let_def) (simp add: client_entry_def update_conv')
  show "rl_ok (SetOffenseReporter fn l)" using ok by (simp add: SetOffenseReporter_def rl_ok_def)
  show "rl_window (SetOffenseReporter fn l) = rl_window l" by (simp add: SetOffenseReporter_def)
  show "client_entry (SetOffenseReporter fn l) k = client_entry l k \<or>
      client_entry (SetOffenseReporter fn l) k = None \<and> (\<exists>n u. client_entry l k = Some (n, u) \<and> u \<le> now)"
    by (simp add: SetOffenseReporter_def client_entry_def)
qed

section \<open>Properties\<close>

text \<open>A run of requests and changes of the reporter, and the times at which requests of one client key are let through.\<close>

datatype rl_event =
    Request string string string int \<comment> \<open>path, peer, forwarded for, time\<close>
  | Report bool int

fun rl_time :: "rl_event \<Rightarrow> int" where
  "rl_time (Request path peer xff now) = now"
| "rl_time (Report fn now) = now"

fun let_through :: "string \<Rightarrow> rl_event list \<Rightarrow> RateLimiter \<Rightarrow> int list" where
  "let_through key [] l = []"
| "let_through key (Request path peer xff now # es) l =
     (case rl_Middleware path peer xff now l of (rep, l') \<Rightarrow>
        (if rateKey (ClientIP peer xff) = key \<and> (\<exists>r. rep = Some r \<and> rp_passed r) then [now] else []) @ let_through key es l')"
| "let_through key (Report fn now # es) l = let_through key es (SetOffenseReporter fn l)"

fun as_window :: "RateLimiter \<Rightarrow> rl_event list \<Rightarrow> bool win_event list" where
  "as_window l [] = []"
| "as_window l (Request path peer xff now # es) =
     (if rl_matches l path then [Hit (rateKey (ClientIP peer xff)) now] else []) @ as_window l es"
| "as_window l (Report fn now # es) = Other fn now # as_window l es"

lemma rl_const:
  "rl_paths (snd (increment k now l)) = rl_paths l" "rl_limit (snd (increment k now l)) = rl_limit l"
  "rl_paths (SetOffenseReporter fn l) = rl_paths l" "rl_limit (SetOffenseReporter fn l) = rl_limit l"
  by (simp_all add: increment_sweep Let_def rl_sweep_def SetOffenseReporter_def)

lemma as_window_cong: "rl_paths l = rl_paths l' \<Longrightarrow> as_window l es = as_window l' es"
  by (induction l es rule: as_window.induct) (simp_all add: rl_matches_def)

lemma as_window_times: "set (map win_time (as_window l es)) \<subseteq> set (map rl_time es)"
  by (induction l es rule: as_window.induct) auto

lemma as_window_sorted: "sorted (map rl_time es) \<Longrightarrow> sorted (map win_time (as_window l es))"
proof (induction l es rule: as_window.induct)
  case (2 l path peer xff now es)
  then show ?case using as_window_times [of l es] by auto
next
  case (3 l fn now es)
  then show ?case using as_window_times [of l es] by auto
qed simp

lemma let_through_answers:
  "0 < rl_limit l \<Longrightarrow>
   let_through key es l = map fst (filter (\<lambda>(now, n, u). n \<le> nat (rl_limit l)) (rlw.answers key (as_window l es) l))"
proof (induction key es l rule: let_through.induct)
  case (2 key path peer xff now es l)
  let ?k = "rateKey (ClientIP peer xff)"
  show ?case
  proof (cases "rl_matches l path")
    case False
    then show ?thesis using 2 by (simp add: rl_Middleware_def)
  next
    case True
    obtain n u l' where h: "increment ?k now l = ((n, u), l')" by (metis prod.exhaust)
    have c: "rl_limit l' = rl_limit l" "as_window l' es = as_window l es"
      using rl_const(1,2) [of ?k now l] h as_window_cong [of l' l] by simp_all
    obtain rep where rep: "rl_Middleware path peer xff now l = (Some rep, l')" "rp_passed rep \<longleftrightarrow> \<not> int n > rl_limit l"
      using True h by (simp add: rl_Middleware_def Let_def)
    have "let_through key es l' = map fst (filter (\<lambda>(now, n, u). n \<le> nat (rl_limit l)) (rlw.answers key (as_window l es) l'))"
      using "2.IH" [OF rep(1) [symmetric]] "2.prems" c by simp
    moreover have "n \<le> nat (rl_limit l) \<longleftrightarrow> \<not> int n > rl_limit l" using "2.prems" by linarith
    ultimately show ?thesis using True h rep by auto
  qed
next
  case (3 key fn now es l)
  then show ?case using rl_const(3,4) [of fn l] as_window_cong [of "SetOffenseReporter fn l" l] by simp
qed simp

text \<open>
  C36. A client cannot try its credentials more often than twice the limit per window. In every run of
  requests with a clock that does not go back, at most twice \<^verbatim>\<open>limit\<close> requests to the limited paths with the
  same client key are let through in any interval as long as the window, whatever other clients do;
  an IPv6 client has the key of its network of 56 bits.
\<close>

theorem limited_requests_are_bounded:
  assumes "0 < window" "0 < limit" "sorted (map rl_time es)"
  shows "length (filter (\<lambda>now. x \<le> now \<and> now < x + window) (let_through key es (NewRateLimiter window limit paths))) \<le>
         2 * nat limit"
proof -
  let ?l = "NewRateLimiter window limit paths"
  have l: "rl_ok ?l" "client_entry ?l key = None" "rl_window ?l = window" "rl_limit ?l = limit"
    by (simp_all add: NewRateLimiter_def rl_ok_def client_entry_def)
  have "length (filter (\<lambda>(now, n, u). x \<le> now \<and> now < x + rl_window ?l \<and> n \<le> nat limit) (rlw.answers key (as_window ?l es) ?l)) \<le>
      2 * nat limit"
    using l assms by (intro rlw.burst_bound as_window_sorted) simp_all
  moreover have "let_through key es ?l = map fst (filter (\<lambda>(now, n, u). n \<le> nat limit) (rlw.answers key (as_window ?l es) ?l))"
    using let_through_answers [of ?l key es] assms(2) l(4) by simp
  ultimately show ?thesis unfolding l(3) by (simp only: within_limit conj_assoc)
qed

theorem limited_requests_are_bounded_witness:
  "length (filter (\<lambda>now. 0 \<le> now \<and> now < 0 + secs 60)
     (let_through ''10.0.0.7'' [Request ''/api/v1/auth/login'' ''10.0.0.7:9'' [] 1, Report True 2, Request ''/api/v1/auth/login'' ''10.0.0.7:9'' [] 3]
        (NewRateLimiter (secs 60) 1 AuthRateLimitPaths))) \<le> 2 * nat 1"
  by (rule limited_requests_are_bounded) (simp_all add: secs_def)

end
