(* ===== verification/Go_Json.thy ===== *)
theory Go_Json
  imports Go_Strings
begin

text \<open>
  The parts of Go's \<^verbatim>\<open>encoding/json\<close> and \<^verbatim>\<open>time\<close> packages that the components use: the scanner behind
  \<^verbatim>\<open>json.Valid\<close>, the encoding of strings and integers by \<^verbatim>\<open>json.Marshal\<close>, and the encoding of a UTC time.
  The lemmas show that what is encoded is accepted by the scanner and stays on one line.
\<close>

section \<open>The scanner\<close>

text \<open>
  The states are the step functions of the library's scanner: a literal (\<^verbatim>\<open>true\<close>, \<^verbatim>\<open>false\<close>, \<^verbatim>\<open>null\<close>) is
  the rest that must follow, a Unicode escape the number of hex digits that must follow. The second
  component is the stack of open objects and arrays. \<open>None\<close> is the error state.
\<close>

datatype parse_state = ParseObjectKey | ParseObjectValue | ParseArrayValue

datatype scan_state =
    BeginValueOrEmpty | BeginValue | BeginStringOrEmpty | BeginString | EndValue | EndTop
  | InString | InStringEsc | InStringEscU nat
  | NumNeg | NumInt | NumZero | NumDot | NumDot0 | NumE | NumESign | NumE0
  | Literal string

type_synonym scanner = "scan_state \<times> parse_state list"

definition is_space :: "char \<Rightarrow> bool" where
  "is_space c = (c \<in> {CHR '' '', CHR 0x09, CHR 0x0D, CHR 0x0A})"

definition is_hex :: "char \<Rightarrow> bool" where
  "is_hex c = (is_digit c \<or> 97 \<le> (of_char c :: nat) \<and> of_char c \<le> (102 :: nat) \<or>
               65 \<le> (of_char c :: nat) \<and> of_char c \<le> (70 :: nat))"

definition maxNestingDepth :: nat where
  "maxNestingDepth = 10000"

definition pushParseState :: "scan_state \<Rightarrow> parse_state \<Rightarrow> parse_state list \<Rightarrow> scanner option" where
  "pushParseState st p ps = (if length (p # ps) \<le> maxNestingDepth then Some (st, p # ps) else None)"

fun popParseState :: "parse_state list \<Rightarrow> scanner option" where
  "popParseState (p # ps) = Some (if ps = [] then EndTop else EndValue, ps)"
| "popParseState [] = None"

fun stateEndValue :: "char \<Rightarrow> parse_state list \<Rightarrow> scanner option" where
  "stateEndValue c [] = (if is_space c then Some (EndTop, []) else None)"
| "stateEndValue c (p # ps) =
     (if is_space c then Some (EndValue, p # ps)
      else case p of
        ParseObjectKey \<Rightarrow> if c = CHR '':'' then Some (BeginValue, ParseObjectValue # ps) else None
      | ParseObjectValue \<Rightarrow>
          if c = CHR '','' then Some (BeginString, ParseObjectKey # ps)
          else if c = CHR ''}'' then popParseState (p # ps) else None
      | ParseArrayValue \<Rightarrow>
          if c = CHR '','' then Some (BeginValue, p # ps)
          else if c = CHR '']'' then popParseState (p # ps) else None)"

definition stateBeginValue :: "char \<Rightarrow> parse_state list \<Rightarrow> scanner option" where
  "stateBeginValue c ps =
     (if is_space c then Some (BeginValue, ps)
      else if c = CHR ''{'' then pushParseState BeginStringOrEmpty ParseObjectKey ps
      else if c = CHR ''['' then pushParseState BeginValueOrEmpty ParseArrayValue ps
      else if c = CHR 0x22 then Some (InString, ps)
      else if c = CHR ''-'' then Some (NumNeg, ps)
      else if c = CHR ''0'' then Some (NumZero, ps)
      else if c = CHR ''t'' then Some (Literal ''rue'', ps)
      else if c = CHR ''f'' then Some (Literal ''alse'', ps)
      else if c = CHR ''n'' then Some (Literal ''ull'', ps)
      else if is_digit c then Some (NumInt, ps)
      else None)"

definition stateBeginString :: "char \<Rightarrow> parse_state list \<Rightarrow> scanner option" where
  "stateBeginString c ps =
     (if is_space c then Some (BeginString, ps) else if c = CHR 0x22 then Some (InString, ps) else None)"

definition state0 :: "char \<Rightarrow> parse_state list \<Rightarrow> scanner option" where
  "state0 c ps =
     (if c = CHR ''.'' then Some (NumDot, ps)
      else if c = CHR ''e'' \<or> c = CHR ''E'' then Some (NumE, ps)
      else stateEndValue c ps)"

definition stateESign :: "char \<Rightarrow> parse_state list \<Rightarrow> scanner option" where
  "stateESign c ps = (if is_digit c then Some (NumE0, ps) else None)"

fun scan_step :: "scanner \<Rightarrow> char \<Rightarrow> scanner option" where
  "scan_step (BeginValueOrEmpty, ps) c =
     (if is_space c then Some (BeginValueOrEmpty, ps)
      else if c = CHR '']'' then stateEndValue c ps else stateBeginValue c ps)"
| "scan_step (BeginValue, ps) c = stateBeginValue c ps"
| "scan_step (BeginStringOrEmpty, ps) c =
     (if is_space c then Some (BeginStringOrEmpty, ps)
      else if c = CHR ''}'' then stateEndValue c (ParseObjectValue # tl ps) else stateBeginString c ps)"
| "scan_step (BeginString, ps) c = stateBeginString c ps"
| "scan_step (EndValue, ps) c = stateEndValue c ps"
| "scan_step (EndTop, ps) c = (if is_space c then Some (EndTop, ps) else None)"
| "scan_step (InString, ps) c =
     (if c = CHR 0x22 then Some (EndValue, ps)
      else if c = CHR 0x5C then Some (InStringEsc, ps)
      else if of_char c < (32 :: nat) then None else Some (InString, ps))"
| "scan_step (InStringEsc, ps) c =
     (if c \<in> {CHR ''b'', CHR ''f'', CHR ''n'', CHR ''r'', CHR ''t'', CHR 0x5C, CHR ''/'', CHR 0x22}
      then Some (InString, ps)
      else if c = CHR ''u'' then Some (InStringEscU 4, ps) else None)"
| "scan_step (InStringEscU n, ps) c =
     (if is_hex c then Some (if n \<le> 1 then InString else InStringEscU (n - 1), ps) else None)"
| "scan_step (NumNeg, ps) c =
     (if c = CHR ''0'' then Some (NumZero, ps) else if is_digit c then Some (NumInt, ps) else None)"
| "scan_step (NumInt, ps) c = (if is_digit c then Some (NumInt, ps) else state0 c ps)"
| "scan_step (NumZero, ps) c = state0 c ps"
| "scan_step (NumDot, ps) c = (if is_digit c then Some (NumDot0, ps) else None)"
| "scan_step (NumDot0, ps) c =
     (if is_digit c then Some (NumDot0, ps)
      else if c = CHR ''e'' \<or> c = CHR ''E'' then Some (NumE, ps) else stateEndValue c ps)"
| "scan_step (NumE, ps) c = (if c = CHR ''+'' \<or> c = CHR ''-'' then Some (NumESign, ps) else stateESign c ps)"
| "scan_step (NumESign, ps) c = stateESign c ps"
| "scan_step (NumE0, ps) c = (if is_digit c then Some (NumE0, ps) else stateEndValue c ps)"
| "scan_step (Literal [], ps) c = stateEndValue c ps"
| "scan_step (Literal (x # xs), ps) c =
     (if c = x then Some (if xs = [] then EndValue else Literal xs, ps) else None)"

fun scan :: "scanner \<Rightarrow> string \<Rightarrow> scanner option" where
  "scan sc [] = Some sc"
| "scan sc (c # s) = (case scan_step sc c of None \<Rightarrow> None | Some sc' \<Rightarrow> scan sc' s)"

text \<open>\<^verbatim>\<open>eof\<close>: a value that ends with the text is closed by one more space.\<close>

definition scan_eof :: "scanner \<Rightarrow> bool" where
  "scan_eof sc =
     (fst sc = EndTop \<or> (case scan_step sc (CHR '' '') of Some sc' \<Rightarrow> fst sc' = EndTop | None \<Rightarrow> False))"

definition Valid :: "string \<Rightarrow> bool" where
  "Valid s = (case scan (BeginValue, []) s of Some sc \<Rightarrow> scan_eof sc | None \<Rightarrow> False)"

section \<open>Encoding\<close>

definition hex_digit_char :: "nat \<Rightarrow> char" where
  "hex_digit_char n = (if n < 10 then char_of (48 + n) else char_of (87 + n))"

definition html_safe :: "char \<Rightarrow> bool" where
  "html_safe c = (32 \<le> (of_char c :: nat) \<and> of_char c < (128 :: nat) \<and>
     c \<notin> {CHR 0x22, CHR ''&'', CHR ''<'', CHR ''>'', CHR 0x5C})"

definition escape_ascii :: "char \<Rightarrow> string" where
  "escape_ascii c =
     (if c = CHR 0x5C \<or> c = CHR 0x22 then [CHR 0x5C, c]
      else if c = CHR 0x08 then [CHR 0x5C, CHR ''b'']
      else if c = CHR 0x0C then [CHR 0x5C, CHR ''f'']
      else if c = CHR 0x0A then [CHR 0x5C, CHR ''n'']
      else if c = CHR 0x0D then [CHR 0x5C, CHR ''r'']
      else if c = CHR 0x09 then [CHR 0x5C, CHR ''t'']
      else [CHR 0x5C, CHR ''u'', CHR ''0'', CHR ''0'', hex_digit_char (of_char c div 16), hex_digit_char (of_char c mod 16)])"

text \<open>
  The body of \<^verbatim>\<open>appendString\<close> with HTML escaping: an invalid encoding becomes the replacement character and
  the line separators U+2028 and U+2029 are escaped.
\<close>

function string_body :: "string \<Rightarrow> string" where
  "string_body s =
     (case s of
        [] \<Rightarrow> []
      | c # t \<Rightarrow>
          if of_char c < (128 :: nat)
          then (if html_safe c then [c] else escape_ascii c) @ string_body t
          else let w = rune_width s
               in (if w = 1 then CHR 0x5C # ''ufffd''
                   else if take w s = [CHR 0xE2, CHR 0x80, CHR 0xA8] then CHR 0x5C # ''u2028''
                   else if take w s = [CHR 0xE2, CHR 0x80, CHR 0xA9] then CHR 0x5C # ''u2029''
                   else take w s) @ string_body (drop w s))"
  by pat_completeness auto

termination string_body
  by (relation "measure length") (auto simp: rune_width_pos)

declare string_body.simps [simp del]

definition appendString :: "string \<Rightarrow> string" where
  "appendString s = [CHR 0x22] @ string_body s @ [CHR 0x22]"

text \<open>
  \<^verbatim>\<open>time.Time.MarshalJSON\<close> of a UTC time in nanoseconds since 1970: RFC 3339 with the fraction cut after
  its last non-zero digit; an error for a year that does not have four digits.
\<close>

definition nsec :: int where "nsec = 1000000000"

definition civil :: "int \<Rightarrow> int \<times> int \<times> int" where
  "civil days =
     (let z = days + 719468;
          era = z div 146097;
          doe = z mod 146097;
          yoe = (doe - doe div 1460 + doe div 36524 - doe div 146096) div 365;
          doy = doe - (365 * yoe + yoe div 4 - yoe div 100);
          mp = (5 * doy + 2) div 153;
          d = doy - (153 * mp + 2) div 5 + 1;
          m = (if mp < 10 then mp + 3 else mp - 9)
      in (yoe + era * 400 + (if m \<le> 2 then 1 else 0), m, d))"

fun pad :: "nat \<Rightarrow> int \<Rightarrow> string" where
  "pad 0 n = []"
| "pad (Suc k) n = pad k (n div 10) @ [digit_char (nat (n mod 10))]"

definition fraction :: "int \<Rightarrow> string" where
  "fraction ns = (if ns = 0 then [] else CHR ''.'' # rev (dropWhile (\<lambda>c. c = CHR ''0'') (rev (pad 9 ns))))"

definition year_ok :: "int \<Rightarrow> bool" where
  "year_ok t = (case civil (t div (86400 * nsec)) of (y, _, _) \<Rightarrow> 0 \<le> y \<and> y \<le> 9999)"

definition rfc3339 :: "int \<Rightarrow> string" where
  "rfc3339 t =
     (let s = t div nsec mod 86400
      in case civil (t div (86400 * nsec)) of (y, m, d) \<Rightarrow>
           pad 4 y @ ''-'' @ pad 2 m @ ''-'' @ pad 2 d @ ''T'' @
           pad 2 (s div 3600) @ '':'' @ pad 2 (s div 60 mod 60) @ '':'' @ pad 2 (s mod 60) @
           fraction (t mod nsec) @ ''Z'')"

definition time_json :: "int \<Rightarrow> string option" where
  "time_json t = (if year_ok t then Some ([CHR 0x22] @ rfc3339 t @ [CHR 0x22]) else None)"

section \<open>What is encoded is accepted\<close>

lemma scan_append: "scan sc (a @ b) = (case scan sc a of None \<Rightarrow> None | Some sc' \<Rightarrow> scan sc' b)"
  by (induction a arbitrary: sc) (auto split: option.splits)

lemma scan_then: "scan sc a = Some sc' \<Longrightarrow> scan sc (a @ b) = scan sc' b"
  by (simp add: scan_append)

text \<open>Characters a JSON string holds as they are.\<close>

definition plain :: "char \<Rightarrow> bool" where
  "plain c = (32 \<le> (of_char c :: nat) \<and> c \<noteq> CHR 0x22 \<and> c \<noteq> CHR 0x5C)"

lemma scan_plain: "list_all plain s \<Longrightarrow> scan (InString, ps) s = Some (InString, ps)"
  by (induction s) (simp_all add: plain_def)

lemma digit_plain: "is_digit c \<Longrightarrow> plain c"
  by (auto simp: is_digit_def plain_def)

lemma high_plain: "128 \<le> (of_char c :: nat) \<Longrightarrow> plain c"
  by (auto simp: plain_def)

lemma hex_digit_char_hex: "n < 16 \<Longrightarrow> is_hex (hex_digit_char n)"
  by (auto simp: is_hex_def is_digit_def hex_digit_char_def)

lemma scan_escape_ascii:
  assumes "of_char c < (128 :: nat)"
  shows "scan (InString, ps) (escape_ascii c) = Some (InString, ps)"
proof -
  have "is_hex (hex_digit_char (of_char c div 16))" "is_hex (hex_digit_char (of_char c mod 16))"
    using assms by (auto intro!: hex_digit_char_hex)
  moreover have "is_hex (CHR ''0'')" by code_simp
  ultimately show ?thesis by (simp add: escape_ascii_def)
qed

lemma cont_high: "cont_byte lo hi s k \<Longrightarrow> 128 \<le> lo \<Longrightarrow> 128 \<le> (of_char (s ! k) :: nat)"
  by (simp add: cont_byte_def)

lemma rune_width_second: "1 < rune_width s \<Longrightarrow> 128 \<le> (of_char (s ! 1) :: nat)"
  unfolding rune_width_def Let_def
  by (auto split: if_split_asm dest!: cont_high [where k = "Suc 0"] simp del: of_char_eq_iff)

lemma rune_width_third: "2 < rune_width s \<Longrightarrow> 128 \<le> (of_char (s ! 2) :: nat)"
  unfolding rune_width_def Let_def by (simp split: if_split_asm add: cont_high)

lemma rune_width_fourth: "3 < rune_width s \<Longrightarrow> 128 \<le> (of_char (s ! 3) :: nat)"
  unfolding rune_width_def Let_def by (simp split: if_split_asm add: cont_high)

lemma rune_width_le: "rune_width s \<le> 4"
  by (simp add: rune_width_def Let_def)

lemma rune_width_cont:
  assumes "0 < i" "i < rune_width s"
  shows "128 \<le> (of_char (s ! i) :: nat)"
proof -
  from assms rune_width_le [of s] consider "i = 1" | "i = 2" | "i = 3" by linarith
  then show ?thesis
    using assms rune_width_second [of s] rune_width_third [of s] rune_width_fourth [of s] by cases auto
qed

lemma rune_bytes_high:
  assumes "128 \<le> (of_char (hd s) :: nat)" "c \<in> set (take (rune_width s) s)"
  shows "128 \<le> (of_char c :: nat)"
proof -
  obtain i where "i < rune_width s" "i < length s" "c = s ! i"
    using assms(2) by (auto simp: in_set_conv_nth)
  with assms(1) rune_width_cont [of i s] show ?thesis by (cases "i = 0") (auto simp: hd_conv_nth)
qed

lemma scan_string_body: "scan (InString, ps) (string_body s) = Some (InString, ps)"
proof (induction s rule: string_body.induct)
  case (1 s)
  show ?case
  proof (cases s)
    case (Cons c t)
    show ?thesis
    proof (cases "of_char c < (128 :: nat)")
      case True
      have "html_safe c \<Longrightarrow> scan (InString, ps) [c] = Some (InString, ps)"
        by (rule scan_plain) (simp add: html_safe_def plain_def)
      with True Cons "1.IH"(1) [OF Cons True] show ?thesis
        by (subst string_body.simps) (simp add: scan_then scan_escape_ascii del: scan.simps(2))
    next
      case False
      let ?w = "rune_width s"
      have lits: "scan (InString, ps) (CHR 0x5C # ''ufffd'') = Some (InString, ps)"
        "scan (InString, ps) (CHR 0x5C # ''u2028'') = Some (InString, ps)"
        "scan (InString, ps) (CHR 0x5C # ''u2029'') = Some (InString, ps)" by code_simp+
      have "list_all plain (take ?w s)"
        using rune_bytes_high [of s] False Cons by (auto simp: list_all_iff intro!: high_plain)
      then have w: "scan (InString, ps) (take ?w s) = Some (InString, ps)"
        by (rule scan_plain)
      define x where "x = (if ?w = 1 then CHR 0x5C # ''ufffd''
          else if take ?w s = [CHR 0xE2, CHR 0x80, CHR 0xA8] then CHR 0x5C # ''u2028''
          else if take ?w s = [CHR 0xE2, CHR 0x80, CHR 0xA9] then CHR 0x5C # ''u2029'' else take ?w s)"
      have "scan (InString, ps) x = Some (InString, ps)"
        unfolding x_def using lits w by (auto simp del: scan.simps(2))
      moreover have "string_body s = x @ string_body (drop ?w s)"
        unfolding x_def by (subst string_body.simps) (use False in \<open>simp add: Let_def Cons\<close>)
      ultimately show ?thesis using "1.IH"(2) [OF Cons False refl] by (simp add: scan_then)
    qed
  qed (simp add: string_body.simps)
qed

text \<open>A value: in any context the scanner is at its end when a delimiter follows.\<close>

definition value_ok :: "string \<Rightarrow> bool" where
  "value_ok x = (\<forall>ps c. c = CHR '','' \<or> c = CHR ''}'' \<longrightarrow> scan (BeginValue, ps) (x @ [c]) = stateEndValue c ps)"

lemma scan_quoted: "scan (InString, ps) x = Some (InString, ps) \<Longrightarrow> scan (InString, ps) (x @ CHR 0x22 # t) = scan (EndValue, ps) t"
  by (simp add: scan_append)

lemma quoted_ok:
  assumes "\<And>ps. scan (InString, ps) x = Some (InString, ps)"
  shows "value_ok ([CHR 0x22] @ x @ [CHR 0x22])"
  unfolding value_ok_def using scan_quoted [OF assms]
  by (auto simp: stateBeginValue_def is_space_def split: option.splits)

lemma appendString_ok: "value_ok (appendString s)"
  unfolding appendString_def by (rule quoted_ok) (rule scan_string_body)

lemma scan_digits: "list_all is_digit s \<Longrightarrow> scan (NumInt, ps) s = Some (NumInt, ps)"
  by (induction s) simp_all

lemma itoa_Cons:
  assumes "0 < n"
  shows "\<exists>c t. itoa n = c # t \<and> is_digit c \<and> c \<noteq> CHR ''0'' \<and> list_all is_digit t"
  using assms
proof (induction n rule: less_induct)
  case (less n)
  show ?case
  proof (cases "n < 10")
    case True
    have "digit_char n \<noteq> CHR ''0''"
    proof
      assume "digit_char n = CHR ''0''"
      then have "of_char (digit_char n) = (48 :: nat)" by simp
      with less.prems True show False by (simp add: of_digit_char)
    qed
    with True show ?thesis by (subst itoa.simps) simp
  next
    case False
    then obtain c t where "itoa (n div 10) = c # t" "is_digit c" "c \<noteq> CHR ''0''" "list_all is_digit t"
      using less.IH [of "n div 10"] by (auto simp: div_greater_zero_iff)
    with False show ?thesis by (subst itoa.simps) simp
  qed
qed

lemma digit_not_special:
  assumes "is_digit c"
  shows "\<not> is_space c" "c \<notin> {CHR ''{'', CHR ''['', CHR 0x22, CHR ''-'', CHR ''t'', CHR ''f'', CHR ''n''}"
  using assms by (auto simp: is_digit_def is_space_def)

lemma delimiter_ends:
  assumes "c = CHR '','' \<or> c = CHR ''}''"
  shows "\<not> is_digit c" "state0 c ps = stateEndValue c ps"
  using assms by (auto simp: is_digit_def state0_def)

lemma itoa_scan: "\<exists>st. st \<in> {NumZero, NumInt} \<and> scan (BeginValue, ps) (itoa n) = Some (st, ps) \<and> scan (NumNeg, ps) (itoa n) = Some (st, ps)"
proof (cases "n = 0")
  case True
  have "itoa 0 = ''0''" by code_simp
  then show ?thesis using True by (simp add: stateBeginValue_def is_space_def)
next
  case False
  then obtain c t where c: "itoa n = c # t" "is_digit c" "c \<noteq> CHR ''0''" "list_all is_digit t"
    using itoa_Cons by blast
  then have "stateBeginValue c ps = Some (NumInt, ps)"
    using digit_not_special [OF c(2)] by (simp add: stateBeginValue_def)
  with c show ?thesis by (simp add: scan_digits)
qed

lemma itoa_int_ok: "value_ok (itoa_int i)"
proof -
  have "\<exists>st. st \<in> {NumZero, NumInt} \<and> scan (BeginValue, ps) (itoa_int i) = Some (st, ps)" for ps
    using itoa_scan [of ps "nat (- i)"] itoa_scan [of ps "nat i"]
    by (auto simp: itoa_int_def stateBeginValue_def is_space_def)
  note begins = this
  have "scan (BeginValue, ps) (itoa_int i @ [c]) = stateEndValue c ps" if c: "c = CHR '','' \<or> c = CHR ''}''" for c ps
  proof -
    obtain st where st: "st = NumZero \<or> st = NumInt" "scan (BeginValue, ps) (itoa_int i) = Some (st, ps)"
      using begins by blast
    have "scan_step (st, ps) c = stateEndValue c ps"
      using st(1) delimiter_ends(1) [OF c] delimiter_ends(2) [OF c, of ps] by (elim disjE) simp_all
    then show ?thesis unfolding scan_then [OF st(2)] by (cases "stateEndValue c ps") simp_all
  qed
  then show ?thesis unfolding value_ok_def by blast
qed

lemma value_okD:
  "value_ok v \<Longrightarrow> c = CHR '','' \<or> c = CHR ''}'' \<Longrightarrow> scan (BeginValue, ps) (v @ [c]) = stateEndValue c ps"
  unfolding value_ok_def by blast

lemma object_delimiters:
  "stateEndValue (CHR '','') (ParseObjectValue # ps) = Some (BeginString, ParseObjectKey # ps)"
  "stateEndValue (CHR ''}'') (ParseObjectValue # ps) = Some (if ps = [] then EndTop else EndValue, ps)"
  by (simp_all add: is_space_def)

text \<open>An object with the given members, as \<^verbatim>\<open>json.Marshal\<close> writes a struct.\<close>

definition member :: "string \<times> string \<Rightarrow> string" where
  "member kv = appendString (fst kv) @ '':'' @ snd kv"

definition object :: "(string \<times> string) list \<Rightarrow> string" where
  "object kvs = ''{'' @ join '','' (map member kvs) @ ''}''"

lemma scan_member:
  assumes "value_ok v" "st = BeginString \<or> st = BeginStringOrEmpty" "c = CHR '','' \<or> c = CHR ''}''"
  shows "scan (st, ParseObjectKey # ps) (member (k, v) @ c # t) =
    (case stateEndValue c (ParseObjectValue # ps) of None \<Rightarrow> None | Some sc \<Rightarrow> scan sc t)"
proof -
  let ?key = "ParseObjectKey # ps"
  have q: "scan_step (st, ?key) (CHR 0x22) = Some (InString, ?key)"
    using assms(2) by (auto simp: stateBeginString_def is_space_def)
  have "scan (st, ?key) (member (k, v) @ c # t) = scan (EndValue, ?key) (CHR '':'' # v @ c # t)"
    using scan_quoted [OF scan_string_body, of ?key k "CHR '':'' # v @ c # t"]
    by (simp add: member_def appendString_def q)
  also have "\<dots> = scan (BeginValue, ParseObjectValue # ps) ((v @ [c]) @ t)"
    by (simp add: is_space_def)
  also have "\<dots> = (case stateEndValue c (ParseObjectValue # ps) of None \<Rightarrow> None | Some sc \<Rightarrow> scan sc t)"
    unfolding scan_append [of _ "v @ [c]"] value_okD [OF assms(1,3)] ..
  finally show ?thesis .
qed

lemma scan_members:
  assumes "kvs \<noteq> []" "\<forall>kv \<in> set kvs. value_ok (snd kv)" "st = BeginString \<or> st = BeginStringOrEmpty"
  shows "scan (st, ParseObjectKey # ps) (join '','' (map member kvs) @ ''}'') =
    Some (if ps = [] then EndTop else EndValue, ps)"
  using assms
proof (induction kvs arbitrary: st)
  case (Cons kv kvs)
  obtain k v where kv: "kv = (k, v)" by fastforce
  show ?case
  proof (cases kvs)
    case Nil
    have "scan (st, ParseObjectKey # ps) (member (k, v) @ CHR ''}'' # []) =
        Some (if ps = [] then EndTop else EndValue, ps)"
      using Cons.prems kv by (subst scan_member) (simp_all add: object_delimiters del: stateEndValue.simps)
    with Nil kv show ?thesis by simp
  next
    case (Cons kv' kvs')
    have "scan (st, ParseObjectKey # ps) (join '','' (map member (kv # kvs)) @ ''}'') =
        scan (BeginString, ParseObjectKey # ps) (join '','' (map member kvs) @ ''}'')"
    proof -
      have "scan (st, ParseObjectKey # ps) (member (k, v) @ CHR '','' # t) = scan (BeginString, ParseObjectKey # ps) t" for t
        using Cons.prems kv by (subst scan_member) (simp_all add: object_delimiters del: stateEndValue.simps)
      with kv \<open>kvs = kv' # kvs'\<close> show ?thesis by simp
    qed
    with Cons.IH Cons.prems \<open>kvs = kv' # kvs'\<close> show ?thesis by simp
  qed
qed simp

lemma object_valid:
  assumes "kvs \<noteq> []" "\<forall>kv \<in> set kvs. value_ok (snd kv)"
  shows "Valid (object kvs)"
proof -
  have "scan (BeginValue, []) (object kvs) = Some (EndTop, [])"
    using scan_members [OF assms, of BeginStringOrEmpty "[]"]
    by (simp add: object_def stateBeginValue_def is_space_def pushParseState_def maxNestingDepth_def)
  then show ?thesis by (simp add: Valid_def scan_eof_def)
qed

section \<open>What is encoded is one line\<close>

definition one_line :: "string \<Rightarrow> bool" where
  "one_line s = list_all (\<lambda>c. 32 \<le> (of_char c :: nat)) s"

lemma one_line_append [simp]: "one_line (a @ b) \<longleftrightarrow> one_line a \<and> one_line b"
  by (simp add: one_line_def)

lemma one_line_Cons [simp]: "one_line (c # s) \<longleftrightarrow> 32 \<le> (of_char c :: nat) \<and> one_line s"
  by (simp add: one_line_def)

lemma one_line_Nil [simp]: "one_line []"
  by (simp add: one_line_def)

lemma one_line_digits: "list_all is_digit s \<Longrightarrow> one_line s"
  by (induction s) (auto simp: is_digit_def)

lemma one_line_rev [simp]: "one_line (rev s) = one_line s"
  by (simp add: one_line_def)

lemma one_line_escape: "of_char c < (128 :: nat) \<Longrightarrow> one_line (escape_ascii c)"
  by (auto simp: escape_ascii_def hex_digit_char_def)

lemma one_line_string_body: "one_line (string_body s)"
proof (induction s rule: string_body.induct)
  case (1 s)
  show ?case
  proof (cases s)
    case (Cons c t)
    show ?thesis
    proof (cases "of_char c < (128 :: nat)")
      case True
      with Cons "1.IH"(1) [OF Cons True] show ?thesis
        by (subst string_body.simps) (simp add: one_line_escape html_safe_def)
    next
      case False
      let ?w = "rune_width s"
      have "one_line (take ?w s)"
        using rune_bytes_high [of s] False Cons by (fastforce simp: one_line_def list_all_iff)
      with False "1.IH"(2) [OF Cons False refl] show ?thesis
        by (subst string_body.simps) (simp add: Let_def Cons)
    qed
  qed (simp add: string_body.simps)
qed

lemma one_line_appendString [simp]: "one_line (appendString s)"
  by (simp add: appendString_def one_line_string_body)

lemma one_line_itoa_int [simp]: "one_line (itoa_int i)"
  by (simp add: itoa_int_def one_line_digits)

lemma pad_digits: "list_all is_digit (pad k n)"
  by (induction k arbitrary: n) simp_all

lemma pad_plain: "list_all plain (pad k n)"
  using pad_digits [of k n] digit_plain by (auto simp: list_all_iff)

lemma fraction_plain: "list_all plain (fraction n)"
proof -
  have "list_all plain (dropWhile P xs)" if "list_all plain xs" for P xs
    using that by (induction xs) simp_all
  moreover have "plain (CHR ''.'')" by (simp add: plain_def)
  ultimately show ?thesis using pad_plain [of 9 n] unfolding fraction_def by simp
qed

lemma rfc3339_plain: "list_all plain (rfc3339 t)"
  by (simp add: rfc3339_def Let_def pad_plain fraction_plain split: prod.splits) (simp add: plain_def)

lemma plain_one_line: "list_all plain s \<Longrightarrow> one_line s"
  by (auto simp: one_line_def plain_def list_all_iff)

lemma time_json_ok: "time_json t = Some x \<Longrightarrow> value_ok x \<and> one_line x"
  using quoted_ok [of "rfc3339 t"] scan_plain [OF rfc3339_plain] plain_one_line [OF rfc3339_plain]
  by (auto simp: time_json_def split: if_splits)

lemma one_line_join: "\<forall>x \<in> set xs. one_line x \<Longrightarrow> one_line s \<Longrightarrow> one_line (join s xs)"
  by (induction s xs rule: join.induct) auto

lemma one_line_object: "\<forall>kv \<in> set kvs. one_line (snd kv) \<Longrightarrow> one_line (object kvs)"
  unfolding object_def by (fastforce simp: member_def intro!: one_line_join)

end
