(* ===== verification/Enc_Audit.thy ===== *)
theory Enc_Audit
  imports Go_Json
begin

text \<open>
  The audit log of the encoder (\<^verbatim>\<open>streamhub-encoder/internal/auth/audit.go\<close>): JSON lines in a file that is
  rotated by size, and the backward reader that returns the newest lines across the rotated files.

  The directory is a partial function from names to contents; \<^verbatim>\<open>*os.File\<close> is whether the log is open,
  since the handle always belongs to the current file. Every system call can fail: what fails in a
  \<^verbatim>\<open>Write\<close> is the record \<open>faults\<close>, what fails in a \<^verbatim>\<open>Tail\<close> the record \<open>reads\<close>.
\<close>

section \<open>Entries\<close>

record auditEntry =
  ae_at :: int
  ae_event :: string
  ae_principal :: string
  ae_role :: string
  ae_kind :: string
  ae_tokenID :: string
  ae_ip :: string
  ae_method :: string
  ae_path :: string
  ae_status :: int
  ae_durationMs :: int

definition omitempty :: "string \<Rightarrow> string \<Rightarrow> (string \<times> string) list" where
  "omitempty k v = (if v = [] then [] else [(k, appendString v)])"

definition entry_fields :: "auditEntry \<Rightarrow> string \<Rightarrow> (string \<times> string) list" where
  "entry_fields e t =
     [(''at'', t), (''event'', appendString (ae_event e)), (''principal'', appendString (ae_principal e))] @
     omitempty ''role'' (ae_role e) @ omitempty ''kind'' (ae_kind e) @ omitempty ''tokenId'' (ae_tokenID e) @
     [(''ip'', appendString (ae_ip e)), (''method'', appendString (ae_method e)), (''path'', appendString (ae_path e)),
      (''status'', itoa_int (ae_status e)), (''durationMs'', itoa_int (ae_durationMs e))]"

definition Marshal :: "auditEntry \<Rightarrow> string option" where
  "Marshal e = map_option (\<lambda>t. object (entry_fields e t)) (time_json (ae_at e))"

section \<open>Files\<close>

type_synonym files = "string \<Rightarrow> string option"

datatype open_result = OpenOk | OpenFails | StatFails

record faults =
  ft_open :: open_result
  ft_reopen :: open_result
  ft_remove :: bool
  ft_shift :: "nat \<Rightarrow> bool"
  ft_rename :: bool
  ft_write :: "nat option" \<comment> \<open>the write fails after this many bytes\<close>

definition no_faults :: faults where
  "no_faults = \<lparr>ft_open = OpenOk, ft_reopen = OpenOk, ft_remove = False, ft_shift = (\<lambda>_. False), ft_rename = False, ft_write = None\<rparr>"

datatype file_error = NotExist | OtherError

definition Remove :: "bool \<Rightarrow> string \<Rightarrow> files \<Rightarrow> files" where
  "Remove fails p fs = (if fails then fs else fs(p := None))"

definition Rename :: "bool \<Rightarrow> string \<Rightarrow> string \<Rightarrow> files \<Rightarrow> file_error option \<times> files" where
  "Rename fails a b fs =
     (if fs a = None then (Some NotExist, fs)
      else if fails then (Some OtherError, fs)
      else (None, fs(b := fs a, a := None)))"

section \<open>The log\<close>

record auditLog =
  al_path :: string
  al_max :: int
  al_backups :: nat
  al_open :: bool
  al_size :: int

definition auditMaxBytes :: int where "auditMaxBytes = 10 * 2 ^ 20"
definition auditBackups :: nat where "auditBackups = 4"

definition open_log :: "open_result \<Rightarrow> auditLog \<times> files \<Rightarrow> bool \<times> auditLog \<times> files" where
  "open_log r st =
     (case st of (l, fs) \<Rightarrow>
        let content = (case fs (al_path l) of Some s \<Rightarrow> s | None \<Rightarrow> []);
            fs' = fs(al_path l := Some content)
        in case r of
             OpenFails \<Rightarrow> (False, l, fs)
           | StatFails \<Rightarrow> (False, l, fs')
           | OpenOk \<Rightarrow> (True, l\<lparr>al_open := True, al_size := int (length content)\<rparr>, fs'))"

definition openAudit :: "open_result \<Rightarrow> string \<Rightarrow> int \<Rightarrow> nat \<Rightarrow> files \<Rightarrow> (auditLog \<times> files) option" where
  "openAudit r path mx backups fs =
     (case open_log r (\<lparr>al_path = path, al_max = mx, al_backups = backups, al_open = False, al_size = 0\<rparr>, fs) of
        (ok, st) \<Rightarrow> if ok then Some st else None)"

definition backup :: "auditLog \<Rightarrow> nat \<Rightarrow> string" where
  "backup l i = al_path l @ ''.'' @ itoa i"

text \<open>The loop of \<^verbatim>\<open>rotate\<close>: file \<open>i\<close> becomes file \<open>i + 1\<close>, from the given one down to the first.\<close>

fun rotate_shift :: "faults \<Rightarrow> auditLog \<Rightarrow> nat \<Rightarrow> files \<Rightarrow> files" where
  "rotate_shift ft l 0 fs = fs"
| "rotate_shift ft l (Suc i) fs =
     rotate_shift ft l i (snd (Rename (ft_shift ft (Suc i)) (backup l (Suc i)) (backup l (Suc (Suc i))) fs))"

definition rotate_log :: "faults \<Rightarrow> auditLog \<times> files \<Rightarrow> bool \<times> auditLog \<times> files" where
  "rotate_log ft st =
     (case st of (l, fs) \<Rightarrow>
        let l = l\<lparr>al_open := False\<rparr>;
            fs = Remove (ft_remove ft) (backup l (al_backups l)) fs;
            fs = rotate_shift ft l (al_backups l - 1) fs
        in case Rename (ft_rename ft) (al_path l) (backup l 1) fs of
             (Some OtherError, fs) \<Rightarrow> (False, l, fs)
           | (_, fs) \<Rightarrow> open_log (ft_reopen ft) (l, fs))"

datatype write_error = MarshalError | OpenError | RotateError | WriteError

definition append_line :: "faults \<Rightarrow> string \<Rightarrow> auditLog \<times> files \<Rightarrow> write_error option \<times> auditLog \<times> files" where
  "append_line ft b st =
     (case st of (l, fs) \<Rightarrow>
        let n = (case ft_write ft of None \<Rightarrow> length b | Some k \<Rightarrow> min k (length b))
        in (if ft_write ft = None then None else Some WriteError,
            l\<lparr>al_size := al_size l + int n\<rparr>,
            fs(al_path l := map_option (\<lambda>s. s @ take n b) (fs (al_path l)))))"

definition write_audit :: "faults \<Rightarrow> auditEntry \<Rightarrow> auditLog \<times> files \<Rightarrow> write_error option \<times> auditLog \<times> files" where
  "write_audit ft e st =
     (case Marshal e of
        None \<Rightarrow> (Some MarshalError, st)
      | Some line \<Rightarrow>
          let b = line @ [CHR 0x0A]
          in case (if al_open (fst st) then (True, st) else open_log (ft_open ft) st) of
               (False, st) \<Rightarrow> (Some OpenError, st)
             | (True, st) \<Rightarrow>
                 (case (if al_size (fst st) > 0 \<and> al_size (fst st) + int (length b) > al_max (fst st)
                        then rotate_log ft st else (True, st)) of
                    (False, st) \<Rightarrow> (Some RotateError, st)
                  | (True, st) \<Rightarrow> append_line ft b st))"

definition close_log :: "auditLog \<Rightarrow> auditLog" where
  "close_log l = l\<lparr>al_open := False\<rparr>"

section \<open>Reading the newest lines\<close>

record reads =
  rd_open :: "string \<Rightarrow> bool" \<comment> \<open>opening or inspecting the file fails\<close>
  rd_at :: "string \<Rightarrow> nat \<Rightarrow> bool" \<comment> \<open>reading at the offset fails\<close>

definition no_read_faults :: reads where
  "no_read_faults = \<lparr>rd_open = (\<lambda>_. False), rd_at = (\<lambda>_ _. False)\<rparr>"

definition LastIndexByte :: "string \<Rightarrow> char \<Rightarrow> nat option" where
  "LastIndexByte s c = map_option (\<lambda>j. length s - 1 - j) (index_char c (rev s))"

definition tail_chunk :: nat where "tail_chunk = 64 * 1024"

text \<open>The inner loop of \<^verbatim>\<open>tailFile\<close>: the complete lines of the buffer from its end, what is left of the buffer
  and of the count.\<close>

function tail_lines :: "string \<Rightarrow> nat \<Rightarrow> string list \<times> string \<times> nat" where
  "tail_lines buf n =
     (if n = 0 then ([], buf, n)
      else case LastIndexByte buf (CHR 0x0A) of
        None \<Rightarrow> ([], buf, n)
      | Some i \<Rightarrow>
          let line = TrimSpace (drop (Suc i) buf)
          in if length line > 0
             then (case tail_lines (take i buf) (n - 1) of (ls, r, m) \<Rightarrow> (line # ls, r, m))
             else tail_lines (take i buf) n)"
  by pat_completeness auto

lemma index_char_less: "index_char c s = Some i \<Longrightarrow> i < length s"
  by (induction s arbitrary: i) (auto split: if_splits option.splits)

lemma LastIndexByte_less: "LastIndexByte s c = Some i \<Longrightarrow> i < length s"
  by (auto simp: LastIndexByte_def dest: index_char_less)

termination tail_lines
  by (relation "measure (\<lambda>(buf, n). length buf)") (auto dest: LastIndexByte_less)

declare tail_lines.simps [simp del]

text \<open>The outer loop, over the chunks of the file from its end; the boolean is a failed read.\<close>

function tail_chunks :: "(nat \<Rightarrow> bool) \<Rightarrow> nat \<Rightarrow> string \<Rightarrow> nat \<Rightarrow> string \<Rightarrow> nat \<Rightarrow> bool \<times> string list \<times> string \<times> nat" where
  "tail_chunks bad chunk content off rest n =
     (if off > 0 \<and> n > 0 \<and> chunk > 0
      then let sz = min chunk off; off' = off - sz
           in if bad off' then (True, [], rest, n)
              else case tail_lines (take sz (drop off' content) @ rest) n of (ls, rest', n') \<Rightarrow>
                (case tail_chunks bad chunk content off' rest' n' of (err, ls', r, m) \<Rightarrow> (err, ls @ ls', r, m))
      else (False, [], rest, n))"
  by pat_completeness auto

termination tail_chunks
  by (relation "measure (\<lambda>(bad, chunk, content, off, rest, n). off)") auto

declare tail_chunks.simps [simp del]

definition tailFile :: "reads \<Rightarrow> files \<Rightarrow> string \<Rightarrow> nat \<Rightarrow> string list \<times> file_error option" where
  "tailFile rd fs p n =
     (case fs p of
        None \<Rightarrow> ([], Some NotExist)
      | Some content \<Rightarrow>
          if rd_open rd p then ([], Some OtherError)
          else case tail_chunks (rd_at rd p) tail_chunk content (length content) [] n of
            (True, ls, _, _) \<Rightarrow> (ls, Some OtherError)
          | (False, ls, rest, m) \<Rightarrow>
              let line = TrimSpace rest
              in (if m > 0 \<and> length line > 0 then ls @ [line] else ls, None))"

fun tail_files :: "reads \<Rightarrow> files \<Rightarrow> nat \<Rightarrow> string list \<Rightarrow> string list \<Rightarrow> string list \<times> bool" where
  "tail_files rd fs limit out [] = (out, True)"
| "tail_files rd fs limit out (p # ps) =
     (if length out \<ge> limit then (out, True)
      else case tailFile rd fs p (limit - length out) of (ls, err) \<Rightarrow>
        let out = out @ filter Valid ls
        in case err of
             Some NotExist \<Rightarrow> (out, True)
           | Some OtherError \<Rightarrow> (out, False)
           | None \<Rightarrow> tail_files rd fs limit out ps)"

definition Tail :: "reads \<Rightarrow> int \<Rightarrow> auditLog \<times> files \<Rightarrow> string list \<times> bool" where
  "Tail rd limit st =
     (if limit \<le> 0 then ([], True)
      else case st of (l, fs) \<Rightarrow>
        tail_files rd fs (nat limit) [] (al_path l # map (backup l) [1 ..< Suc (al_backups l)]))"

section \<open>The backward reader is the last lines of the file\<close>

text \<open>The reference: the last non-empty lines, newest first.\<close>

definition last_lines :: "nat \<Rightarrow> string \<Rightarrow> string list" where
  "last_lines n s = take n (filter (\<lambda>x. x \<noteq> []) (map TrimSpace (rev (Split s (CHR 0x0A)))))"

lemma index_char_Some: "index_char c s = Some i \<Longrightarrow> s = take i s @ c # drop (Suc i) s \<and> c \<notin> set (take i s)"
  by (induction s arbitrary: i) (auto split: if_splits option.splits)

lemma LastIndexByte_None: "LastIndexByte s c = None \<longleftrightarrow> c \<notin> set s"
  by (simp add: LastIndexByte_def index_char_None)

lemma LastIndexByte_Some:
  assumes "LastIndexByte s c = Some i"
  shows "s = take i s @ c # drop (Suc i) s" "c \<notin> set (drop (Suc i) s)"
proof -
  obtain j where j: "index_char c (rev s) = Some j" "i = length s - 1 - j"
    using assms by (auto simp: LastIndexByte_def)
  have len: "j < length s" using index_char_less [OF j(1)] by simp
  have r: "rev s = take j (rev s) @ c # drop (Suc j) (rev s)" "c \<notin> set (take j (rev s))"
    using index_char_Some [OF j(1)] by blast+
  have d: "drop (Suc i) s = rev (take j (rev s))" and t: "take i s = rev (drop (Suc j) (rev s))"
    using len j(2) by (simp_all add: take_rev drop_rev Suc_diff_Suc)
  show "c \<notin> set (drop (Suc i) s)" unfolding d using r(2) by simp
  have "rev (rev s) = rev (drop (Suc j) (rev s)) @ c # rev (take j (rev s))"
    by (subst r(1)) simp
  then show "s = take i s @ c # drop (Suc i) s" unfolding d t by simp
qed

lemma Split_plain: "c \<notin> set s \<Longrightarrow> Split s c = [s]"
  by (induction s) auto

lemma Split_sep: "Split (a @ c # b) c = Split a c @ Split b c"
proof (induction a)
  case (Cons x a)
  then show ?case by (cases "Split a c") (auto split: list.splits)
qed simp

lemma last_lines_0 [simp]: "last_lines 0 s = []"
  by (simp add: last_lines_def)

lemma last_lines_plain:
  "CHR 0x0A \<notin> set s \<Longrightarrow> last_lines n s = (if n > 0 \<and> TrimSpace s \<noteq> [] then [TrimSpace s] else [])"
  by (cases n) (simp_all add: last_lines_def Split_plain)

lemma last_lines_sep:
  assumes "CHR 0x0A \<notin> set b"
  shows "last_lines (Suc n) (a @ CHR 0x0A # b) =
    (if TrimSpace b \<noteq> [] then TrimSpace b # last_lines n a else last_lines (Suc n) a)"
  using assms by (simp add: last_lines_def Split_sep Split_plain)

lemma tail_lines_spec:
  "tail_lines buf n = (ls, rest, m) \<Longrightarrow>
   last_lines n (p @ buf) = ls @ last_lines m (p @ rest) \<and> (m > 0 \<longrightarrow> CHR 0x0A \<notin> set rest)"
proof (induction buf n arbitrary: ls rest m rule: tail_lines.induct)
  case (1 buf n)
  show ?case
  proof (cases "n = 0 \<or> LastIndexByte buf (CHR 0x0A) = None")
    case True
    then have "tail_lines buf n = ([], buf, n)" by (subst tail_lines.simps) auto
    with True "1.prems" show ?thesis by (auto simp: LastIndexByte_None)
  next
    case False
    then obtain i n' where i: "LastIndexByte buf (CHR 0x0A) = Some i" and n: "n = Suc n'"
      by (cases n) auto
    define a b where "a = take i buf" and "b = drop (Suc i) buf"
    have buf: "buf = a @ CHR 0x0A # b" "CHR 0x0A \<notin> set b"
      using LastIndexByte_Some [OF i] unfolding a_def b_def by blast+
    have last: "last_lines n (p @ buf) =
        (if TrimSpace b \<noteq> [] then TrimSpace b # last_lines n' (p @ a) else last_lines n (p @ a))"
      unfolding n buf(1) append_assoc [symmetric] by (rule last_lines_sep [OF buf(2)])
    show ?thesis
    proof (cases "TrimSpace b = []")
      case True
      then have "tail_lines buf n = tail_lines a n"
        using i n by (subst tail_lines.simps) (simp add: a_def b_def)
      then have "tail_lines a n = (ls, rest, m)" using "1.prems" by simp
      with "1.IH"(2) [OF _ i refl, of ls rest m] True n last show ?thesis by (simp add: a_def b_def)
    next
      case False
      obtain ls' where ls': "tail_lines a n' = (ls', rest, m)" "ls = TrimSpace b # ls'"
        using "1.prems" i n False
        by (subst (asm) tail_lines.simps) (auto simp: a_def b_def split: prod.splits)
      with "1.IH"(1) [OF _ i refl, of ls' rest m] False n last show ?thesis by (simp add: a_def b_def)
    qed
  qed
qed

lemma tail_chunks_spec:
  assumes "\<And>i. \<not> bad i" "chunk > 0" "off \<le> length content" "n > 0 \<Longrightarrow> CHR 0x0A \<notin> set rest"
    and "tail_chunks bad chunk content off rest n = (err, ls, r, m)"
  shows "\<not> err \<and> last_lines n (take off content @ rest) =
    ls @ (if m > 0 \<and> TrimSpace r \<noteq> [] then [TrimSpace r] else [])"
  using assms
proof (induction off arbitrary: rest n err ls r m rule: less_induct)
  case (less off)
  show ?case
  proof (cases "off > 0 \<and> n > 0")
    case False
    then have "tail_chunks bad chunk content off rest n = (False, [], rest, n)"
      by (subst tail_chunks.simps) auto
    then have e: "\<not> err" "ls = []" "r = rest" "m = n" using less.prems(5) by simp_all
    have "n = 0 \<or> off = 0" using False by auto
    then show ?thesis
      unfolding e(2,3,4) using e(1) less.prems(4) by (cases "n = 0") (auto simp: last_lines_plain)
  next
    case True
    define off' where "off' = off - min chunk off"
    have off': "off' < off" using True less.prems(2) by (simp add: off'_def)
    obtain ls1 r1 n1 where t: "tail_lines (take (min chunk off) (drop off' content) @ rest) n = (ls1, r1, n1)"
      by (metis prod_cases3)
    obtain err2 ls2 where c: "tail_chunks bad chunk content off' r1 n1 = (err2, ls2, r, m)" "err = err2" "ls = ls1 @ ls2"
      using less.prems True t
      by (subst (asm) tail_chunks.simps) (auto simp: Let_def off'_def split: prod.splits)
    have "take off content = take off' content @ take (min chunk off) (drop off' content)"
      unfolding off'_def by (simp flip: take_add)
    with tail_lines_spec [OF t, of "take off' content"]
    have "last_lines n (take off content @ rest) = ls1 @ last_lines n1 (take off' content @ r1)" "n1 > 0 \<longrightarrow> CHR 0x0A \<notin> set r1"
      by simp_all
    with less.IH [OF off' less.prems(1,2) _ _ c(1)] less.prems(3) off' c(2,3) show ?thesis by simp
  qed
qed

lemma tailFile_last_lines:
  assumes "fs p = Some content" "\<not> rd_open rd p" "\<And>i. \<not> rd_at rd p i"
  shows "tailFile rd fs p n = (last_lines n content, None)"
proof -
  obtain err ls r m where c: "tail_chunks (rd_at rd p) tail_chunk content (length content) [] n = (err, ls, r, m)"
    by (metis prod_cases4)
  have "\<not> err \<and> last_lines n content = ls @ (if m > 0 \<and> TrimSpace r \<noteq> [] then [TrimSpace r] else [])"
    using tail_chunks_spec [OF _ _ _ _ c] assms(3) by (simp add: tail_chunk_def)
  with assms c show ?thesis by (auto simp: tailFile_def)
qed

section \<open>The log as a list of segments\<close>

text \<open>
  The specification: a log is its files, the current one first, each the list of its lines. A write
  starts a new segment when the line does not fit and drops the oldest beyond the number of backups.
\<close>

definition render :: "string list \<Rightarrow> string" where
  "render xs = concat (map (\<lambda>x. x @ [CHR 0x0A]) xs)"

definition seg_write :: "int \<Rightarrow> nat \<Rightarrow> string \<Rightarrow> string list list \<Rightarrow> string list list" where
  "seg_write mx backups x segs =
     (case segs of
        [] \<Rightarrow> [[x]]
      | cur # olds \<Rightarrow>
          if cur \<noteq> [] \<and> int (length (render cur)) + int (length x) + 1 > mx
          then [x] # take backups (cur # olds)
          else (cur @ [x]) # olds)"

definition represents :: "auditLog \<times> files \<Rightarrow> string list list \<Rightarrow> bool" where
  "represents st segs =
     (case st of (l, fs) \<Rightarrow>
        segs \<noteq> [] \<and> length segs \<le> Suc (al_backups l) \<and> 0 < al_backups l \<and>
        fs (al_path l) = Some (render (hd segs)) \<and>
        (\<forall>i. 1 \<le> i \<and> i \<le> al_backups l \<longrightarrow> fs (backup l i) = (if i < length segs then Some (render (segs ! i)) else None)) \<and>
        (al_open l \<longrightarrow> al_size l = int (length (render (hd segs)))))"

lemma render_Nil [simp]: "render [] = []"
  by (simp add: render_def)

lemma render_lines_append [simp]: "render (a @ b) = render a @ render b"
  by (simp add: render_def)

lemma render_single [simp]: "render [x] = x @ [CHR 0x0A]"
  by (simp add: render_def)

lemma render_eq_Nil [simp]: "render xs = [] \<longleftrightarrow> xs = []"
  by (cases xs) (simp_all add: render_def)

lemma backup_inject [simp]: "backup l i = backup l j \<longleftrightarrow> i = j"
  by (simp add: backup_def)

lemma backup_not_path [simp]: "backup l i \<noteq> al_path l" "al_path l \<noteq> backup l i"
  by (simp_all add: backup_def)

lemma backup_update [simp]:
  "backup (l\<lparr>al_size := s\<rparr>) = backup l" "backup (l\<lparr>al_open := b\<rparr>) = backup l"
  by (rule ext, simp add: backup_def)+

lemma rotate_shift_spec:
  assumes "\<And>i. \<not> ft_shift ft i" "fs (backup l (Suc k)) = None"
  shows "rotate_shift ft l k fs (backup l j) =
      (if 2 \<le> j \<and> j \<le> Suc k then fs (backup l (j - 1)) else if j = 1 \<and> 0 < k then None else fs (backup l j)) \<and>
    rotate_shift ft l k fs (al_path l) = fs (al_path l)"
  using assms(2)
proof (induction k arbitrary: fs)
  case (Suc k)
  let ?fs = "snd (Rename (ft_shift ft (Suc k)) (backup l (Suc k)) (backup l (Suc (Suc k))) fs)"
  have fs: "?fs (backup l (Suc k)) = None" "?fs (backup l (Suc (Suc k))) = fs (backup l (Suc k))"
    "\<And>j. j \<noteq> Suc k \<Longrightarrow> j \<noteq> Suc (Suc k) \<Longrightarrow> ?fs (backup l j) = fs (backup l j)" "?fs (al_path l) = fs (al_path l)"
    using Suc.prems assms(1) by (simp_all add: Rename_def)
  from Suc.IH [of ?fs] fs show ?case
    by (cases "j = Suc (Suc k)"; cases "j = Suc k") auto
qed auto

lemma no_faults_simps [simp]:
  "ft_open no_faults = OpenOk" "ft_reopen no_faults = OpenOk" "\<not> ft_remove no_faults" "\<not> ft_shift no_faults i"
  "\<not> ft_rename no_faults" "ft_write no_faults = None"
  by (simp_all add: no_faults_def)

text \<open>The configuration of a log does not change.\<close>

definition same_config :: "auditLog \<Rightarrow> auditLog \<Rightarrow> bool" where
  "same_config l l' = (al_path l' = al_path l \<and> al_max l' = al_max l \<and> al_backups l' = al_backups l)"

lemma representsD:
  assumes "represents (l, fs) segs"
  shows "segs \<noteq> []" "length segs \<le> Suc (al_backups l)" "0 < al_backups l" "fs (al_path l) = Some (render (hd segs))"
    "1 \<le> i \<Longrightarrow> i \<le> al_backups l \<Longrightarrow> fs (backup l i) = (if i < length segs then Some (render (segs ! i)) else None)"
    "al_open l \<Longrightarrow> al_size l = int (length (render (hd segs)))"
  using assms unfolding represents_def by auto

lemma representsI:
  assumes "segs \<noteq> []" "length segs \<le> Suc (al_backups l)" "0 < al_backups l" "fs (al_path l) = Some (render (hd segs))"
    "\<And>i. 1 \<le> i \<Longrightarrow> i \<le> al_backups l \<Longrightarrow> fs (backup l i) = (if i < length segs then Some (render (segs ! i)) else None)"
    "al_open l \<Longrightarrow> al_size l = int (length (render (hd segs)))"
  shows "represents (l, fs) segs"
  unfolding represents_def using assms by auto

lemma open_represents:
  assumes "represents (l, fs) segs"
  shows "\<exists>l'. open_log OpenOk (l, fs) = (True, l', fs) \<and> represents (l', fs) segs \<and> al_open l' \<and> same_config l l'"
proof -
  let ?l = "l\<lparr>al_open := True, al_size := int (length (render (hd segs)))\<rparr>"
  have "fs(al_path l := Some (render (hd segs))) = fs"
    using representsD(4) [OF assms] by (simp add: fun_upd_idem)
  then have "open_log OpenOk (l, fs) = (True, ?l, fs)"
    using representsD(4) [OF assms] by (simp add: open_log_def Let_def)
  moreover have "represents (?l, fs) segs"
    by (rule representsI) (use representsD [OF assms] in simp_all)
  ultimately show ?thesis by (intro exI [of _ ?l]) (simp add: same_config_def)
qed

lemma rotate_represents:
  assumes r: "represents (l, fs) segs"
  shows "\<exists>l' fs'. rotate_log no_faults (l, fs) = (True, l', fs') \<and>
    represents (l', fs') ([] # take (al_backups l) segs) \<and> al_open l' \<and> same_config l l'"
proof -
  let ?l = "l\<lparr>al_open := False\<rparr>" and ?n = "al_backups l"
  note R = representsD [OF r]
  define fs1 where "fs1 = fs(backup l ?n := None)"
  define fs2 where "fs2 = rotate_shift no_faults ?l (?n - 1) fs1"
  have none: "fs1 (backup ?l (Suc (?n - 1))) = None" using R(3) by (simp add: fs1_def)
  have nf: "\<not> ft_shift no_faults i" for i by simp
  have shift: "fs2 (backup l j) = (if 2 \<le> j \<and> j \<le> ?n then fs1 (backup l (j - 1)) else if j = 1 \<and> 1 < ?n then None else fs1 (backup l j))" for j
    using rotate_shift_spec [where ft = no_faults and fs = fs1 and l = ?l and k = "?n - 1" and j = j, OF nf none] R(3)
    unfolding fs2_def by auto
  have p: "fs2 (al_path l) = Some (render (hd segs))"
    using rotate_shift_spec [where ft = no_faults and fs = fs1 and l = ?l and k = "?n - 1", OF nf none] R(4)
    unfolding fs2_def by (simp add: fs1_def)
  define fs3 where "fs3 = fs2(backup l 1 := Some (render (hd segs)), al_path l := Some [])"
  let ?l' = "l\<lparr>al_open := True, al_size := 0\<rparr>"

  have "rotate_log no_faults (l, fs) = (True, ?l', fs3)"
    using p unfolding rotate_log_def
    by (simp add: Let_def Remove_def Rename_def open_log_def fs3_def fs2_def fs1_def)
  moreover have "represents (?l', fs3) ([] # take ?n segs)"
  proof (rule representsI)
    fix i assume i: "1 \<le> i" "i \<le> al_backups ?l'"
    show "fs3 (backup ?l' i) =
        (if i < length ([] # take ?n segs) then Some (render (([] # take ?n segs) ! i)) else None)"
      using i R(1,2,3) R(5) [of "i - 1"]
      by (cases "i = 1") (auto simp: fs3_def shift fs1_def hd_conv_nth nth_Cons' min_def)
  qed (use R in \<open>simp_all add: fs3_def\<close>)
  ultimately show ?thesis by (intro exI [of _ ?l'] exI [of _ fs3]) (simp add: same_config_def)
qed

lemma same_config_trans: "same_config a b \<Longrightarrow> same_config b c \<Longrightarrow> same_config a c"
  by (simp add: same_config_def)

lemma append_represents:
  assumes r: "represents (l, fs) segs" and o: "al_open l"
  shows "\<exists>l' fs'. append_line no_faults (x @ [CHR 0x0A]) (l, fs) = (None, l', fs') \<and>
    represents (l', fs') ((hd segs @ [x]) # tl segs) \<and> same_config l l'"
proof -
  note R = representsD [OF r]
  let ?b = "x @ [CHR 0x0A]"
  let ?l = "l\<lparr>al_size := al_size l + int (length ?b)\<rparr>" and ?fs = "fs(al_path l := Some (render (hd segs) @ ?b))"
  have "append_line no_faults ?b (l, fs) = (None, ?l, ?fs)"
    using R(4) by (simp add: append_line_def Let_def)
  moreover have "represents (?l, ?fs) ((hd segs @ [x]) # tl segs)"
    by (rule representsI) (use R o in \<open>auto simp: nth_tl nth_Cons'\<close>)
  ultimately show ?thesis by (intro exI [of _ ?l] exI [of _ ?fs]) (simp add: same_config_def)
qed

lemma write_represents:
  assumes r: "represents (l, fs) segs" and x: "Marshal e = Some x"
  shows "\<exists>l' fs'. write_audit no_faults e (l, fs) = (None, l', fs') \<and>
    represents (l', fs') (seg_write (al_max l) (al_backups l) x segs) \<and> same_config l l'"
proof -
  let ?b = "x @ [CHR 0x0A]"
  obtain l1 where l1: "(if al_open l then (True, l, fs) else open_log OpenOk (l, fs)) = (True, l1, fs)"
    "represents (l1, fs) segs" "al_open l1" "same_config l l1"
    using open_represents [OF r] r by (cases "al_open l") (auto simp: same_config_def)
  note R = representsD [OF l1(2)]
  have size: "al_size l1 = int (length (render (hd segs)))" using R(6) l1(3) by simp
  let ?full = "hd segs \<noteq> [] \<and> int (length (render (hd segs))) + int (length x) + 1 > al_max l"
  have full: "al_size l1 > 0 \<and> al_size l1 + int (length ?b) > al_max l1 \<longleftrightarrow> ?full"
    using l1(4) by (auto simp: size same_config_def)
  have w: "write_audit no_faults e (l, fs) =
      (case (if ?full then rotate_log no_faults (l1, fs) else (True, l1, fs)) of
         (False, st) \<Rightarrow> (Some RotateError, st) | (True, st) \<Rightarrow> append_line no_faults ?b st)"
    unfolding write_audit_def x option.case Let_def fst_conv no_faults_simps(1) l1(1) prod.case bool.case full ..
  obtain l2 fs2 where l2: "(if ?full then rotate_log no_faults (l1, fs) else (True, l1, fs)) = (True, l2, fs2)"
    "represents (l2, fs2) (if ?full then [] # take (al_backups l) segs else segs)" "al_open l2" "same_config l l2"
    using rotate_represents [OF l1(2)] l1(2-4) by (cases ?full) (auto simp: same_config_def)
  obtain l3 fs3 where l3: "append_line no_faults ?b (l2, fs2) = (None, l3, fs3)" "same_config l2 l3"
    "represents (l3, fs3) ((hd (if ?full then [] # take (al_backups l) segs else segs) @ [x]) #
       tl (if ?full then [] # take (al_backups l) segs else segs))"
    using append_represents [OF l2(2,3)] by blast
  have "seg_write (al_max l) (al_backups l) x segs = (hd (if ?full then [] # take (al_backups l) segs else segs) @ [x]) #
       tl (if ?full then [] # take (al_backups l) segs else segs)"
    using R(1) by (cases segs) (auto simp: seg_write_def)
  with w l2(1) l3 same_config_trans [OF l2(4) l3(2)] show ?thesis by simp
qed

section \<open>Lines of the log\<close>

definition line_shape :: "string \<Rightarrow> bool" where
  "line_shape x \<longleftrightarrow> one_line x \<and> x \<noteq> [] \<and> TrimSpace x = x"

definition line_ok :: "string \<Rightarrow> bool" where
  "line_ok x \<longleftrightarrow> line_shape x \<and> Valid x"

lemma line_shapeI: "x \<noteq> [] \<Longrightarrow> one_line x \<Longrightarrow> printable (hd x) \<Longrightarrow> printable (last x) \<Longrightarrow> line_shape x"
  by (simp add: line_shape_def TrimSpace_id)

lemma object_ends: "object kvs \<noteq> []" "hd (object kvs) = CHR ''{''" "last (object kvs) = CHR ''}''"
  by (simp_all add: object_def)

lemma Marshal_line:
  assumes "Marshal e = Some x"
  shows "line_ok x"
proof -
  obtain t where t: "time_json (ae_at e) = Some t" and x: "x = object (entry_fields e t)"
    using assms by (auto simp: Marshal_def)
  have "\<forall>kv \<in> set (omitempty k s). value_ok (snd kv) \<and> one_line (snd kv)" for k s
    by (simp add: omitempty_def appendString_ok)
  then have "\<forall>kv \<in> set (entry_fields e t). value_ok (snd kv) \<and> one_line (snd kv)"
    using time_json_ok [OF t] by (simp add: entry_fields_def appendString_ok itoa_int_ok ball_Un)
  moreover have "entry_fields e t \<noteq> []" by (simp add: entry_fields_def)
  ultimately have "Valid x" "one_line x" unfolding x by (simp_all add: object_valid one_line_object)
  then show ?thesis unfolding line_ok_def x by (auto intro!: line_shapeI simp: object_ends printable_def)
qed

lemma Split_lines: "\<forall>x \<in> set xs. one_line x \<Longrightarrow> Split (render xs) (CHR 0x0A) = xs @ [[]]"
proof (induction xs)
  case (Cons x xs)
  have "CHR 0x0A \<notin> set x" using Cons.prems by (auto simp: one_line_def list_all_iff)
  then have "Split (x @ CHR 0x0A # render xs) (CHR 0x0A) = x # Split (render xs) (CHR 0x0A)"
    by (simp add: Split_sep Split_plain)
  moreover have "render (x # xs) = x @ CHR 0x0A # render xs" by (simp add: render_def)
  ultimately show ?case using Cons by simp
qed simp

lemma last_lines_render:
  assumes "\<forall>x \<in> set xs. line_shape x"
  shows "last_lines n (render xs) = take n (rev xs)"
proof -
  have "TrimSpace [] = []" by code_simp
  moreover have "map TrimSpace (rev xs) = rev xs" "filter (\<lambda>x. x \<noteq> []) (rev xs) = rev xs"
    using assms by (auto simp: line_shape_def intro!: map_idI)
  ultimately show ?thesis using assms by (simp add: last_lines_def Split_lines line_shape_def)
qed

lemma tailFile_render:
  assumes "fs p = Some (render xs)" "\<forall>x \<in> set xs. line_shape x"
  shows "tailFile no_read_faults fs p n = (take n (rev xs), None)"
  using tailFile_last_lines [of fs p "render xs" no_read_faults n] last_lines_render [OF assms(2)] assms(1)
  by (simp add: no_read_faults_def)

lemma tail_files_segs:
  assumes "\<And>i. i < length ps \<Longrightarrow> fs (ps ! i) = (if i < length segs then Some (render (segs ! i)) else None)"
    "length segs \<le> length ps" "\<forall>seg \<in> set segs. \<forall>x \<in> set seg. line_ok x"
  shows "tail_files no_read_faults fs limit out ps = (out @ take (limit - length out) (concat (map rev segs)), True)"
  using assms
proof (induction ps arbitrary: out segs)
  case (Cons p ps)
  note fs = Cons.prems(1)
  show ?case
  proof (cases "length out \<ge> limit \<or> segs = []")
    case True
    with fs [of 0] show ?thesis by (auto simp: tailFile_def)
  next
    case False
    then obtain seg segs' where segs: "segs = seg # segs'" by (cases segs) auto
    have "fs p = Some (render seg)" using fs [of 0] segs by simp
    then have t: "tailFile no_read_faults fs p n = (take n (rev seg), None)" for n
      using Cons.prems(3) segs by (simp add: tailFile_render line_ok_def)
    have "filter Valid (take n (rev seg)) = take n (rev seg)" for n
      using Cons.prems(3) segs by (auto simp: line_ok_def filter_id_conv dest: in_set_takeD)
    then have "tail_files no_read_faults fs limit out (p # ps) =
        tail_files no_read_faults fs limit (out @ take (limit - length out) (rev seg)) ps"
      using False t by simp
    also have "\<dots> = ((out @ take (limit - length out) (rev seg)) @
        take (limit - length (out @ take (limit - length out) (rev seg))) (concat (map rev segs')), True)"
      using Cons.prems(2,3) segs fs [of "Suc _"] by (intro Cons.IH) auto
    finally show ?thesis using False segs by (auto simp: min_def)
  qed
qed auto

lemma Tail_represents:
  assumes r: "represents (l, fs) segs" and ok: "\<forall>seg \<in> set segs. \<forall>x \<in> set seg. line_ok x"
  shows "Tail no_read_faults limit (l, fs) = (take (nat limit) (concat (map rev segs)), True)"
proof -
  note R = representsD [OF r]
  let ?ps = "al_path l # map (backup l) [1 ..< Suc (al_backups l)]"
  have "fs (?ps ! i) = (if i < length segs then Some (render (segs ! i)) else None)" if "i < length ?ps" for i
    using that R(1,4) R(5) [of i] by (cases i) (auto simp: hd_conv_nth simp del: upt_Suc)
  then have "tail_files no_read_faults fs (nat limit) [] ?ps = (take (nat limit) (concat (map rev segs)), True)"
    using tail_files_segs [of ?ps fs segs "nat limit" "[]"] R(2) ok by (simp del: upt_Suc)
  then show ?thesis by (simp add: Tail_def del: tail_files.simps upt_Suc)
qed

section \<open>What the log retains\<close>

datatype log_op = WriteOp auditEntry | Restart

definition log_step :: "log_op \<Rightarrow> auditLog \<times> files \<Rightarrow> auditLog \<times> files" where
  "log_step opn st =
     (case opn of
        WriteOp e \<Rightarrow> snd (write_audit no_faults e st)
      | Restart \<Rightarrow>
          (case openAudit OpenOk (al_path (fst st)) (al_max (fst st)) (al_backups (fst st)) (snd st) of
             Some st' \<Rightarrow> st' | None \<Rightarrow> st))"

definition run_log :: "log_op list \<Rightarrow> auditLog \<times> files \<Rightarrow> auditLog \<times> files" where
  "run_log ops st = fold log_step ops st"

definition line_of :: "log_op \<Rightarrow> string list" where
  "line_of opn = (case opn of WriteOp e \<Rightarrow> (case Marshal e of Some x \<Rightarrow> [x] | None \<Rightarrow> []) | Restart \<Rightarrow> [])"

definition written :: "log_op list \<Rightarrow> string list" where
  "written ops = concat (map line_of ops)"

text \<open>
  The segments hold the end of what was written: either nothing was dropped, or all backups exist.
  Every backup is nearly full, up to the longest line \<open>w\<close>.
\<close>

definition retains :: "int \<Rightarrow> nat \<Rightarrow> int \<Rightarrow> string list \<Rightarrow> string list list \<Rightarrow> bool" where
  "retains mx backups w xs segs \<longleftrightarrow>
     (\<exists>dropped. xs = dropped @ concat (rev segs) \<and> (dropped = [] \<or> length segs = Suc backups)) \<and>
     (\<forall>seg \<in> set (tl segs). int (length (render seg)) > mx - w) \<and> segs \<noteq> [] \<and> length segs \<le> Suc backups"

lemma seg_write_retains:
  assumes "retains mx backups w xs segs" "int (length x) + 1 \<le> w" "0 < backups"
  shows "retains mx backups w (xs @ [x]) (seg_write mx backups x segs)"
proof -
  obtain cur olds where segs: "segs = cur # olds" using assms(1) by (cases segs) (auto simp: retains_def)
  obtain dropped where d: "xs = dropped @ concat (rev segs)" "dropped = [] \<or> length segs = Suc backups"
    using assms(1) by (auto simp: retains_def)
  have near: "\<forall>seg \<in> set olds. int (length (render seg)) > mx - w" and len: "length olds \<le> backups"
    using assms(1) segs by (auto simp: retains_def)
  show ?thesis
  proof (cases "cur \<noteq> [] \<and> int (length (render cur)) + int (length x) + 1 > mx")
    case True
    have "concat (rev segs) = concat (rev (drop backups segs)) @ concat (rev (take backups segs))"
      by (simp flip: concat_append rev_append)
    with d have "xs @ [x] = (dropped @ concat (rev (drop backups segs))) @ concat (rev ([x] # take backups segs))"
      by simp
    moreover have "dropped @ concat (rev (drop backups segs)) = [] \<or> length ([x] # take backups segs) = Suc backups"
      using d(2) by (cases "length segs \<le> backups") auto
    moreover have "\<forall>seg \<in> set (take backups segs). int (length (render seg)) > mx - w"
    proof
      fix seg assume "seg \<in> set (take backups segs)"
      then have "seg = cur \<or> seg \<in> set olds" using segs by (auto dest!: in_set_takeD)
      with near True assms(2) show "int (length (render seg)) > mx - w" by auto
    qed
    ultimately show ?thesis
      using True segs unfolding retains_def seg_write_def by (auto simp del: take_Cons')
  next
    case False
    with d near len segs show ?thesis unfolding retains_def seg_write_def by auto
  qed
qed

lemma render_Cons: "render (x # xs) = x @ CHR 0x0A # render xs"
  by (simp add: render_def)

lemma length_render_concat:
  "\<forall>seg \<in> set segs. int (length (render seg)) > k \<Longrightarrow> int (length segs) * k \<le> int (length (render (concat (rev segs))))"
  by (induction segs) (auto simp: algebra_simps)

lemma retains_newest:
  assumes r: "retains mx backups w (older @ newest) segs" and fits: "int (length (render newest)) \<le> int backups * (mx - w)"
  shows "\<exists>p. concat (rev segs) = p @ newest"
proof -
  obtain dropped where d: "older @ newest = dropped @ concat (rev segs)" "dropped = [] \<or> length segs = Suc backups"
    using r by (auto simp: retains_def)
  from d(2) show ?thesis
  proof
    assume len: "length segs = Suc backups"
    obtain cur olds where segs: "segs = cur # olds" using len by (cases segs) auto
    have "int backups * (mx - w) \<le> int (length (render (concat (rev olds))))"
      using length_render_concat [of olds "mx - w"] r len segs by (simp add: retains_def)
    then have big: "length (render newest) \<le> length (render (concat (rev segs)))"
      using fits segs by simp
    from d(1) show ?thesis
      unfolding append_eq_append_conv2
    proof (elim exE disjE conjE)
      fix us assume "older = dropped @ us" "us @ newest = concat (rev segs)"
      then show ?thesis by metis
    next
      fix us assume us: "older @ us = dropped" "newest = us @ concat (rev segs)"
      have "us = []" using big unfolding us(2) by simp
      with us show ?thesis by auto
    qed
  next
    assume "dropped = []"
    with d(1) have "concat (rev segs) = older @ newest" by simp
    then show ?thesis by blast
  qed
qed

lemma log_step_retains:
  assumes r: "represents st segs" and t: "retains (al_max (fst st)) (al_backups (fst st)) w xs segs"
    and ok: "\<forall>seg \<in> set segs. \<forall>x \<in> set seg. line_ok x" and w: "\<forall>x \<in> set (line_of opn). int (length x) + 1 \<le> w"
  shows "\<exists>segs'. represents (log_step opn st) segs' \<and> same_config (fst st) (fst (log_step opn st)) \<and>
    retains (al_max (fst st)) (al_backups (fst st)) w (xs @ line_of opn) segs' \<and> (\<forall>seg \<in> set segs'. \<forall>x \<in> set seg. line_ok x)"
proof -
  obtain l fs where st: "st = (l, fs)" by fastforce
  show ?thesis
  proof (cases opn)
    case (WriteOp e)
    show ?thesis
    proof (cases "Marshal e")
      case None
      with r t ok WriteOp show ?thesis by (auto simp: log_step_def write_audit_def line_of_def same_config_def)
    next
      case (Some x)
      let ?segs = "seg_write (al_max l) (al_backups l) x segs"
      have "represents (log_step opn st) ?segs" "same_config l (fst (log_step opn st))"
        using write_represents [of l fs segs, OF _ Some] r WriteOp st by (auto simp: log_step_def)
      moreover have "retains (al_max l) (al_backups l) w (xs @ line_of opn) ?segs"
        using seg_write_retains [of "al_max l" "al_backups l" w xs segs x] t w Some WriteOp st r
        by (auto simp: line_of_def represents_def)
      moreover have "\<forall>seg \<in> set ?segs. \<forall>x \<in> set seg. line_ok x"
        using ok Marshal_line [OF Some] by (cases segs) (auto simp: seg_write_def dest!: in_set_takeD)
      ultimately show ?thesis using st by auto
    qed
  next
    case Restart
    let ?l = "\<lparr>al_path = al_path l, al_max = al_max l, al_backups = al_backups l, al_open = False, al_size = 0\<rparr>"
    have b: "backup ?l = backup l" by (rule ext) (simp add: backup_def)
    have "represents (?l, fs) segs"
      by (rule representsI) (use representsD [OF r [unfolded st]] in \<open>simp_all add: b\<close>)
    from open_represents [OF this] st Restart t ok show ?thesis
      by (auto simp: log_step_def openAudit_def line_of_def same_config_def)
  qed
qed

lemma run_log_retains:
  assumes "represents st segs" "retains (al_max (fst st)) (al_backups (fst st)) w xs segs"
    "\<forall>seg \<in> set segs. \<forall>x \<in> set seg. line_ok x" "\<forall>x \<in> set (written ops). int (length x) + 1 \<le> w"
  shows "\<exists>segs'. represents (run_log ops st) segs' \<and>
    retains (al_max (fst st)) (al_backups (fst st)) w (xs @ written ops) segs' \<and> (\<forall>seg \<in> set segs'. \<forall>x \<in> set seg. line_ok x)"
  using assms
proof (induction ops arbitrary: st segs xs)
  case (Cons opn ops)
  obtain segs1 where s: "represents (log_step opn st) segs1" "same_config (fst st) (fst (log_step opn st))"
    "retains (al_max (fst st)) (al_backups (fst st)) w (xs @ line_of opn) segs1" "\<forall>seg \<in> set segs1. \<forall>x \<in> set seg. line_ok x"
    using log_step_retains [OF Cons.prems(1,2,3), of opn] Cons.prems(4) by (auto simp: written_def)
  then show ?case
    using Cons.IH [OF s(1), of "xs @ line_of opn"] Cons.prems(4) by (simp add: run_log_def written_def same_config_def)
qed (auto simp: run_log_def written_def)

text \<open>A new log in a directory without log files.\<close>

definition no_log_files :: "string \<Rightarrow> nat \<Rightarrow> files \<Rightarrow> bool" where
  "no_log_files path backups fs = (fs path = None \<and> (\<forall>i \<in> {1..backups}. fs (path @ ''.'' @ itoa i) = None))"

lemma openAudit_new:
  assumes "openAudit OpenOk path mx backups fs = Some st" "no_log_files path backups fs" "0 < backups"
  shows "represents st [[]]" "al_max (fst st) = mx" "al_backups (fst st) = backups" "al_path (fst st) = path"
  using assms
  by (auto simp: openAudit_def open_log_def no_log_files_def represents_def backup_def split: if_splits)

section \<open>Correctness of the audit log\<close>

text \<open>
  The newest entries are found: in a directory without older logs, after any sequence of writes and
  restarts without I/O errors, \<^verbatim>\<open>Tail\<close> returns the newest entries in their JSON encoding, newest first,
  exactly as many as asked for, as long as their total size is at most the number of backups times the
  rotation size less the longest line. So rotation never hides one of the newest entries, an entry
  is never split over two files, and reading backwards in chunks of 64 KiB loses no line.
\<close>

theorem audit_tail_returns_newest:
  assumes "openAudit OpenOk path mx backups fs = Some st" "no_log_files path backups fs" "0 < backups"
    and "\<forall>x \<in> set (written ops). int (length x) + 1 \<le> w"
    and "written ops = older @ newest" "int (length (render newest)) \<le> int backups * (mx - w)"
    and "limit \<le> int (length newest)"
  shows "Tail no_read_faults limit (run_log ops st) = (take (nat limit) (rev newest), True)"
proof -
  note st = openAudit_new [OF assms(1-3)]
  have "retains (al_max (fst st)) (al_backups (fst st)) w [] [[]]" by (simp add: retains_def)
  from run_log_retains [OF st(1) this _ assms(4)] obtain segs where s: "represents (run_log ops st) segs"
    "retains mx backups w (older @ newest) segs" "\<forall>seg \<in> set segs. \<forall>x \<in> set seg. line_ok x"
    using st(2,3) assms(5) by auto
  obtain p where p: "concat (rev segs) = p @ newest" using retains_newest [OF s(2) assms(6)] by blast
  obtain l' fs' where r: "run_log ops st = (l', fs')" by fastforce
  have "concat (map rev segs) = rev (concat (rev segs))" by (simp add: rev_concat rev_map)
  with p Tail_represents [of l' fs' segs limit] s(1,3) assms(7) r show ?thesis by simp
qed

definition demo_entry :: "string \<Rightarrow> auditEntry" where
  "demo_entry who = \<lparr>ae_at = 1700000000 * nsec, ae_event = ''request'', ae_principal = who, ae_role = ''admin'',
     ae_kind = ''user'', ae_tokenID = [], ae_ip = ''10.0.0.1'', ae_method = ''POST'', ae_path = ''/api/v1/users'',
     ae_status = 201, ae_durationMs = 12\<rparr>"

definition demo_ops :: "log_op list" where
  "demo_ops = [WriteOp (demo_entry ''alice''), Restart, WriteOp (demo_entry ''bob'')]"

lemma audit_tail_returns_newest_witness:
  "\<exists>st. openAudit OpenOk ''log'' 500 2 (\<lambda>_. None) = Some st \<and>
    Tail no_read_faults 1 (run_log demo_ops st) = ([the (Marshal (demo_entry ''bob''))], True)"
proof -
  obtain st where st: "openAudit OpenOk ''log'' 500 2 (\<lambda>_. None) = Some st"
    by (simp add: openAudit_def open_log_def)
  have "case Marshal (demo_entry ''alice'') of Some x \<Rightarrow> length x < 250 | None \<Rightarrow> False"
    "case Marshal (demo_entry ''bob'') of Some x \<Rightarrow> length x < 250 | None \<Rightarrow> False" by code_simp+
  then obtain a b where ab: "Marshal (demo_entry ''alice'') = Some a" "length a < 250"
    "Marshal (demo_entry ''bob'') = Some b" "length b < 250" by (auto split: option.splits)
  then have w: "written demo_ops = [a] @ [b]" by (simp add: written_def demo_ops_def line_of_def)
  have "\<forall>x \<in> set (written demo_ops). int (length x) + 1 \<le> 250" "int (length (render [b])) \<le> int 2 * (500 - 250)"
    using ab by (simp_all add: w)
  from audit_tail_returns_newest [OF st _ _ this(1) w this(2), of 1] st ab show ?thesis
    by (simp add: no_log_files_def)
qed

text \<open>
  C38. A damaged line hides intact entries. When the current file ends with the intact lines \<open>xs\<close>, one intact
  line and then a line that is not JSON (what a write that fails halfway leaves behind), a request for the two
  newest entries returns that line and the newest entry of the previous file, although all of \<open>xs\<close> are newer:
  \<^verbatim>\<open>tailFile\<close> counts the damaged line against the limit, and \<^verbatim>\<open>Tail\<close> fills the gap from the next file.
\<close>

theorem damaged_line_hides_entries:
  assumes "fs (al_path l) = Some (render (xs @ [x, damaged]))" "fs (backup l 1) = Some (render (ys @ [y]))" "0 < al_backups l"
    and "\<forall>z \<in> set (xs @ [x, y] @ ys). line_ok z" "line_shape damaged" "\<not> Valid damaged"
  shows "Tail no_read_faults 2 (l, fs) = ([x, y], True)"
proof -
  have t: "tailFile no_read_faults fs (al_path l) 2 = ([damaged, x], None)"
    using tailFile_render [of fs "al_path l" "xs @ [x, damaged]" 2] assms(1,4,5) by (simp add: line_ok_def)
  have "tailFile no_read_faults fs (backup l 1) 1 = ([y], None)"
    using tailFile_render [of fs "backup l 1" "ys @ [y]" 1] assms(2,4) by (auto simp: line_ok_def)
  moreover have "[1 ..< Suc (al_backups l)] = 1 # [2 ..< Suc (al_backups l)]"
    using assms(3) by (simp add: upt_conv_Cons numeral_2_eq_2)
  moreover have "tail_files rd fs 2 [x, y] ps = ([x, y], True)" for rd ps by (cases ps) simp_all
  ultimately show ?thesis
    using t assms(4,6) by (simp add: Tail_def line_ok_def del: upt_Suc)
qed

lemma damaged_line_hides_entries_witness:
  "Tail no_read_faults 2
    (\<lparr>al_path = ''log'', al_max = 500, al_backups = 2, al_open = True, al_size = 7\<rparr>,
     [''log'' \<mapsto> render [''1'', ''2'', ''{''], ''log.1'' \<mapsto> render [''0'']]) = ([''2'', ''0''], True)"
proof -
  let ?l = "\<lparr>al_path = ''log'', al_max = 500, al_backups = 2, al_open = True, al_size = 7\<rparr>"
  let ?fs = "[''log'' \<mapsto> render [''1'', ''2'', ''{''], ''log.1'' \<mapsto> render [''0'']]"
  have "backup ?l 1 = ''log.1''" by code_simp
  moreover have "Valid ''0''" "Valid ''1''" "Valid ''2''" "\<not> Valid ''{''" by code_simp+
  moreover have "line_shape ''0''" "line_shape ''1''" "line_shape ''2''" "line_shape ''{''"
    by (rule line_shapeI; simp add: printable_def)+
  ultimately show ?thesis
    using damaged_line_hides_entries [of ?fs ?l "[''1'']" "''2''" "''{''" "[]" "''0''"]
    by (simp add: line_ok_def)
qed

end
