(* ===== verification/Enc_Trail.thy ===== *)
theory Enc_Trail
  imports Enc_Secure Enc_Audit
begin

text \<open>
  The audit trail of the encoder's API: what \<^verbatim>\<open>Middleware\<close>, \<^verbatim>\<open>writeAudit\<close> and the login, logout and password
  handlers record for a request (\<^verbatim>\<open>middleware.go\<close>, \<^verbatim>\<open>handlers.go\<close> under \<^verbatim>\<open>streamhub-encoder/internal/auth\<close>),
  composed with the service of \<open>Enc_Serve\<close> and the rotated log of \<open>Enc_Audit\<close>. The properties: no change of
  an account, a token or a session goes unrecorded, and the endpoint of the log returns the newest records.
\<close>

section \<open>What is recorded\<close>

record reqState =
  rs_principal :: "principal option"
  rs_event :: string
  rs_name :: string
  rs_ip :: string

definition kind_string :: "kind \<Rightarrow> string" where
  "kind_string k = (case k of KindUser \<Rightarrow> ''user'' | KindToken \<Rightarrow> ''token'' | KindLegacy \<Rightarrow> ''legacy'')"

text \<open>What \<^verbatim>\<open>handleLogin\<close> stores in the request state: a failed login of the given name, until the session
  exists.\<close>

definition login_state :: "platform \<Rightarrow> inputs \<Rightarrow> request \<Rightarrow> auth \<Rightarrow> reqState \<Rightarrow> reqState" where
  "login_state env inp r a st =
     (let st = st\<lparr>rs_event := ''login_failed''\<rparr>
      in if \<not> r_json r then st
         else case r_login r of
           Inl _ \<Rightarrow> st
         | Inr (user, password) \<Rightarrow>
             let name = ToLower (uni_lower env) (TrimSpace user); st = st\<lparr>rs_name := name\<rparr>
             in case (handleLogin env inp r a, getUser (a_store a) name) of
                  (Some (rep, _), Some u) \<Rightarrow>
                    if rep_status rep = 200
                    then st\<lparr>rs_event := ''login'',
                            rs_principal := Some \<lparr>pr_name = u_name u, pr_role = u_role u, pr_kind = KindUser,
                                                  pr_tokenID = [], pr_must = u_must u\<rparr>\<rparr>
                    else st
                | _ \<Rightarrow> st)"

text \<open>The request state when the handler returns.\<close>

definition reqState_of :: "platform \<Rightarrow> inputs \<Rightarrow> request \<Rightarrow> auth \<Rightarrow> reqState" where
  "reqState_of env inp r a =
     (let st = \<lparr>rs_principal = None, rs_event = [], rs_name = [], rs_ip = r_ip r\<rparr>
      in if is_api (cleanPath (url_path (r_escaped r))) \<and> Contains (map lower_char (r_escaped r)) ''%2f'' then st
         else let st = st\<lparr>rs_principal := fst (fst (authenticate inp r a))\<rparr>
              in case Middleware inp r a of
                   (Refused _, _) \<Rightarrow> st
                 | (Passed _ _, a1) \<Rightarrow>
                     (case dispatch r of
                        Some HLogin \<Rightarrow> login_state env inp r a1 st
                      | Some HLogout \<Rightarrow> st\<lparr>rs_event := ''logout''\<rparr>
                      | Some HPassword \<Rightarrow> st\<lparr>rs_event := ''password_change''\<rparr>
                      | _ \<Rightarrow> st))"

text \<open>The clock when the handler has returned and when the entry is built, the status of a forwarded
  request and the faults of the write.\<close>

record audit_inputs =
  au_done :: int
  au_at :: int
  au_next :: nat
  au_faults :: faults

definition truncate :: "string \<Rightarrow> nat \<Rightarrow> string" where
  "truncate s n = (if length s > n then take n s else s)"

text \<open>\<^verbatim>\<open>d.Milliseconds()\<close>, truncated towards zero.\<close>

definition Milliseconds :: "int \<Rightarrow> int" where
  "Milliseconds d = sgn d * (\<bar>d\<bar> div 1000000)"

definition writeAudit :: "reqState \<Rightarrow> request \<Rightarrow> nat \<Rightarrow> int \<Rightarrow> int \<Rightarrow> auditEntry" where
  "writeAudit st r code d now =
     (let e = \<lparr>ae_at = now, ae_event = (if rs_event st = [] then ''request'' else rs_event st), ae_principal = [], ae_role = [],
               ae_kind = [], ae_tokenID = [], ae_ip = rs_ip st, ae_method = r_method r,
               ae_path = truncate (url_path (r_escaped r)) 512, ae_status = int code, ae_durationMs = Milliseconds d\<rparr>
      in case rs_principal st of
           Some p \<Rightarrow> e\<lparr>ae_principal := pr_name p, ae_role := pr_role p, ae_kind := kind_string (pr_kind p), ae_tokenID := pr_tokenID p\<rparr>
         | None \<Rightarrow> e\<lparr>ae_principal := truncate (rs_name st) 64\<rparr>)"

definition outcome_code :: "audit_inputs \<Rightarrow> outcome \<Rightarrow> nat" where
  "outcome_code au out = (case out of Replied rep \<Rightarrow> rep_status rep | Forwarded _ \<Rightarrow> au_next au)"

text \<open>The deferred function of \<^verbatim>\<open>Middleware\<close>: the entry of a request, if it gets one.\<close>

definition audit_entry :: "platform \<Rightarrow> inputs \<Rightarrow> audit_inputs \<Rightarrow> request \<Rightarrow> auth \<Rightarrow> outcome \<Rightarrow> auditEntry option" where
  "audit_entry env inp au r a out =
     (let st = reqState_of env inp r a
      in if rs_event st \<noteq> [] \<or> \<not> isRead (r_method r)
         then Some (writeAudit st r (outcome_code au out) (au_done au - in_now inp) (au_at au)) else None)"

type_synonym log = "auditLog \<times> files"

definition serve_audited :: "platform \<Rightarrow> inputs \<Rightarrow> audit_inputs \<Rightarrow> request \<Rightarrow> auth \<times> log \<Rightarrow> (outcome \<times> auth \<times> log) option" where
  "serve_audited env inp au r st =
     (case st of (a, lg) \<Rightarrow>
        (case serve env inp r a of
           None \<Rightarrow> None
         | Some (out, a') \<Rightarrow>
             Some (out, a', case audit_entry env inp au r a out of
                              Some e \<Rightarrow> snd (write_audit (au_faults au) e lg)
                            | None \<Rightarrow> lg)))"

text \<open>\<^verbatim>\<open>handleAudit\<close> with the lines it returns.\<close>

definition audit_page :: "reads \<Rightarrow> request \<Rightarrow> log \<Rightarrow> nat \<times> string list" where
  "audit_page rd r lg =
     (let page = (\<lambda>limit. case Tail rd limit lg of (ls, ok) \<Rightarrow> if ok then (200, ls) else (500, []))
      in if r_limit r = [] then page 200
         else case Atoi (r_limit r) of
                None \<Rightarrow> (422, [])
              | Some n \<Rightarrow> if n < 1 \<or> n > maxAuditLimit then (422, []) else page n)"

fun serve_trail :: "platform \<Rightarrow> (inputs \<times> audit_inputs \<times> request) list \<Rightarrow> auth \<times> log \<Rightarrow> (auth \<times> log) option" where
  "serve_trail env [] st = Some st"
| "serve_trail env ((inp, au, r) # reqs) st =
     (case serve_audited env inp au r st of None \<Rightarrow> None | Some (out, st') \<Rightarrow> serve_trail env reqs st')"

text \<open>The entries of a run of requests, oldest first.\<close>

fun trail :: "platform \<Rightarrow> (inputs \<times> audit_inputs \<times> request) list \<Rightarrow> auth \<Rightarrow> auditEntry list" where
  "trail env [] a = []"
| "trail env ((inp, au, r) # reqs) a =
     (case serve env inp r a of
        None \<Rightarrow> []
      | Some (out, a') \<Rightarrow>
          (case audit_entry env inp au r a out of Some e \<Rightarrow> [e] | None \<Rightarrow> []) @ trail env reqs a')"

section \<open>Changes and their records\<close>

text \<open>The rights that the tokens give: everything but the time of the last use.\<close>

definition token_rights :: "auth \<Rightarrow> (string \<times> string \<times> role \<times> string \<times> int \<times> bool) list" where
  "token_rights a =
     map (\<lambda>t. (t_id t, t_name t, t_role t, t_hash t, t_created t, t_revoked t)) (fd_tokens (st_data (a_store a)))"

abbreviation accounts :: "auth \<Rightarrow> user list" where
  "accounts a \<equiv> fd_users (st_data (a_store a))"

lemma touchToken_rights:
  "map (\<lambda>t. (t_id t, t_name t, t_role t, t_hash t, t_created t, t_revoked t)) (fd_tokens (st_data (snd (touchToken ok tid now s)))) =
   map (\<lambda>t. (t_id t, t_name t, t_role t, t_hash t, t_created t, t_revoked t)) (fd_tokens (st_data s))"
proof -
  let ?f = "\<lambda>t :: token. (t_id t, t_name t, t_role t, t_hash t, t_created t, t_revoked t)"
  have "map ?f (ts[i := (ts ! i)\<lparr>t_lastUsed := v\<rparr>]) = map ?f ts" for ts i v
    by (cases "i < length ts") (auto simp: nth_list_update intro!: nth_equalityI)
  then show ?thesis by (simp add: touchToken_def Let_def save_def split: option.splits)
qed

lemma act_keeps_rights:
  assumes "act inp d a b" "d = Keeps \<or> (\<exists>u. d = Enters u)"
  shows "accounts b = accounts a \<and> token_rights b = token_rights a"
  using assms
proof (cases rule: act.cases)
  case (act_enter u)
  then show ?thesis by (auto simp: new_session_def token_rights_def)
qed (auto simp: token_rights_def touchToken_rights)

lemma acts_keep_rights:
  "acts inp D a b \<Longrightarrow> \<forall>d \<in> D. d = Keeps \<or> (\<exists>u. d = Enters u) \<Longrightarrow>
   accounts b = accounts a \<and> token_rights b = token_rights a"
  by (induction rule: acts_induct) (auto dest: act_keeps_rights)

lemma acts_owner:
  assumes "acts inp D a b" "auth_ok a" "permutes (in_sess_order inp)" "Enters u \<notin> D" "sess_owner (a_sessions b) sid = Some u"
  shows "sess_owner (a_sessions a) sid = Some u"
proof -
  from assms(1) have "auth_ok b \<and> (sess_owner (a_sessions b) sid = Some u \<longrightarrow> sess_owner (a_sessions a) sid = Some u)"
  proof (induction rule: acts_induct)
    case refl
    then show ?case using assms(2) by simp
  next
    case (step b c d)
    have "d \<noteq> Enters u" using step(1) assms(4) by auto
    then show ?case using act_auth_ok [OF step(2) _ assms(3)] act_owner [OF step(2) _ assms(3)] step(3) by blast
  qed
  with assms(5) show ?thesis by blast
qed

text \<open>A request that does more than bookkeeping has passed the middleware and reached a handler.\<close>

lemma serve_by_handler:
  assumes "serve env inp r a = Some (out, a')"
  obtains "acts inp {Keeps} a a'"
  | pr via a1 h rep where "Middleware inp r a = (Passed pr via, a1)" "authenticate inp r a = ((pr, via), a1)" "acts inp {Keeps} a a1"
      "dispatch r = Some h" "run_handler env inp h pr r a1 = Some (rep, a')" "acts inp (handler_may env inp r a1 h pr) a1 a'"
proof -
  obtain res a1 where mw: "Middleware inp r a = (res, a1)" by fastforce
  note k = Middleware_cases(1) [OF mw]
  show thesis
  proof (cases res)
    case (Refused n)
    then show thesis using that(1) assms mw k by (simp add: serve_def)
  next
    case (Passed pr via)
    show thesis
    proof (cases "dispatch r")
      case None
      then show thesis using that(1) assms mw k Passed by (simp add: serve_def)
    next
      case (Some h)
      then obtain rep where rh: "run_handler env inp h pr r a1 = Some (rep, a')"
        using assms mw Passed by (auto simp: serve_def)
      show thesis
        using that(2) [OF _ Middleware_cases(2) [OF mw Passed] k Some rh run_handler_acts [OF rh Some]] mw Passed by simp
    qed
  qed
qed

lemma reqState_passed:
  assumes "Middleware inp r a = (Passed pr via, a1)"
  shows "reqState_of env inp r a =
    (let st = \<lparr>rs_principal = pr, rs_event = [], rs_name = [], rs_ip = r_ip r\<rparr>
     in case dispatch r of
          Some HLogin \<Rightarrow> login_state env inp r a1 st
        | Some HLogout \<Rightarrow> st\<lparr>rs_event := ''logout''\<rparr>
        | Some HPassword \<Rightarrow> st\<lparr>rs_event := ''password_change''\<rparr>
        | _ \<Rightarrow> st)"
proof -
  have n: "\<not> (is_api (cleanPath (url_path (r_escaped r))) \<and> Contains (map lower_char (r_escaped r)) ''%2f'')"
    using Middleware_cases(4) [OF assms refl] by blast
  show ?thesis
    unfolding reqState_of_def Let_def if_not_P [OF n] assms Middleware_cases(2) [OF assms refl] prod.case mw_result.case fst_conv
      reqState.update_convs ..
qed

lemma reqState_principal:
  assumes "Middleware inp r a = (Passed pr via, a1)" "dispatch r = Some h" "h \<noteq> HLogin"
  shows "rs_principal (reqState_of env inp r a) = pr"
  unfolding reqState_passed [OF assms(1)] Let_def assms(2) using assms(3) by (cases h) simp_all

lemma handleLogin_ok:
  assumes "handleLogin env inp r a = Some (rep, a')" "login_ok env inp r a u"
  shows "rep_status rep = 200"
proof -
  obtain user pw x where l: "r_json r" "r_login r = Inr (user, pw)" "ToLower (uni_lower env) (TrimSpace user) = u"
    "getUser (a_store a) u = Some x" "\<not> u_disabled x" "verifyPassword env (u_hash x) pw"
    "\<not> fst (snd (blocked u (r_ip r) (in_now inp) (a_limiter a)))"
    using assms(2) by (auto simp: login_ok_def)
  with assms(1) show ?thesis
    by (auto simp: handleLogin_def Let_def status_def split: prod.splits)
qed

lemma reqState_login:
  assumes "Middleware inp r a = (Passed pr via, a1)" "dispatch r = Some HLogin"
    "handleLogin env inp r a1 = Some (rep, a')" "login_ok env inp r a1 u"
  shows "\<exists>p. rs_principal (reqState_of env inp r a) = Some p \<and> pr_name p = u" "rs_event (reqState_of env inp r a) \<noteq> []"
proof -
  obtain user pw x where l: "r_json r" "r_login r = Inr (user, pw)" "ToLower (uni_lower env) (TrimSpace user) = u"
    "getUser (a_store a1) u = Some x" using assms(4) by (auto simp: login_ok_def)
  have "u_name x = u" using getUser_SomeD [OF l(4)] by simp
  with l handleLogin_ok [OF assms(3,4)] assms(3)
  show "\<exists>p. rs_principal (reqState_of env inp r a) = Some p \<and> pr_name p = u" "rs_event (reqState_of env inp r a) \<noteq> []"
    unfolding reqState_passed [OF assms(1)] Let_def assms(2) by (simp_all add: login_state_def)
qed

lemma handler_rights:
  assumes "acts inp (handler_may env inp r a h pr) a a'" "accounts a' \<noteq> accounts a \<or> token_rights a' \<noteq> token_rights a"
  shows "\<exists>q. pr = Some q \<and> writes h"
proof (rule ccontr)
  assume "\<nexists>q. pr = Some q \<and> writes h"
  then have "\<forall>d \<in> handler_may env inp r a h pr. d = Keeps \<or> (\<exists>u. d = Enters u)"
    by (auto simp: handler_may_def split: option.splits)
  then show False using assms(2) acts_keep_rights [OF assms(1)] by auto
qed

lemma handler_enters:
  assumes "acts inp (handler_may env inp r a h pr) a a'" "auth_ok a" "permutes (in_sess_order inp)"
    "sess_owner (a_sessions a') sid = Some u" "sess_owner (a_sessions a) sid \<noteq> Some u"
  shows "h = HLogin \<and> login_ok env inp r a u \<or> (\<exists>q. pr = Some q \<and> writes h \<and> pr_name q = u)"
proof -
  have "Enters u \<in> handler_may env inp r a h pr" using assms acts_owner [OF assms(1-3)] by blast
  then show ?thesis by (auto simp: handler_may_def admin_deeds_def split: option.splits if_splits)
qed

lemma reqState_ip: "rs_ip (reqState_of env inp r a) = r_ip r"
  unfolding reqState_of_def Let_def
  by (simp add: login_state_def Let_def split: option.split handler.split sum.split prod.split mw_result.split del: Contains.simps list.map)

lemma writeAudit_fields:
  "ae_method (writeAudit st r code d now) = r_method r" "ae_ip (writeAudit st r code d now) = rs_ip st"
  "ae_path (writeAudit st r code d now) = take 512 (url_path (r_escaped r))" "ae_status (writeAudit st r code d now) = int code"
  "rs_principal st = Some p \<Longrightarrow> ae_principal (writeAudit st r code d now) = pr_name p \<and> ae_role (writeAudit st r code d now) = pr_role p"
  by (simp_all add: writeAudit_def Let_def truncate_def split: option.split)

section \<open>Properties of the trail\<close>

text \<open>
  C10. No change goes unrecorded. When a served request changes an account or what a token gives, or an
  account has a session afterwards that it did not have before, the request has an audit entry with its
  method, its path (512 bytes of it), the address of the client and the status of the reply. For a change of accounts or tokens the
  entry names the authenticated principal and its role, for a new session the account that has it.
\<close>

theorem changes_are_audited:
  assumes "serve env inp r a = Some (out, a')" "auth_ok a" "permutes (in_sess_order inp)"
    and "accounts a' \<noteq> accounts a \<or> token_rights a' \<noteq> token_rights a \<or>
         sess_owner (a_sessions a') sid = Some u \<and> sess_owner (a_sessions a) sid \<noteq> Some u"
  shows "\<exists>e. audit_entry env inp au r a out = Some e \<and> ae_method e = r_method r \<and> ae_ip e = r_ip r \<and>
    ae_path e = take 512 (url_path (r_escaped r)) \<and> ae_status e = int (outcome_code au out) \<and>
    (accounts a' \<noteq> accounts a \<or> token_rights a' \<noteq> token_rights a \<longrightarrow>
       (\<exists>q via. fst (authenticate inp r a) = (Some q, via) \<and> ae_principal e = pr_name q \<and> ae_role e = pr_role q)) \<and>
    (sess_owner (a_sessions a') sid = Some u \<and> sess_owner (a_sessions a) sid \<noteq> Some u \<longrightarrow> ae_principal e = u)"
proof -
  let ?rights = "accounts a' \<noteq> accounts a \<or> token_rights a' \<noteq> token_rights a"
  let ?enters = "sess_owner (a_sessions a') sid = Some u \<and> sess_owner (a_sessions a) sid \<noteq> Some u"
  have "\<not> acts inp {Keeps} a a'"
    using assms(4) acts_keep_rights [of inp "{Keeps}" a a'] acts_owner [of inp "{Keeps}" a a', OF _ assms(2,3)] by auto
  with serve_by_handler [OF assms(1)] obtain pr via a1 h rep where
    mw: "Middleware inp r a = (Passed pr via, a1)" and au: "authenticate inp r a = ((pr, via), a1)"
    and keeps: "acts inp {Keeps} a a1" and h: "dispatch r = Some h" "run_handler env inp h pr r a1 = Some (rep, a')"
    and acts: "acts inp (handler_may env inp r a1 h pr) a1 a'" by metis
  let ?st = "reqState_of env inp r a"
  have rights: "\<exists>q. pr = Some q \<and> writes h" if ?rights
    using that handler_rights [OF acts] acts_keep_rights [OF keeps] by auto
  have enters: "h = HLogin \<and> login_ok env inp r a1 u \<or> (\<exists>q. pr = Some q \<and> writes h \<and> pr_name q = u)" if ?enters
    using that handler_enters [OF acts acts_auth_ok [OF keeps assms(2,3)] assms(3)] acts_owner [OF keeps assms(2,3)] by blast
  have principal: "rs_principal ?st = pr" "\<not> isRead (r_method r)" if w: "writes h"
  proof -
    have "h \<noteq> HLogin" using w by (auto simp: writes_def)
    then show "rs_principal ?st = pr" by (rule reqState_principal [OF mw h(1)])
    show "\<not> isRead (r_method r)" by (rule dispatch_writes(1) [OF h(1) w])
  qed
  have login: "\<exists>p. rs_principal ?st = Some p \<and> pr_name p = u" "rs_event ?st \<noteq> []" if "h = HLogin" "login_ok env inp r a1 u"
    using reqState_login [OF mw _ _ that(2)] h that(1) by (auto simp: run_handler_def)
  have "rs_event ?st \<noteq> [] \<or> \<not> isRead (r_method r)"
    using assms(4) rights enters principal(2) login(2) by blast
  then obtain e where e: "audit_entry env inp au r a out = Some e"
    "e = writeAudit ?st r (outcome_code au out) (au_done au - in_now inp) (au_at au)"
    by (simp add: audit_entry_def)
  have "ae_method e = r_method r \<and> ae_ip e = r_ip r \<and> ae_path e = take 512 (url_path (r_escaped r)) \<and>
      ae_status e = int (outcome_code au out)"
    unfolding e(2) by (simp add: writeAudit_fields reqState_ip)
  moreover have "ae_principal e = pr_name p \<and> ae_role e = pr_role p" if "rs_principal ?st = Some p" for p
    unfolding e(2) using that by (rule writeAudit_fields)
  ultimately show ?thesis
    using e(1) au rights enters principal(1) login(1) by (metis fst_conv)
qed

lemma demo_delete_changes:
  "\<exists>a'. serve demo_env (demo_inputs 5) demo_delete demo_auth = Some (Replied (status 204), a') \<and> accounts a' \<noteq> accounts demo_auth"
proof -
  obtain a' where "serve demo_env (demo_inputs 5) demo_delete demo_auth = Some (Replied (status 204), a')"
    "getUser (a_store a') ''bob'' \<noteq> getUser (a_store demo_auth) ''bob''"
    using demo_delete_served [of 5] by auto
  with getUser_cong [of "a_store a'" "a_store demo_auth"] show ?thesis by auto
qed

lemma demo_ok: "auth_ok demo_auth" "permutes (in_sess_order (demo_inputs t))"
  using demo_auth_ok
  by (simp_all add: auth_ok_def sess_ok_def matching_def newSessionStore_def demo_auth_def demo_inputs_def permutes_rev
    maxSessionsPerUser_def maxSessionsTotal_def)

definition demo_audit :: audit_inputs where
  "demo_audit = \<lparr>au_done = 6, au_at = 1700000000 * nsec, au_next = 200, au_faults = no_faults\<rparr>"

theorem changes_are_audited_witness:
  "\<exists>e. audit_entry demo_env (demo_inputs 5) demo_audit demo_delete demo_auth (Replied (status 204)) = Some e \<and>
    ae_method e = ''DELETE'' \<and> ae_status e = 204 \<and> ae_principal e = ''legacy-token''"
proof -
  obtain a' where s: "serve demo_env (demo_inputs 5) demo_delete demo_auth = Some (Replied (status 204), a')"
    "accounts a' \<noteq> accounts demo_auth" using demo_delete_changes by blast
  from changes_are_audited [OF s(1) demo_ok, of "[]" "[]" demo_audit] s(2) obtain e q via where
    e: "audit_entry demo_env (demo_inputs 5) demo_audit demo_delete demo_auth (Replied (status 204)) = Some e"
    "ae_method e = r_method demo_delete" "ae_status e = int (outcome_code demo_audit (Replied (status 204)))"
    "fst (authenticate (demo_inputs 5) demo_delete demo_auth) = (Some q, via)" "ae_principal e = pr_name q" by blast
  moreover have "pr_name q = ''legacy-token''"
    using e(4) Middleware_cases(2) [OF demo_delete_passed refl] by auto
  ultimately show ?thesis by (simp add: demo_request_def outcome_code_def status_def)
qed

section \<open>The endpoint of the log\<close>

lemma audit_page_status: "in_audit inp = snd (Tail rd (if r_limit r = [] then 200 else the (Atoi (r_limit r))) lg) \<Longrightarrow>
  rep_status (handleAudit inp r) = fst (audit_page rd r lg)"
  by (auto simp: handleAudit_def audit_page_def Let_def status_def split: option.splits prod.splits)

lemma serve_trail_log:
  assumes "serve_trail env reqs (a, lg) = Some (a', lg')" "\<forall>(inp, au, r) \<in> set reqs. au_faults au = no_faults"
  shows "lg' = run_log (map WriteOp (trail env reqs a)) lg"
  using assms
proof (induction reqs arbitrary: a lg)
  case (Cons x reqs)
  obtain inp au r where x: "x = (inp, au, r)" by (metis prod_cases3)
  obtain out a1 where s: "serve env inp r a = Some (out, a1)"
    using Cons.prems(1) x by (auto simp: serve_audited_def split: option.splits)
  show ?case
    using Cons.prems Cons.IH [of a1] x s
    by (cases "audit_entry env inp au r a out") (auto simp: serve_audited_def run_log_def log_step_def)
qed (simp add: run_log_def)

lemma serve_trail_total:
  "auth_ok a \<Longrightarrow> \<forall>(inp, au, r) \<in> set reqs. permutes (in_sess_order inp) \<Longrightarrow> \<exists>st. serve_trail env reqs (a, lg) = Some st"
proof (induction reqs arbitrary: a lg)
  case (Cons x reqs)
  obtain inp au r where x: "x = (inp, au, r)" by (metis prod_cases3)
  then obtain out a1 where "serve env inp r a = Some (out, a1)" "auth_ok a1"
    using serve_total [of a inp env r] Cons.prems by auto
  with Cons x show ?case by (simp add: serve_audited_def)
qed simp

lemma Atoi_itoa: "n < 2 ^ 63 \<Longrightarrow> Atoi (itoa n) = Some (int n)"
proof -
  assume n: "n < 2 ^ 63"
  obtain c t where c: "itoa n = c # t" "is_digit c" using itoa_digits [of n] by (cases "itoa n") auto
  have "c \<noteq> CHR ''-''" "c \<noteq> CHR ''+''" using c(2) by (auto simp: is_digit_def)
  with c n ParseUint_itoa [of n 64] show ?thesis by (simp add: Atoi_def Let_def)
qed

text \<open>
  C16. The endpoint of the audit log shows the trail. The service, started with a new log, answers every sequence
  of requests. When no write of the log fails, let \<open>newest\<close> be the encodings of the last entries of their trail, in
  total at most the number of backups times the rotation size less the longest line. Then \<^verbatim>\<open>handleAudit\<close> asked
  for \<open>n\<close> entries, at most 5000 and no more than there are in \<open>newest\<close>, answers 200 with exactly the \<open>n\<close>
  last of them, newest first.
\<close>

theorem endpoint_shows_the_trail:
  assumes "openAudit OpenOk path mx backups fs = Some lg" "no_log_files path backups fs" "0 < backups"
    and "auth_ok a" "\<forall>(inp, au, r) \<in> set reqs. permutes (in_sess_order inp) \<and> au_faults au = no_faults"
    and "List.map_filter Marshal (trail env reqs a) = older @ newest"
    and "\<forall>x \<in> set (older @ newest). int (length x) + 1 \<le> w" "int (length (render newest)) \<le> int backups * (mx - w)"
    and "r_limit r = itoa n" "1 \<le> n" "n \<le> 5000" "n \<le> length newest"
  shows "\<exists>a' lg'. serve_trail env reqs (a, lg) = Some (a', lg') \<and> audit_page no_read_faults r lg' = (200, take n (rev newest))"
proof -
  have f: "\<forall>(inp, au, r) \<in> set reqs. permutes (in_sess_order inp)" "\<forall>(inp, au, r) \<in> set reqs. au_faults au = no_faults"
    using assms(5) by auto
  obtain a' lg' where s: "serve_trail env reqs (a, lg) = Some (a', lg')"
    using serve_trail_total [OF assms(4) f(1)] by (metis surj_pair)
  let ?ops = "map WriteOp (trail env reqs a)"
  have "written (map WriteOp es) = List.map_filter Marshal es" for es
    by (induction es) (simp_all add: written_def line_of_def List.map_filter_simps split: option.splits)
  then have w: "written ?ops = older @ newest" using assms(6) by simp
  have "Tail no_read_faults (int n) (run_log ?ops lg) = (take n (rev newest), True)"
    using audit_tail_returns_newest [OF assms(1-3) _ w assms(8), of "int n"] assms(7,12) w by simp
  moreover have "Atoi (itoa n) = Some (int n)" using assms(11) by (intro Atoi_itoa) simp
  ultimately show ?thesis
    using assms(9-11) s serve_trail_log [OF s f(2)] by (simp add: audit_page_def maxAuditLimit_def)
qed

lemma demo_trail:
  "trail demo_env [(demo_inputs 5, demo_audit, demo_delete)] demo_auth =
    [writeAudit \<lparr>rs_principal = Some \<lparr>pr_name = ''legacy-token'', pr_role = RoleAdmin, pr_kind = KindLegacy, pr_tokenID = [], pr_must = False\<rparr>,
       rs_event = [], rs_name = [], rs_ip = ''10.0.0.7''\<rparr> demo_delete 204 1 (1700000000 * nsec)]"
proof -
  obtain a' where s: "serve demo_env (demo_inputs 5) demo_delete demo_auth = Some (Replied (status 204), a')"
    using demo_delete_changes by blast
  have "\<not> isRead ''DELETE''" by code_simp
  moreover have "r_method demo_delete = ''DELETE''" "r_ip demo_delete = ''10.0.0.7''" by (simp_all add: demo_request_def)
  ultimately show ?thesis
    using s reqState_passed [OF demo_delete_passed, of demo_env 5]
    by (simp add: audit_entry_def Let_def demo_facts outcome_code_def status_def demo_audit_def demo_inputs_def)
qed

theorem endpoint_shows_the_trail_witness:
  "\<exists>lg a' lg' x. openAudit OpenOk ''log'' 500 2 (\<lambda>_. None) = Some lg \<and>
     serve_trail demo_env [(demo_inputs 5, demo_audit, demo_delete)] (demo_auth, lg) = Some (a', lg') \<and>
     audit_page no_read_faults ((demo_request ''GET'' ''/api/v1/audit'' [])\<lparr>r_limit := itoa 1\<rparr>) lg' = (200, [x]) \<and>
     map Marshal (trail demo_env [(demo_inputs 5, demo_audit, demo_delete)] demo_auth) = [Some x]"
proof -
  let ?reqs = "[(demo_inputs 5, demo_audit, demo_delete)]"
  obtain lg where lg: "openAudit OpenOk ''log'' 500 2 (\<lambda>_. None) = Some lg"
    by (simp add: openAudit_def open_log_def)
  let ?e = "writeAudit \<lparr>rs_principal = Some \<lparr>pr_name = ''legacy-token'', pr_role = RoleAdmin, pr_kind = KindLegacy, pr_tokenID = [], pr_must = False\<rparr>,
       rs_event = [], rs_name = [], rs_ip = ''10.0.0.7''\<rparr> demo_delete 204 1 (1700000000 * nsec)"
  have "case Marshal ?e of Some x \<Rightarrow> length x < 250 | None \<Rightarrow> False" by code_simp
  then obtain x where x: "Marshal ?e = Some x" "length x < 250" by (auto split: option.splits)
  have t: "List.map_filter Marshal (trail demo_env ?reqs demo_auth) = [] @ [x]"
    unfolding demo_trail by (simp only: List.map_filter_simps x option.case append_Nil)
  have n: "no_log_files ''log'' 2 (\<lambda>_. None)" by (simp add: no_log_files_def)
  have f: "\<forall>(inp, au, r) \<in> set ?reqs. permutes (in_sess_order inp) \<and> au_faults au = no_faults"
    by (simp add: demo_ok demo_audit_def)
  let ?r = "(demo_request ''GET'' ''/api/v1/audit'' [])\<lparr>r_limit := itoa 1\<rparr>"
  have "\<exists>a' lg'. serve_trail demo_env ?reqs (demo_auth, lg) = Some (a', lg') \<and>
     audit_page no_read_faults ?r lg' = (200, take 1 (rev [x]))"
    by (rule endpoint_shows_the_trail [OF lg n _ demo_ok(1) f t, of 250 ?r 1]) (use x(2) in simp_all)
  moreover have "map Marshal (trail demo_env ?reqs demo_auth) = [Some x]" unfolding demo_trail by (simp only: list.map x)
  ultimately show ?thesis using lg by (simp del: serve_trail.simps trail.simps)
qed

end
