(* ===== verification/Enc_Alarms.thy ===== *)
theory Enc_Alarms
  imports Go_Strings Go_Map "HOL-Library.AList"
begin

text \<open>
  The alarms of an encoder channel (\<^verbatim>\<open>streamhub-encoder/internal/channel/alarms.go\<close>): the book that raises an
  alarm when a condition has held long enough and clears it when the condition ends, and the evaluation that
  feeds it once a second. Times are nanoseconds as \<open>int\<close>; a Go map is an association list and the order of a
  \<^verbatim>\<open>range\<close> over it an argument \<open>ord\<close>. Measured values are only passed on and have any type \<open>'v\<close>; the outcomes of
  the comparisons of floating-point measurements with their thresholds, and the texts that print them, are
  inputs. An operation returns the events it sends to the notifier.
\<close>

section \<open>The book\<close>

record 'v alarm =
  am_ID :: string
  am_Type :: string
  am_Severity :: string
  am_Channel :: string
  am_Output :: string
  am_Message :: string
  am_Value :: 'v
  am_RaisedAt :: int
  am_ClearedAt :: "int option"
  am_Acked :: bool
  am_AckedBy :: string

record 'v event =
  ev_ID :: string
  ev_Type :: string
  ev_Severity :: string
  ev_Active :: bool
  ev_Channel :: string
  ev_Output :: string
  ev_Message :: string
  ev_Value :: 'v
  ev_At :: int
  ev_Device :: string

definition AlarmInputLoss :: string where "AlarmInputLoss = ''input_loss''"
definition AlarmBlack :: string where "AlarmBlack = ''black''"
definition AlarmFreeze :: string where "AlarmFreeze = ''freeze''"
definition AlarmSilence :: string where "AlarmSilence = ''silence''"
definition AlarmBitrateDrop :: string where "AlarmBitrateDrop = ''bitrate_drop''"
definition AlarmEngineDown :: string where "AlarmEngineDown = ''engine_down''"
definition AlarmOutputDown :: string where "AlarmOutputDown = ''output_down''"
definition AlarmLoudness :: string where "AlarmLoudness = ''loudness''"

definition severities :: "string \<Rightarrow> string" where
  "severities typ =
     (case map_of
        [(AlarmEngineDown, ''critical''), (AlarmInputLoss, ''critical''),
         (AlarmBlack, ''major''), (AlarmFreeze, ''major''), (AlarmSilence, ''major''), (AlarmOutputDown, ''major''),
         (AlarmBitrateDrop, ''minor''), (AlarmLoudness, ''warning'')] typ of
        Some s \<Rightarrow> s | None \<Rightarrow> [])"

record 'v alarmBook =
  ab_since :: "(string \<times> int) list"
  ab_active :: "(string \<times> 'v alarm) list"
  ab_history :: "'v alarm list"
  ab_seq :: int
  ab_send :: bool \<comment> \<open>there is a notifier\<close>
  ab_device :: string

definition newAlarmBook :: "bool \<Rightarrow> string \<Rightarrow> 'v alarmBook" where
  "newAlarmBook send device =
     \<lparr>ab_since = [], ab_active = [], ab_history = [], ab_seq = 0, ab_send = send, ab_device = device\<rparr>"

definition akey :: "string \<Rightarrow> string \<Rightarrow> string \<Rightarrow> string" where
  "akey ch typ out = ch @ ''|'' @ typ @ ''|'' @ out"

definition push :: "'v alarm \<Rightarrow> 'v alarmBook \<Rightarrow> 'v alarmBook" where
  "push a b =
     (let h = ab_history b @ [a]
      in b\<lparr>ab_history := (if length h > 500 then drop (length h - 500) h else h)\<rparr>)"

definition emit_event :: "int \<Rightarrow> 'v alarm \<Rightarrow> bool \<Rightarrow> 'v alarmBook \<Rightarrow> 'v event list" where
  "emit_event wall a active b =
     (if \<not> ab_send b then []
      else [\<lparr>ev_ID = am_ID a, ev_Type = am_Type a, ev_Severity = am_Severity a, ev_Active = active, ev_Channel = am_Channel a,
             ev_Output = am_Output a, ev_Message = am_Message a, ev_Value = am_Value a, ev_At = wall, ev_Device = ab_device b\<rparr>])"

text \<open>The arguments of one call of \<^verbatim>\<open>observe\<close>, with the wall clock that \<^verbatim>\<open>emit\<close> reads.\<close>

record 'v observation =
  sm_now :: int
  sm_wall :: int
  sm_ch :: string
  sm_typ :: string
  sm_out :: string
  sm_cond :: bool
  sm_hold :: int
  sm_msg :: string
  sm_value :: 'v

definition sm_key :: "'v observation \<Rightarrow> string" where
  "sm_key s = akey (sm_ch s) (sm_typ s) (sm_out s)"

definition alarm_id :: "int \<Rightarrow> int \<Rightarrow> string" where
  "alarm_id now seq = ''al-'' @ itoa_int (now div 1000000000) @ ''-'' @ itoa_int seq"

definition observe :: "'v observation \<Rightarrow> 'v alarmBook \<Rightarrow> 'v event list \<times> 'v alarmBook" where
  "observe s b =
     (let k = sm_key s
      in if \<not> sm_cond s then
           let b = b\<lparr>ab_since := AList.delete k (ab_since b)\<rparr>
           in case map_of (ab_active b) k of
                None \<Rightarrow> ([], b)
              | Some a \<Rightarrow>
                  let a = a\<lparr>am_ClearedAt := Some (sm_now s)\<rparr>;
                      b = push a b;
                      b = b\<lparr>ab_active := AList.delete k (ab_active b)\<rparr>
                  in (emit_event (sm_wall s) a False b, b)
         else if map_of (ab_active b) k \<noteq> None then ([], b)
         else
           let (since, fst_seen) = (case map_of (ab_since b) k of
                 Some t \<Rightarrow> (ab_since b, t)
               | None \<Rightarrow> (AList.update k (sm_now s) (ab_since b), sm_now s));
               b = b\<lparr>ab_since := since\<rparr>
           in if sm_now s - fst_seen < sm_hold s then ([], b)
              else
                let b = b\<lparr>ab_seq := ab_seq b + 1\<rparr>;
                    a = \<lparr>am_ID = alarm_id (sm_now s) (ab_seq b), am_Type = sm_typ s, am_Severity = severities (sm_typ s),
                         am_Channel = sm_ch s, am_Output = sm_out s, am_Message = sm_msg s, am_Value = sm_value s,
                         am_RaisedAt = sm_now s, am_ClearedAt = None, am_Acked = False, am_AckedBy = []\<rparr>;
                    b = b\<lparr>ab_active := AList.update k a (ab_active b)\<rparr>;
                    b = push a b
                in (emit_event (sm_wall s) a True b, b))"

fun observe_all :: "'v observation list \<Rightarrow> 'v alarmBook \<Rightarrow> 'v event list \<times> 'v alarmBook" where
  "observe_all [] b = ([], b)"
| "observe_all (s # ss) b =
     (case observe s b of (evs, b) \<Rightarrow> case observe_all ss b of (evs', b) \<Rightarrow> (evs @ evs', b))"

text \<open>The second loop of \<^verbatim>\<open>clearChannel\<close>, over the collected keys.\<close>

fun clear_keys :: "int \<Rightarrow> int \<Rightarrow> 'v \<Rightarrow> string list \<Rightarrow> 'v alarmBook \<Rightarrow> 'v event list \<times> 'v alarmBook" where
  "clear_keys now wall zero [] b = ([], b)"
| "clear_keys now wall zero (k # ks) b =
     (case map_of (ab_active b) k of
        None \<Rightarrow> clear_keys now wall zero ks b
      | Some a \<Rightarrow>
          (case observe \<lparr>sm_now = now, sm_wall = wall, sm_ch = am_Channel a, sm_typ = am_Type a, sm_out = am_Output a,
                         sm_cond = False, sm_hold = 0, sm_msg = [], sm_value = zero\<rparr> b of
             (evs, b) \<Rightarrow> case clear_keys now wall zero ks b of (evs', b) \<Rightarrow> (evs @ evs', b)))"

definition clearChannel ::
    "((string \<times> 'v alarm) list \<Rightarrow> (string \<times> 'v alarm) list) \<Rightarrow> int \<Rightarrow> int \<Rightarrow> 'v \<Rightarrow> string \<Rightarrow> 'v alarmBook \<Rightarrow> 'v event list \<times> 'v alarmBook" where
  "clearChannel ord now wall zero ch b =
     (let keys = map fst (filter (\<lambda>(k, a). am_Channel a = ch) (ord (ab_active b)));
          b = b\<lparr>ab_since := filter (\<lambda>(k, t). \<not> (length k > length ch \<and> take (length ch + 1) k = ch @ ''|'')) (ab_since b)\<rparr>
      in clear_keys now wall zero keys b)"

text \<open>\<^verbatim>\<open>sort.Slice\<close> is not stable: alarms raised at the same time may come in any order, as \<open>ord\<close> gives them.\<close>

definition list_alarms ::
    "((string \<times> 'v alarm) list \<Rightarrow> (string \<times> 'v alarm) list) \<Rightarrow> 'v alarmBook \<Rightarrow> 'v alarm list \<times> 'v alarm list" where
  "list_alarms ord b = (sort_key am_RaisedAt (map snd (ord (ab_active b))), rev (ab_history b))"

definition ack ::
    "((string \<times> 'v alarm) list \<Rightarrow> (string \<times> 'v alarm) list) \<Rightarrow> string \<Rightarrow> string \<Rightarrow> 'v alarmBook \<Rightarrow> bool \<times> 'v alarmBook" where
  "ack ord aid by' b =
     (case find (\<lambda>(k, a). am_ID a = aid) (ord (ab_active b)) of
        None \<Rightarrow> (False, b)
      | Some (k, a) \<Rightarrow> (True, b\<lparr>ab_active := AList.update k (a\<lparr>am_Acked := True, am_AckedBy := by'\<rparr>) (ab_active b)\<rparr>))"

definition activeFor ::
    "((string \<times> 'v alarm) list \<Rightarrow> (string \<times> 'v alarm) list) \<Rightarrow> string \<Rightarrow> 'v alarmBook \<Rightarrow> 'v alarm list" where
  "activeFor ord ch b = filter (\<lambda>a. am_Channel a = ch) (map snd (ord (ab_active b)))"

section \<open>The evaluation of a channel\<close>

record alarmOptions =
  ao_Disabled :: "string list"
  ao_BlackSec :: int
  ao_FreezeSec :: int
  ao_SilenceSec :: int

definition AlarmDefaults :: "alarmOptions option \<Rightarrow> alarmOptions" where
  "AlarmDefaults c =
     (let a = (case c of Some a \<Rightarrow> a | None \<Rightarrow> \<lparr>ao_Disabled = [], ao_BlackSec = 0, ao_FreezeSec = 0, ao_SilenceSec = 0\<rparr>);
          a = (if ao_BlackSec a = 0 then a\<lparr>ao_BlackSec := 5\<rparr> else a);
          a = (if ao_FreezeSec a = 0 then a\<lparr>ao_FreezeSec := 10\<rparr> else a)
      in if ao_SilenceSec a = 0 then a\<lparr>ao_SilenceSec := 10\<rparr> else a)"

definition AlarmEnabled :: "alarmOptions \<Rightarrow> string \<Rightarrow> bool" where
  "AlarmEnabled a t = (t \<notin> set (ao_Disabled a))"

text \<open>
  What \<^verbatim>\<open>evaluateAlarms\<close> reads: the configuration and status of the channel and the snapshot of its monitor.
  A comparison of measurements is its outcome, e.g. \<open>ld_loud\<close> tells for each audio channel whether its level
  is above the threshold of silence.
\<close>

record 'v loudness =
  ld_loud :: "bool list"
  ld_settled :: bool
  ld_off_target :: bool
  ld_msg :: string
  ld_value :: 'v

record 'v monitor =
  mn_black :: bool
  mn_frozen :: bool
  mn_audioLive :: bool
  mn_loudness :: "'v loudness option"
  mn_luma :: 'v
  mn_motion :: 'v
  mn_msgs :: "string \<times> string \<times> string" \<comment> \<open>black, frozen, silent\<close>

record outputStatus =
  os_ID :: string
  os_State :: string
  os_Error :: string

record 'v chan_view =
  cv_ch :: string
  cv_alarms :: "alarmOptions option"
  cv_started :: int
  cv_grace :: int
  cv_state :: string
  cv_error :: string
  cv_stats :: "(bool \<times> string \<times> 'v) option" \<comment> \<open>bitrate too low, text, value\<close>
  cv_outputs :: "(string \<times> bool) list" \<comment> \<open>configured outputs, enabled\<close>
  cv_status :: "outputStatus list"
  cv_audioDisabled :: bool
  cv_loudnessOn :: bool
  cv_mon :: "'v monitor option"

text \<open>\<^verbatim>\<open>time.Duration(s) * time.Second\<close>, a product of 64 bits.\<close>

definition seconds :: "int \<Rightarrow> int" where
  "seconds s = mul64 s 1000000000"

text \<open>The status of an output: the last one with its id, or the zero value.\<close>

definition output_status :: "outputStatus list \<Rightarrow> string \<Rightarrow> outputStatus" where
  "output_status xs oid = foldl (\<lambda>st x. if os_ID x = oid then x else st) \<lparr>os_ID = [], os_State = [], os_Error = []\<rparr> xs"

definition is_silent :: "'v chan_view \<Rightarrow> 'v monitor \<Rightarrow> bool" where
  "is_silent v ms =
     (\<not> cv_audioDisabled v \<and> mn_audioLive ms \<and>
      (case mn_loudness ms of None \<Rightarrow> False | Some ld \<Rightarrow> \<not> list_ex (\<lambda>loud. loud) (ld_loud ld)))"

definition monitor_samples ::
    "(string \<Rightarrow> string \<Rightarrow> bool \<Rightarrow> int \<Rightarrow> string \<Rightarrow> 'v \<Rightarrow> 'v observation) \<Rightarrow> 'v \<Rightarrow> alarmOptions \<Rightarrow> 'v chan_view \<Rightarrow> 'v monitor \<Rightarrow> 'v observation list" where
  "monitor_samples mk zero opt v ms =
     (let silent = is_silent v ms; en = AlarmEnabled opt; (mb, mf, mq) = mn_msgs ms
      in [mk AlarmBlack [] (en AlarmBlack \<and> mn_black ms) (seconds (ao_BlackSec opt)) mb (mn_luma ms),
          mk AlarmFreeze [] (en AlarmFreeze \<and> mn_frozen ms) (seconds (ao_FreezeSec opt)) mf (mn_motion ms),
          mk AlarmSilence [] (en AlarmSilence \<and> silent) (seconds (ao_SilenceSec opt)) mq zero,
          mk AlarmInputLoss [] (en AlarmInputLoss \<and> mn_black ms \<and> (silent \<or> cv_audioDisabled v)) (seconds 3)
             ''input lost (black + silence: fallback/slate on air)'' zero] @
         (case mn_loudness ms of
            Some ld \<Rightarrow>
              if cv_loudnessOn v \<and> mn_audioLive ms \<and> \<not> silent \<and> ld_settled ld
              then [mk AlarmLoudness [] (en AlarmLoudness \<and> ld_off_target ld) (seconds 30) (ld_msg ld) (ld_value ld)] else []
          | None \<Rightarrow> []))"

definition samples_of :: "int \<Rightarrow> int \<Rightarrow> 'v \<Rightarrow> 'v chan_view \<Rightarrow> 'v observation list" where
  "samples_of now wall zero v =
     (let opt = AlarmDefaults (cv_alarms v);
          en = AlarmEnabled opt;
          warm = (now - cv_started v > cv_grace v div 2);
          mk = (\<lambda>typ out cond hold msg val. \<lparr>sm_now = now, sm_wall = wall, sm_ch = cv_ch v, sm_typ = typ, sm_out = out,
                  sm_cond = cond, sm_hold = hold, sm_msg = msg, sm_value = val\<rparr>)
      in [mk AlarmEngineDown [] (en AlarmEngineDown \<and> (cv_state v = ''reconnecting'' \<or> cv_state v = ''error'')) (seconds 5)
             (''engine not producing: '' @ cv_error v) zero] @
         (case cv_stats v of
            Some (low, msg, val) \<Rightarrow>
              if warm then [mk AlarmBitrateDrop [] (en AlarmBitrateDrop \<and> cv_state v \<noteq> ''stopped'' \<and> low) (seconds 10) msg val]
              else []
          | None \<Rightarrow> []) @
         concat (map (\<lambda>(oid, enabled).
           if \<not> enabled then []
           else let st = output_status (cv_status v) oid
                in [mk AlarmOutputDown oid (en AlarmOutputDown \<and> warm \<and> os_State st \<noteq> ''running'') (seconds 10)
                      (''output '' @ oid @ '' '' @ os_State st @ '': '' @ os_Error st) zero]) (cv_outputs v)) @
         (case cv_mon v of None \<Rightarrow> [] | Some ms \<Rightarrow> monitor_samples mk zero opt v ms))"

definition evaluateAlarms :: "int \<Rightarrow> int \<Rightarrow> 'v \<Rightarrow> 'v chan_view \<Rightarrow> 'v alarmBook \<Rightarrow> 'v event list \<times> 'v alarmBook" where
  "evaluateAlarms now wall zero v b = observe_all (samples_of now wall zero v) b"

section \<open>The phase of a condition\<close>

datatype phase = Quiet | Pending int | Raised

definition phase_of :: "'v alarmBook \<Rightarrow> string \<Rightarrow> phase" where
  "phase_of b k =
     (if map_of (ab_active b) k \<noteq> None then Raised
      else case map_of (ab_since b) k of None \<Rightarrow> Quiet | Some t \<Rightarrow> Pending t)"

definition phase_step :: "'v observation \<Rightarrow> phase \<Rightarrow> phase" where
  "phase_step s p =
     (if \<not> sm_cond s then Quiet
      else case p of
        Raised \<Rightarrow> Raised
      | Quiet \<Rightarrow> if 0 < sm_hold s then Pending (sm_now s) else Raised
      | Pending t \<Rightarrow> if sm_now s - t < sm_hold s then Pending t else Raised)"

lemma push_simps [simp]:
  "ab_since (push a b) = ab_since b" "ab_active (push a b) = ab_active b" "ab_seq (push a b) = ab_seq b"
  "ab_send (push a b) = ab_send b" "ab_device (push a b) = ab_device b"
  by (simp_all add: push_def Let_def)

lemma push_history: "length (ab_history b) \<le> 500 \<Longrightarrow> length (ab_history (push a b)) \<le> 500"
  by (simp add: push_def Let_def)

lemma map_of_update: "map_of (AList.update k v al) k' = (if k' = k then Some v else map_of al k')"
  by (simp add: update_conv')

lemma map_of_delete: "map_of (AList.delete k al) k' = (if k' = k then None else map_of al k')"
  by (simp add: delete_conv')

text \<open>When the condition was first seen, and the alarm that a sample raises.\<close>

definition first_seen :: "'v observation \<Rightarrow> 'v alarmBook \<Rightarrow> int" where
  "first_seen s b = (case map_of (ab_since b) (sm_key s) of Some t \<Rightarrow> t | None \<Rightarrow> sm_now s)"

definition mark_seen :: "'v observation \<Rightarrow> 'v alarmBook \<Rightarrow> 'v alarmBook" where
  "mark_seen s b =
     b\<lparr>ab_since := (case map_of (ab_since b) (sm_key s) of
         Some t \<Rightarrow> ab_since b | None \<Rightarrow> AList.update (sm_key s) (sm_now s) (ab_since b))\<rparr>"

definition new_alarm :: "'v observation \<Rightarrow> int \<Rightarrow> 'v alarm" where
  "new_alarm s seq = \<lparr>am_ID = alarm_id (sm_now s) seq, am_Type = sm_typ s, am_Severity = severities (sm_typ s),
     am_Channel = sm_ch s, am_Output = sm_out s, am_Message = sm_msg s, am_Value = sm_value s,
     am_RaisedAt = sm_now s, am_ClearedAt = None, am_Acked = False, am_AckedBy = []\<rparr>"

lemma observe_cases:
  obtains (idle) "\<not> sm_cond s" "map_of (ab_active b) (sm_key s) = None"
      "observe s b = ([], b\<lparr>ab_since := AList.delete (sm_key s) (ab_since b)\<rparr>)"
  | (clear) a b1 where "\<not> sm_cond s" "map_of (ab_active b) (sm_key s) = Some a"
      "b1 = push (a\<lparr>am_ClearedAt := Some (sm_now s)\<rparr>) (b\<lparr>ab_since := AList.delete (sm_key s) (ab_since b)\<rparr>)"
      "observe s b = (emit_event (sm_wall s) (a\<lparr>am_ClearedAt := Some (sm_now s)\<rparr>) False b,
         b1\<lparr>ab_active := AList.delete (sm_key s) (ab_active b)\<rparr>)"
  | (latched) "sm_cond s" "map_of (ab_active b) (sm_key s) \<noteq> None" "observe s b = ([], b)"
  | (waiting) "sm_cond s" "map_of (ab_active b) (sm_key s) = None" "sm_now s - first_seen s b < sm_hold s"
      "observe s b = ([], mark_seen s b)"
  | (raising) a where "sm_cond s" "map_of (ab_active b) (sm_key s) = None" "\<not> sm_now s - first_seen s b < sm_hold s"
      "a = new_alarm s (ab_seq b + 1)"
      "observe s b = (emit_event (sm_wall s) a True b,
         push a ((mark_seen s b)\<lparr>ab_seq := ab_seq b + 1, ab_active := AList.update (sm_key s) a (ab_active b)\<rparr>))"
proof (cases "sm_cond s")
  case False
  then show thesis
    using idle clear
    by (cases "map_of (ab_active b) (sm_key s)") (simp_all add: observe_def Let_def emit_event_def)
next
  case True
  show thesis
  proof (cases "map_of (ab_active b) (sm_key s)")
    case (Some a)
    then show thesis using latched True by (simp add: observe_def)
  next
    case None
    show thesis
      using waiting raising True None
      by (cases "sm_now s - first_seen s b < sm_hold s"; cases "map_of (ab_since b) (sm_key s)")
        (simp_all add: observe_def Let_def emit_event_def first_seen_def mark_seen_def new_alarm_def)
  qed
qed

lemma mark_seen_simps [simp]:
  "ab_active (mark_seen s b) = ab_active b" "ab_history (mark_seen s b) = ab_history b" "ab_seq (mark_seen s b) = ab_seq b"
  "ab_send (mark_seen s b) = ab_send b" "ab_device (mark_seen s b) = ab_device b"
  "map_of (ab_since (mark_seen s b)) k = (if k = sm_key s then Some (first_seen s b) else map_of (ab_since b) k)"
  by (auto simp: mark_seen_def first_seen_def map_of_update split: option.splits)

lemma phase_of_other:
  assumes "k \<noteq> sm_key s"
  shows "map_of (ab_active (snd (observe s b))) k = map_of (ab_active b) k"
    "map_of (ab_since (snd (observe s b))) k = map_of (ab_since b) k"
  by (cases rule: observe_cases [of s b], simp_all add: assms map_of_update map_of_delete)+

lemma observe_phase: "phase_of (snd (observe s b)) k = (if k = sm_key s then phase_step s (phase_of b k) else phase_of b k)"
proof (cases "k = sm_key s")
  case True
  have seen: "phase_of b k = (case map_of (ab_since b) k of None \<Rightarrow> Quiet | Some t \<Rightarrow> Pending t)"
    if "map_of (ab_active b) k = None" using that by (simp add: phase_of_def)
  show ?thesis
  proof (cases rule: observe_cases [of s b])
    case waiting
    with True seen show ?thesis
      by (simp add: phase_of_def phase_step_def first_seen_def split: option.splits)
  next
    case (raising a)
    with True seen show ?thesis
      by (simp add: phase_of_def phase_step_def first_seen_def map_of_update split: option.splits)
  qed (simp_all add: True phase_of_def phase_step_def map_of_delete)
qed (simp add: phase_of_def phase_of_other)

lemma observe_all_phase:
  "phase_of (snd (observe_all ss b)) k = fold phase_step (filter (\<lambda>s. sm_key s = k) ss) (phase_of b k)"
proof (induction ss arbitrary: b)
  case (Cons s ss)
  obtain evs b1 evs' b2 where "observe s b = (evs, b1)" "observe_all ss b1 = (evs', b2)" by (metis surj_pair)
  with Cons.IH [of b1] observe_phase [of s b k] show ?case by (auto simp: eq_commute [of k])
qed simp

text \<open>The samples since the condition last became true, and whether one of them was late enough.\<close>

definition true_run :: "'v observation list \<Rightarrow> 'v observation list" where
  "true_run ss = rev (takeWhile sm_cond (rev ss))"

definition held :: "'v observation list \<Rightarrow> bool" where
  "held ss = (\<exists>s \<in> set (true_run ss). sm_now s - sm_now (hd (true_run ss)) \<ge> sm_hold s)"

lemma true_run_snoc: "true_run (ss @ [s]) = (if sm_cond s then true_run ss @ [s] else [])"
  by (simp add: true_run_def)

lemma phase_history:
  "fold phase_step ss Quiet =
    (if true_run ss = [] then Quiet else if held ss then Raised else Pending (sm_now (hd (true_run ss))))"
proof (induction ss rule: rev_induct)
  case (snoc s ss)
  show ?case
  proof (cases "sm_cond s")
    case True
    then show ?thesis
      using snoc by (auto simp: phase_step_def held_def true_run_snoc hd_append)
  qed (simp add: phase_step_def true_run_snoc)
qed (simp add: true_run_def)

section \<open>Sequences of operations\<close>

type_synonym 'v active_order = "(string \<times> 'v alarm) list \<Rightarrow> (string \<times> 'v alarm) list"

datatype 'v book_op =
    Observe "'v observation"
  | ClearChannel "'v active_order" int int 'v string
  | Ack "'v active_order" string string

definition book_step :: "'v book_op \<Rightarrow> 'v alarmBook \<Rightarrow> 'v event list \<times> 'v alarmBook" where
  "book_step opn b =
     (case opn of
        Observe s \<Rightarrow> observe s b
      | ClearChannel ord now wall zero ch \<Rightarrow> clearChannel ord now wall zero ch b
      | Ack ord aid by' \<Rightarrow> ([], snd (ack ord aid by' b)))"

fun run_book :: "'v book_op list \<Rightarrow> 'v alarmBook \<Rightarrow> 'v event list \<times> 'v alarmBook" where
  "run_book [] b = ([], b)"
| "run_book (opn # ops) b =
     (case book_step opn b of (evs, b) \<Rightarrow> case run_book ops b of (evs', b) \<Rightarrow> (evs @ evs', b))"

text \<open>The ids of channels have no vertical bar (\<^verbatim>\<open>reID\<close> of the configuration).\<close>

definition op_ok :: "'v book_op \<Rightarrow> bool" where
  "op_ok opn =
     (case opn of
        Observe s \<Rightarrow> CHR ''|'' \<notin> set (sm_ch s)
      | ClearChannel ord now wall zero ch \<Rightarrow> permutes ord \<and> CHR ''|'' \<notin> set ch
      | Ack ord aid by' \<Rightarrow> permutes ord)"

definition book_ok :: "'v alarmBook \<Rightarrow> bool" where
  "book_ok b \<longleftrightarrow>
     distinct (map fst (ab_active b)) \<and> length (ab_history b) \<le> 500 \<and>
     (\<forall>k a. map_of (ab_active b) k = Some a \<longrightarrow>
        k = akey (am_Channel a) (am_Type a) (am_Output a) \<and> CHR ''|'' \<notin> set (am_Channel a))"

definition belongs :: "string \<Rightarrow> string \<Rightarrow> bool" where
  "belongs ch k = (length k > length ch \<and> take (length ch + 1) k = ch @ ''|'')"

lemma belongs_akey:
  assumes "CHR ''|'' \<notin> set ch" "CHR ''|'' \<notin> set c"
  shows "belongs ch (akey c typ out) \<longleftrightarrow> c = ch"
proof
  assume b: "belongs ch (akey c typ out)"
  then have "\<exists>t. c @ CHR ''|'' # typ @ ''|'' @ out = ch @ CHR ''|'' # t"
    unfolding belongs_def akey_def
    by (metis append.assoc append_Cons append_Nil append_take_drop_id)
  then show "c = ch" using assms
  proof (induction c arbitrary: ch)
    case Nil
    then show ?case by (cases ch) auto
  next
    case (Cons x c)
    then show ?case by (cases ch) auto
  qed
qed (simp add: belongs_def akey_def)

lemma observe_ok:
  assumes "book_ok b" "CHR ''|'' \<notin> set (sm_ch s)"
  shows "book_ok (snd (observe s b))"
proof (cases rule: observe_cases [of s b])
  case (clear a b1)
  then show ?thesis
    using assms(1) push_history [of "b\<lparr>ab_since := AList.delete (sm_key s) (ab_since b)\<rparr>"]
    by (auto simp: book_ok_def map_of_delete distinct_delete split: if_splits)
next
  case (raising a)
  then show ?thesis
    using assms push_history [of "(mark_seen s b)\<lparr>ab_seq := ab_seq b + 1, ab_active := AList.update (sm_key s) a (ab_active b)\<rparr>" a]
    by (auto simp: book_ok_def map_of_update distinct_update new_alarm_def sm_key_def split: if_splits)
qed (use assms(1) in \<open>simp_all add: book_ok_def\<close>)

lemma newAlarmBook_ok: "book_ok (newAlarmBook send device)"
  by (simp add: book_ok_def newAlarmBook_def)

text \<open>Raised and cleared events of one condition alternate and carry the same id; the state is the id of the open alarm.\<close>

definition ev_key :: "'v event \<Rightarrow> string" where
  "ev_key e = akey (ev_Channel e) (ev_Type e) (ev_Output e)"

fun pairing :: "string option \<Rightarrow> 'v event list \<Rightarrow> string option option" where
  "pairing st [] = Some st"
| "pairing None (e # es) = (if ev_Active e then pairing (Some (ev_ID e)) es else None)"
| "pairing (Some i) (e # es) = (if \<not> ev_Active e \<and> ev_ID e = i then pairing None es else None)"

lemma pairing_append: "pairing st (xs @ ys) = (case pairing st xs of None \<Rightarrow> None | Some st' \<Rightarrow> pairing st' ys)"
  by (induction st xs rule: pairing.induct) auto

lemma alarm_id_inject:
  assumes "alarm_id n s = alarm_id n' s'" "0 < s" "0 < s'"
  shows "s = s'"
proof -
  have r: "takeWhile is_digit (rev (alarm_id m t)) = rev (itoa (nat t))" if "0 < t" for m t
  proof -
    have "rev (alarm_id m t) = rev (itoa (nat t)) @ CHR ''-'' # rev (''al-'' @ itoa_int (m div 1000000000))"
      using that by (simp add: alarm_id_def itoa_int_def)
    moreover have "\<not> is_digit (CHR ''-'')" by (simp add: is_digit_def)
    moreover have "\<forall>x \<in> set (rev (itoa (nat t))). is_digit x" using itoa_digits [of "nat t"] by (simp add: list_all_iff)
    ultimately show ?thesis by (simp add: takeWhile_append)
  qed
  have "itoa (nat s) = itoa (nat s')" using r [OF assms(2), of n] r [OF assms(3), of n'] assms(1) by simp
  with assms(2,3) show ?thesis by simp
qed

definition events_ok :: "'v event list \<Rightarrow> 'v alarmBook \<Rightarrow> bool" where
  "events_ok evs b \<longleftrightarrow>
     ab_send b \<and> 0 \<le> ab_seq b \<and>
     (\<forall>k. pairing None (filter (\<lambda>e. ev_key e = k) evs) = Some (map_option am_ID (map_of (ab_active b) k))) \<and>
     distinct (map ev_ID (filter ev_Active evs)) \<and>
     (\<forall>e \<in> set evs. ev_Active e \<longrightarrow> (\<exists>n s. ev_ID e = alarm_id n s \<and> 0 < s \<and> s \<le> ab_seq b))"

lemma events_ok_cong:
  assumes "events_ok evs b" "ab_send b' = ab_send b" "ab_seq b' = ab_seq b"
    "\<And>k. map_option am_ID (map_of (ab_active b') k) = map_option am_ID (map_of (ab_active b) k)"
  shows "events_ok evs b'"
  using assms by (simp add: events_ok_def)

lemma emit_event_sent:
  "ab_send b \<Longrightarrow> \<exists>e. emit_event wall a act b = [e] \<and> ev_ID e = am_ID a \<and> ev_Active e = act \<and>
     ev_key e = akey (am_Channel a) (am_Type a) (am_Output a)"
  by (simp add: emit_event_def ev_key_def)

lemma observe_events:
  assumes "book_ok b" "events_ok evs b"
  shows "events_ok (evs @ fst (observe s b)) (snd (observe s b))"
proof (cases rule: observe_cases [of s b])
  case (clear a b1)
  have send: "ab_send b" using assms(2) by (simp add: events_ok_def)
  have k: "akey (am_Channel a) (am_Type a) (am_Output a) = sm_key s" using assms(1) clear(2) by (simp add: book_ok_def)
  obtain e where e: "emit_event (sm_wall s) (a\<lparr>am_ClearedAt := Some (sm_now s)\<rparr>) False b = [e]"
    "ev_ID e = am_ID a" "\<not> ev_Active e" "ev_key e = sm_key s"
    using emit_event_sent [OF send] k by (metis alarm.select_convs(1,2,4,5) alarm.surjective alarm.update_convs(9))
  show ?thesis
    using assms(2) clear(2) unfolding clear(4) clear(3) e(1)
    by (auto simp: events_ok_def e map_of_delete pairing_append)
next
  case (raising a)
  have send: "ab_send b" "0 \<le> ab_seq b" using assms(2) by (simp_all add: events_ok_def)
  have k: "akey (am_Channel a) (am_Type a) (am_Output a) = sm_key s" "am_ID a = alarm_id (sm_now s) (ab_seq b + 1)"
    unfolding raising(4) by (simp_all add: new_alarm_def sm_key_def)
  obtain e where e: "emit_event (sm_wall s) a True b = [e]" "ev_ID e = am_ID a" "ev_Active e" "ev_key e = sm_key s"
    using emit_event_sent [OF send(1)] k(1) by metis
  have new: "ev_ID e \<noteq> ev_ID e'" if e': "e' \<in> set evs" "ev_Active e'" for e'
  proof -
    obtain n t where "ev_ID e' = alarm_id n t" "0 < t" "t \<le> ab_seq b"
      using assms(2) e' by (auto simp: events_ok_def)
    with alarm_id_inject [of "sm_now s" "ab_seq b + 1" n t] send(2) show ?thesis by (auto simp: e(2) k(2))
  qed
  have old: "\<exists>n t. ev_ID e' = alarm_id n t \<and> 0 < t \<and> t \<le> ab_seq b + 1" if "e' \<in> set evs" "ev_Active e'" for e'
    using assms(2) that by (fastforce simp: events_ok_def)
  have "\<exists>n t. am_ID a = alarm_id n t \<and> 0 < t \<and> t \<le> ab_seq b + 1"
    unfolding k(2) using send(2) by (intro exI [of _ "sm_now s"] exI [of _ "ab_seq b + 1"]) simp
  then show ?thesis
    using assms(2) raising(2) send(2) new old unfolding raising(5) e(1)
    by (auto simp: events_ok_def e map_of_update pairing_append)
qed (use assms(2) in \<open>auto simp: events_ok_def\<close>)

lemma phase_raised: "phase_of b k = Raised \<longleftrightarrow> map_of (ab_active b) k \<noteq> None"
  by (simp add: phase_of_def split: option.splits)

lemma clear_keys_spec:
  assumes "book_ok b" "events_ok evs b"
  shows "book_ok (snd (clear_keys now wall zero ks b)) \<and>
    events_ok (evs @ fst (clear_keys now wall zero ks b)) (snd (clear_keys now wall zero ks b)) \<and>
    (\<forall>k. phase_of (snd (clear_keys now wall zero ks b)) k =
           (if k \<in> set ks \<and> phase_of b k = Raised then Quiet else phase_of b k))"
  using assms
proof (induction ks arbitrary: b evs)
  case (Cons k ks)
  show ?case
  proof (cases "map_of (ab_active b) k")
    case None
    with Cons.prems Cons.IH [OF Cons.prems] phase_raised [of b k] show ?thesis by auto
  next
    case (Some a)
    let ?s = "\<lparr>sm_now = now, sm_wall = wall, sm_ch = am_Channel a, sm_typ = am_Type a, sm_out = am_Output a,
      sm_cond = False, sm_hold = 0, sm_msg = [], sm_value = zero\<rparr>"
    obtain es1 b1 where o: "observe ?s b = (es1, b1)" by fastforce
    obtain es2 b2 where c: "clear_keys now wall zero ks b1 = (es2, b2)" by fastforce
    have a: "akey (am_Channel a) (am_Type a) (am_Output a) = k" "CHR ''|'' \<notin> set (am_Channel a)"
      using Cons.prems(1) Some by (auto simp: book_ok_def)
    have "book_ok b1" "events_ok (evs @ es1) b1"
      using observe_ok [OF Cons.prems(1), of ?s] observe_events [OF Cons.prems, of ?s] a(2) by (simp_all add: o)
    note IH = Cons.IH [OF this]
    have "sm_key ?s = k" using a(1) by (simp add: sm_key_def)
    then have ph: "phase_of b1 k' = (if k' = k then Quiet else phase_of b k')" for k'
      using observe_phase [of ?s b k'] by (simp add: o phase_step_def)
    have "phase_of b k = Raised" using Some by (simp add: phase_of_def)
    with IH ph show ?thesis using Some o c by auto
  qed
qed simp

lemma map_of_filter_key: "map_of (filter (\<lambda>(k, t). P k) m) k = (if P k then map_of m k else None)"
  by (induction m) auto

lemma clearChannel_spec:
  assumes "book_ok b" "events_ok evs b" "permutes ord" "CHR ''|'' \<notin> set ch"
    and "clearChannel ord now wall zero ch b = (es, b')"
  shows "book_ok b' \<and> events_ok (evs @ es) b' \<and> (\<forall>k. phase_of b' k = (if belongs ch k then Quiet else phase_of b k))"
proof -
  define ks where "ks = map fst (filter (\<lambda>(k, a). am_Channel a = ch) (ord (ab_active b)))"
  define b1 where "b1 = b\<lparr>ab_since := filter (\<lambda>(k, t). \<not> belongs ch k) (ab_since b)\<rparr>"
  have c: "clear_keys now wall zero ks b1 = (es, b')"
    using assms(5) by (simp add: clearChannel_def Let_def ks_def b1_def belongs_def)
  have ok: "book_ok b1" "events_ok evs b1"
    using assms(1,2) by (simp_all add: b1_def book_ok_def events_ok_def)
  have dist: "distinct (map fst (ab_active b))" using assms(1) by (simp add: book_ok_def)
  have "k \<in> set ks \<longleftrightarrow> (\<exists>a. map_of (ab_active b) k = Some a \<and> am_Channel a = ch)" for k
    using dist by (auto simp: ks_def permutes_set [OF assms(3)] image_iff)
  moreover have "am_Channel a = ch \<longleftrightarrow> belongs ch k" if "map_of (ab_active b) k = Some a" for k a
    using assms(1,4) that belongs_akey [of ch "am_Channel a" "am_Type a" "am_Output a"] by (auto simp: book_ok_def)
  ultimately have ks: "k \<in> set ks \<longleftrightarrow> map_of (ab_active b) k \<noteq> None \<and> belongs ch k" for k by auto
  have "phase_of b1 k = (if map_of (ab_active b) k = None \<and> belongs ch k then Quiet else phase_of b k)" for k
    by (simp add: phase_of_def b1_def map_of_filter_key)
  with clear_keys_spec [OF ok, of now wall zero ks] c ks phase_raised [of b] show ?thesis by auto
qed

lemma ack_spec:
  assumes "book_ok b" "events_ok evs b" "permutes ord" "ack ord aid by' b = (done', b')"
  shows "book_ok b' \<and> events_ok evs b' \<and> (\<forall>k. phase_of b' k = phase_of b k)"
proof (cases "find (\<lambda>(k, a). am_ID a = aid) (ord (ab_active b))")
  case None
  with assms show ?thesis by (simp add: ack_def)
next
  case (Some ka)
  obtain k a where ka: "ka = (k, a)" by fastforce
  let ?a = "a\<lparr>am_Acked := True, am_AckedBy := by'\<rparr>"
  have b': "b' = b\<lparr>ab_active := AList.update k ?a (ab_active b)\<rparr>" using assms(4) Some ka by (simp add: ack_def)
  have "(k, a) \<in> set (ab_active b)"
    using find_SomeD [OF Some] ka permutes_set [OF assms(3)] by simp
  then have m: "map_of (ab_active b) k = Some a" using assms(1) by (simp add: book_ok_def)
  have "book_ok b'"
    using assms(1) m by (auto simp: b' book_ok_def map_of_update distinct_update split: if_splits)
  moreover have "events_ok evs b'"
    by (rule events_ok_cong [OF assms(2)]) (auto simp: b' map_of_update m)
  ultimately show ?thesis by (auto simp: b' phase_of_def map_of_update m)
qed

text \<open>What an operation tells about the condition with the key \<open>k\<close>: stopping its channel ends it.\<close>

definition seen_by :: "string \<Rightarrow> 'v book_op \<Rightarrow> 'v observation list" where
  "seen_by k opn =
     (case opn of
        Observe s \<Rightarrow> if sm_key s = k then [s] else []
      | ClearChannel ord now wall zero ch \<Rightarrow>
          if belongs ch k
          then [\<lparr>sm_now = now, sm_wall = wall, sm_ch = ch, sm_typ = [], sm_out = [], sm_cond = False, sm_hold = 0,
                 sm_msg = [], sm_value = zero\<rparr>]
          else []
      | Ack ord aid by' \<Rightarrow> [])"

lemma book_step_spec:
  assumes "book_ok b" "events_ok evs b" "op_ok opn" "book_step opn b = (es, b')"
  shows "book_ok b' \<and> events_ok (evs @ es) b' \<and> (\<forall>k. phase_of b' k = fold phase_step (seen_by k opn) (phase_of b k))"
proof (cases opn)
  case (Observe s)
  have "observe s b = (es, b')" "CHR ''|'' \<notin> set (sm_ch s)" using assms(3,4) Observe by (simp_all add: book_step_def op_ok_def)
  with observe_ok [OF assms(1), of s] observe_events [OF assms(1,2), of s] observe_phase [of s b] Observe show ?thesis
    by (auto simp: seen_by_def)
next
  case (ClearChannel ord now wall zero ch)
  have "clearChannel ord now wall zero ch b = (es, b')" "permutes ord" "CHR ''|'' \<notin> set ch"
    using assms(3,4) ClearChannel by (simp_all add: book_step_def op_ok_def)
  with clearChannel_spec [OF assms(1,2)] ClearChannel show ?thesis by (auto simp: seen_by_def phase_step_def)
next
  case (Ack ord aid by')
  obtain d where "ack ord aid by' b = (d, b')" "es = []" "permutes ord"
    using assms(3,4) Ack by (cases "ack ord aid by' b") (auto simp: book_step_def op_ok_def)
  with ack_spec [OF assms(1,2)] Ack show ?thesis by (auto simp: seen_by_def)
qed

lemma run_book_spec:
  assumes "book_ok b" "events_ok evs b" "\<forall>opn \<in> set ops. op_ok opn" "run_book ops b = (es, b')"
  shows "book_ok b' \<and> events_ok (evs @ es) b' \<and>
    (\<forall>k. phase_of b' k = fold phase_step (concat (map (seen_by k) ops)) (phase_of b k))"
  using assms
proof (induction ops arbitrary: b evs es)
  case (Cons opn ops)
  obtain es1 b1 where s: "book_step opn b = (es1, b1)" by fastforce
  obtain es2 where r: "run_book ops b1 = (es2, b')" "es = es1 @ es2" using Cons.prems(4) s by (auto split: prod.splits)
  have "book_ok b1 \<and> events_ok (evs @ es1) b1 \<and> (\<forall>k. phase_of b1 k = fold phase_step (seen_by k opn) (phase_of b k))"
    using book_step_spec [OF Cons.prems(1,2) _ s] Cons.prems(3) by simp
  with Cons.IH [of b1 "evs @ es1" es2] r Cons.prems(3) show ?case by simp
qed simp

section \<open>Properties\<close>

text \<open>
  C17. Alarms follow their conditions. After any sequence of samples, stopped channels and acknowledgements,
  whatever their order and times, an alarm is active exactly when its condition has been true in every sample since it last was
  false (or its channel was stopped), and one of these samples came at least its hold time after the
  first of them. The notifier has been sent, for every condition, a raise and a clear in turn, both with the id of the
  alarm, ending with the raise of the active alarm if there is one; the ids of all raised alarms are different; and the
  history keeps at most 500 records.
\<close>

theorem alarms_follow_conditions:
  fixes b :: "'v alarmBook"
  assumes "\<forall>opn \<in> set ops. op_ok opn" "run_book ops (newAlarmBook True device) = (evs, b)"
  shows "(map_of (ab_active b) k \<noteq> None \<longleftrightarrow> held (concat (map (seen_by k) ops))) \<and>
    pairing None (filter (\<lambda>e. ev_key e = k) evs) = Some (map_option am_ID (map_of (ab_active b) k)) \<and>
    distinct (map ev_ID (filter ev_Active evs)) \<and> length (ab_history b) \<le> 500"
proof -
  let ?b = "newAlarmBook True device :: 'v alarmBook"
  have "events_ok [] ?b" by (simp add: events_ok_def newAlarmBook_def)
  from run_book_spec [OF newAlarmBook_ok this assms] have r: "book_ok b" "events_ok evs b"
    "phase_of b k = fold phase_step (concat (map (seen_by k) ops)) (phase_of ?b k)" by auto
  have "phase_of ?b k = Quiet" by (simp add: phase_of_def newAlarmBook_def)
  then have "map_of (ab_active b) k \<noteq> None \<longleftrightarrow> held (concat (map (seen_by k) ops))"
    using r(3) phase_raised [of b k] phase_history [of "concat (map (seen_by k) ops)"]
    by (auto simp: held_def split: if_splits)
  with r(1,2) show ?thesis by (simp add: events_ok_def book_ok_def)
qed

definition demo_obs :: "int \<Rightarrow> bool \<Rightarrow> nat observation" where
  "demo_obs t c = \<lparr>sm_now = t, sm_wall = t, sm_ch = ''ch1'', sm_typ = AlarmBlack, sm_out = [], sm_cond = c, sm_hold = 5,
     sm_msg = ''black picture'', sm_value = 7\<rparr>"

theorem alarms_follow_conditions_witness:
  "\<exists>evs b. run_book [Observe (demo_obs 0 True), Observe (demo_obs 3 True), Observe (demo_obs 5 True), Ack rev ''al-0-1'' ''ann'']
       (newAlarmBook True ''enc'') = (evs, b) \<and>
     map_of (ab_active b) ''ch1|black|'' \<noteq> None \<and> length evs = 1"
proof -
  let ?ops = "[Observe (demo_obs 0 True), Observe (demo_obs 3 True), Observe (demo_obs 5 True), Ack rev ''al-0-1'' ''ann'']"
  obtain evs b where r: "run_book ?ops (newAlarmBook True ''enc'') = (evs, b)" by fastforce
  have ok: "\<forall>opn \<in> set ?ops. op_ok opn" by (simp add: op_ok_def demo_obs_def)
  have "held (concat (map (seen_by ''ch1|black|'') ?ops))" "length (fst (run_book ?ops (newAlarmBook True ''enc''))) = 1"
    by code_simp+
  with alarms_follow_conditions [OF ok r, of "''ch1|black|''"] r show ?thesis by auto
qed

lemma observe_all_other:
  "\<forall>s \<in> set ss. sm_key s \<noteq> k \<Longrightarrow> map_of (ab_active (snd (observe_all ss b))) k = map_of (ab_active b) k"
proof (induction ss arbitrary: b)
  case (Cons s ss)
  obtain evs b1 evs' b2 where "observe s b = (evs, b1)" "observe_all ss b1 = (evs', b2)" by (metis surj_pair)
  with Cons.IH [of b1] Cons.prems phase_of_other(1) [of k s b] show ?case by auto
qed simp

lemma bar_split:
  "CHR ''|'' \<notin> set x \<Longrightarrow> CHR ''|'' \<notin> set y \<Longrightarrow> x @ CHR ''|'' # s = y @ CHR ''|'' # t \<longleftrightarrow> x = y \<and> s = t"
proof (induction x arbitrary: y)
  case Nil
  then show ?case by (cases y) auto
next
  case (Cons c x)
  then show ?case by (cases y) auto
qed

lemma samples_of_keys:
  fixes v :: "'v chan_view"
  assumes "s \<in> set (samples_of now wall zero v)"
  shows "sm_ch s = cv_ch v \<and> (sm_typ s = AlarmOutputDown \<and> (sm_out s, True) \<in> set (cv_outputs v) \<or>
    sm_typ s \<in> {AlarmEngineDown, AlarmBitrateDrop, AlarmBlack, AlarmFreeze, AlarmSilence, AlarmInputLoss, AlarmLoudness})"
proof -
  define mk where "mk = (\<lambda>typ out cond hold msg (val :: 'v). \<lparr>sm_now = now, sm_wall = wall, sm_ch = cv_ch v, sm_typ = typ, sm_out = out,
    sm_cond = cond, sm_hold = hold, sm_msg = msg, sm_value = val\<rparr>)"
  have mk: "sm_ch (mk ty out c h m x) = cv_ch v" "sm_typ (mk ty out c h m x) = ty" "sm_out (mk ty out c h m x) = out"
    for ty out c h m x by (simp_all add: mk_def)
  have mon: "sm_ch t = cv_ch v \<and> sm_typ t \<in> {AlarmBlack, AlarmFreeze, AlarmSilence, AlarmInputLoss, AlarmLoudness}"
    if "t \<in> set (monitor_samples mk zero opt v ms)" for t opt ms
    using that by (cases "mn_msgs ms") (auto simp: monitor_samples_def Let_def mk split: option.splits if_splits)
  show ?thesis
    using assms unfolding samples_of_def Let_def mk_def [symmetric]
    by (auto simp: mk split: option.splits if_splits prod.splits dest!: mon)
qed

text \<open>
  C39. The alarm of an output outlives the output. Once \<^verbatim>\<open>output_down\<close> is active for an output that is then
  disabled or removed from the configuration, no evaluation of the channel clears it, however long the
  channel runs: \<^verbatim>\<open>evaluateAlarms\<close> only looks at enabled outputs, and only stopping the channel clears its alarms.
\<close>

theorem removed_output_keeps_its_alarm:
  assumes "map_of (ab_active b) (akey ch AlarmOutputDown oid) = Some a"
    and "\<forall>(now, wall, v) \<in> set vs. cv_ch v = ch \<and> (oid, True) \<notin> set (cv_outputs v)"
  shows "map_of (ab_active (fold (\<lambda>(now, wall, v) b. snd (evaluateAlarms now wall zero v b)) vs b))
    (akey ch AlarmOutputDown oid) = Some a"
  using assms
proof (induction vs arbitrary: b)
  case (Cons x vs)
  obtain now wall v where x: "x = (now, wall, v)" by (metis prod_cases3)
  let ?k = "akey ch AlarmOutputDown oid"
  have "sm_key s \<noteq> ?k" if s: "s \<in> set (samples_of now wall zero v)" for s
  proof -
    have "sm_typ s \<noteq> AlarmOutputDown \<or> sm_out s \<noteq> oid" "CHR ''|'' \<notin> set (sm_typ s)" "sm_ch s = ch"
      using samples_of_keys [OF s] Cons.prems(2) x
      by (auto simp: AlarmOutputDown_def AlarmEngineDown_def AlarmBitrateDrop_def AlarmBlack_def AlarmFreeze_def
        AlarmSilence_def AlarmInputLoss_def AlarmLoudness_def)
    moreover have "CHR ''|'' \<notin> set AlarmOutputDown" by code_simp
    ultimately show ?thesis using bar_split [of "sm_typ s" AlarmOutputDown "sm_out s" oid] by (auto simp: sm_key_def akey_def)
  qed
  then have "map_of (ab_active (snd (evaluateAlarms now wall zero v b))) ?k = Some a"
    using observe_all_other [of "samples_of now wall zero v" ?k b] Cons.prems(1) by (simp add: evaluateAlarms_def)
  with Cons.IH Cons.prems(2) x show ?case by simp
qed simp

definition demo_view :: "bool \<Rightarrow> nat chan_view" where
  "demo_view enabled = \<lparr>cv_ch = ''ch1'', cv_alarms = None, cv_started = 0, cv_grace = 0, cv_state = ''live'', cv_error = [],
     cv_stats = None, cv_outputs = [(''srt'', enabled)], cv_status = [\<lparr>os_ID = ''srt'', os_State = ''backoff'', os_Error = []\<rparr>],
     cv_audioDisabled = False, cv_loudnessOn = False, cv_mon = None\<rparr>"

theorem removed_output_keeps_its_alarm_witness:
  "\<exists>b a. b = snd (evaluateAlarms 20000000000 0 0 (demo_view True)
          (snd (evaluateAlarms 10000000000 0 0 (demo_view True) (newAlarmBook True ''enc'')))) \<and>
     map_of (ab_active (snd (evaluateAlarms 30000000000 0 0 (demo_view False) b))) ''ch1|output_down|srt'' = Some a"
proof -
  let ?b = "snd (evaluateAlarms 20000000000 0 0 (demo_view True)
          (snd (evaluateAlarms 10000000000 0 0 (demo_view True) (newAlarmBook True ''enc''))))"
  have k: "akey ''ch1'' AlarmOutputDown ''srt'' = ''ch1|output_down|srt''" by code_simp
  have "map_of (ab_active ?b) ''ch1|output_down|srt'' \<noteq> None" by code_simp
  then obtain a where a: "map_of (ab_active ?b) (akey ''ch1'' AlarmOutputDown ''srt'') = Some a" unfolding k by auto
  have "\<forall>(now, wall, v) \<in> set [(30000000000, 0, demo_view False)]. cv_ch v = ''ch1'' \<and> (''srt'', True) \<notin> set (cv_outputs v)"
    by (simp add: demo_view_def)
  from removed_output_keeps_its_alarm [OF a this, of 0] show ?thesis unfolding k by auto
qed

end
