(* ===== verification/Spec2Isabelle.thy ===== *)
theory Spec2Isabelle
  imports Ts_Bus Flow_Graph Enc_Paths Enc_Client Core_Throttle Core_RateLimit Enc_Trail Enc_Alarms
begin

text \<open>
  \<^bold>\<open>Verification library of StreamHub\<close>, a live-streaming platform. Its sources are below \<^verbatim>\<open>src/\<close>: the core server
  (\<^verbatim>\<open>streamhub-core-go\<close>), the software encoder (\<^verbatim>\<open>streamhub-encoder\<close>), and clients, agents and plugins around
  them. The library models the parts whose correctness can be stated over their own data: the transport
  stream path of the encoder, the security plane of its API, its audit log and alarms, and from the core the engine of
  event workflows, the continuity analysis and two rate limiters.

  \<^bold>\<open>How Go is read.\<close> A function of the source is a HOL function of the same name. A struct is a \<^verbatim>\<open>record\<close>, an
  unsigned integer a word of its width (theory \<open>Prelude\<close>), \<^verbatim>\<open>int\<close> and \<^verbatim>\<open>time.Duration\<close> are \<open>int\<close> with the wrap-around
  written out where the code can reach it (\<open>Prelude.mul64\<close>), a slice is a list and a string its list of
  bytes. An access out of range is a panic, the value \<open>None\<close>; so is a loop that does not return. A Go map is
  an association list, and the order of a \<^verbatim>\<open>range\<close> over it an argument \<open>ord\<close> that permutes the list. Methods with a receiver
  take the state and return it. Clock readings, random values, decoded request bodies and the success of writes are
  arguments. The packages of Go's standard library that the code uses are modelled in \<open>Go_Strings\<close>
  (\<^verbatim>\<open>strings\<close>, \<^verbatim>\<open>strconv\<close>, UTF-8), \<open>Go_Map\<close>, \<open>Go_Crypto\<close> (SHA-256, hex), \<open>Go_Netip\<close> (\<^verbatim>\<open>net/netip\<close>,
  \<^verbatim>\<open>net.SplitHostPort\<close>) and \<open>Go_Json\<close> (the scanner of \<^verbatim>\<open>encoding/json\<close>, the encoding of strings and RFC 3339 times).

  \<^bold>\<open>Parameters.\<close> bcrypt and the Unicode case tables are the record \<open>platform\<close> of \<open>Enc_Auth\<close>; the executors of
  workflow boxes are an argument of \<open>Flow_Graph.runGraph\<close>. No property assumes more of them than its statement shows.

  \<^bold>\<open>The transport stream of the encoder\<close> (\<^verbatim>\<open>streamhub-encoder/internal/scte35\<close>, \<^verbatim>\<open>tsbus\<close>).
  \<^item> \<open>Scte35_Crc\<close> (\<^verbatim>\<open>crc.go\<close>): the table-driven checksum is the bit-serial CRC-32 of MPEG-2 and detects bursts.
  \<^item> \<open>Scte35_Section\<close> (\<^verbatim>\<open>section.go\<close>): \<open>Encode\<close> and \<open>Parse\<close> of splice sections; round trip, no panic on
    any input, refusal of damaged sections.
  \<^item> \<open>Scte35_TS\<close> (\<^verbatim>\<open>ts.go\<close>): packets, PAT and PMT, \<open>rewritePMT\<close>, \<open>packetize\<close>, \<open>ExtractSections\<close>; a section of any
    length is reassembled from its packets, and a rewritten PMT announces the cue stream and keeps the rest.
  \<^item> \<open>Scte35_Injector\<close> (\<^verbatim>\<open>injector.go\<close>): the state of the injector, \<open>Insert\<close>, \<open>Process\<close> and the heartbeats;
    over any run the receiver gets exactly the accepted cues, and nothing else of the stream changes.
  \<^item> \<open>Ts_Analyzer\<close> (\<^verbatim>\<open>analyzer.go\<close> and the core's \<^verbatim>\<open>healthworker/tscc.go\<close>): both analysers count per PID as a
    reference definition does. \<open>Ts_Bus\<close> (\<^verbatim>\<open>bus.go\<close>, \<^verbatim>\<open>reader.go\<close>) composes injector, analyser and sinks: splicing
    cues adds no continuity error.

  \<^bold>\<open>The security plane of the encoder\<close> (\<^verbatim>\<open>streamhub-encoder/internal/auth\<close>).
  \<^item> \<open>Enc_Session\<close> (\<^verbatim>\<open>session.go\<close>), \<open>Enc_Limiter\<close> (\<^verbatim>\<open>ratelimit.go\<close>), \<open>Enc_Store\<close> (\<^verbatim>\<open>store.go\<close>), \<open>Enc_Policy\<close>
    (\<^verbatim>\<open>policy.go\<close>): the components, each with its invariant. The sessions fulfil the interface of a locale
    that the security proofs use; the limiter refines the full history of failures.
  \<^item> \<open>Enc_Mux\<close>: how \<^verbatim>\<open>http.ServeMux\<close> reads a path, and where policy and mux agree.
  \<^item> \<open>Enc_Auth\<close>, \<open>Enc_Serve\<close> (\<^verbatim>\<open>auth.go\<close>, \<^verbatim>\<open>middleware.go\<close>, \<^verbatim>\<open>handlers.go\<close>): account operations, middleware and handlers;
    \<open>serve\<close> takes one request through all of them.
  \<^item> \<open>Enc_Client\<close>: the client address behind proxies and the start of the service (\<open>New\<close>).
  \<^item> \<open>Enc_Secure\<close>: every request is a sequence of elementary changes (the inductive relation \<open>act\<close>) and does no more than its credentials
    allow (\<open>serve_acts\<close>). From this: accounts change with authority only, an enabled admin remains, locked
    accounts and revoked tokens stay out, guessing is locked out.
  \<^item> \<open>Enc_Audit\<close> (\<^verbatim>\<open>audit.go\<close>): the rotated log over a directory whose calls can fail. The files refine a list of
    segments, the backward reader is the last lines of a file, and the newest entries are retained.
  \<^item> \<open>Enc_Trail\<close>: requests and log together; changes are recorded, and the endpoint shows the newest records.

  \<^bold>\<open>Alarms of the encoder\<close> (\<^verbatim>\<open>streamhub-encoder/internal/channel/alarms.go\<close>). \<open>Enc_Alarms\<close> refines the book of alarms to the phase
    of each condition and the phase to the samples seen.

  \<^bold>\<open>The core\<close> (\<^verbatim>\<open>streamhub-core-go/internal\<close>).
  \<^item> \<open>Js_Value\<close> (\<^verbatim>\<open>platform/yamljs\<close>): the JavaScript value model with ordered keys; \<open>Flow_Graph\<close>
    (\<^verbatim>\<open>streamflow/graph.go\<close>): validation by depth-first search and the run of a graph, which
    executes exactly the boxes that fired ports reach.
  \<^item> \<open>Core_Window\<close>: a locale for counters with a fixed window and the bound that follows from its laws, interpreted for
    \<open>Core_Throttle\<close> (\<^verbatim>\<open>authn/throttle.go\<close>) and \<open>Core_RateLimit\<close> (\<^verbatim>\<open>platform/httpx/ratelimit.go\<close>).

  \<^bold>\<open>Bounds and termination.\<close> No definition uses fuel: loops are structural or have a termination proof, and the
  one loop whose end depends on the data (\<open>Enc_Session.evict_loop\<close>) is a \<^verbatim>\<open>partial_function\<close> whose result is
  proved to exist. Sizes such as 188 bytes, 500 records or 64 KiB are the constants of the source.

  \<^bold>\<open>Where the code falls short of its comments\<close>, as theorems: encoded slashes hide an API path from the policy
  (\<open>Enc_Mux\<close>), the back-off of the core overflows (\<open>Core_Throttle\<close>), the limiter is not bounded under a flood
  (\<open>Enc_Limiter\<close>), a damaged line hides intact audit entries (\<open>Enc_Audit\<close>), and the alarm of a removed output stays
  (\<open>Enc_Alarms\<close>).

  \<^bold>\<open>Not modelled.\<close> Goroutines and locks: every operation runs alone, as the mutex of its component makes it. Response
  bodies, headers and TLS. The channel manager, the supervisor and the pipeline builder of the encoder, whose effects are those of
  child processes and GStreamer. Floating-point computation (loudness meter, detectors of stream health, times of clips): there is no
  model of IEEE arithmetic in the libraries used, so the alarms take the outcomes of its comparisons as inputs. The rest of the core,
  which reads and writes SQLite tables and calls LiveKit, ffmpeg, S3, MQTT and SMTP; the web interface, the
  TypeScript SDK, the field agent and the Python plugins.
\<close>

end
